(* ===== verification/Prelude.thy ===== *)
theory Prelude
  imports Main "HOL-Library.Word"
begin

unbundle bit_operations_syntax

text \<open>
  Shared material of the development: the machine types the code uses, C++ undefined
  behaviour as a value, raw memory copies with their bounds written out, and generic
  lemmas on lists and words.
\<close>

section \<open>Machine types\<close>

type_synonym byte = "8 word"
type_synonym u32 = "32 word"
type_synonym u64 = "64 word"
type_synonym i32 = "32 word"

section \<open>Undefined behaviour as a value\<close>

text \<open>
  C++ leaves these situations undefined. A model operation that would run into one of
  them returns it as an error (\<open>Inl\<close>), so that no theorem about a result says anything
  about an execution that has already gone wrong.
\<close>

datatype ub =
    OutOfBounds \<comment> \<open>a read or a copy outside an array\<close>
  | HeaderSizeIndex \<comment> \<open>a subscript outside the header size table\<close>
  | PopEmpty \<comment> \<open>front() or pop() of an empty std::queue\<close>
  | Uninitialised \<comment> \<open>a read of a member that was never assigned\<close>
  | SignedOverflow \<comment> \<open>the result of signed arithmetic outside the range of its type\<close>
  | DivisionByZero

section \<open>Collections\<close>

text \<open>The definitions of the operations of a component, which its case analyses unfold together.\<close>

named_theorems queue_op "the operations of the message queue"
named_theorems pool_op "what a thread of the pool does in one step"

section \<open>Raw memory\<close>

text \<open>
  \<open>memcpy dst off src n\<close> is \<open>memcpy(dst + off, src, n)\<close> on arrays; \<open>None\<close> when either
  range leaves its array. The source range is read before the destination is written: where the two
  overlap, which C leaves undefined, this is what \<open>memmove\<close> would do.
\<close>

definition memcpy :: "'a list \<Rightarrow> nat \<Rightarrow> 'a list \<Rightarrow> nat \<Rightarrow> 'a list option" where
  "memcpy dst off src n =
     (if off + n \<le> length dst \<and> n \<le> length src
      then Some (take off dst @ take n src @ drop (off + n) dst) else None)"

definition array_get :: "'a list \<Rightarrow> nat \<Rightarrow> 'a option" where
  "array_get a i = (if i < length a then Some (a ! i) else None)"

lemma memcpy_Some:
  "off + n \<le> length dst \<Longrightarrow> n \<le> length src \<Longrightarrow>
   memcpy dst off src n = Some (take off dst @ take n src @ drop (off + n) dst)"
  by (simp add: memcpy_def)

lemma memcpy_length: "memcpy dst off src n = Some d \<Longrightarrow> length d = length dst"
  by (auto simp: memcpy_def split: if_splits)

lemma sum_list_bound: "\<forall>x\<in>set xs. f x \<le> (k::nat) \<Longrightarrow> sum_list (map f xs) \<le> length xs * k"
  by (induction xs) auto

lemma sint_small_byte: "n < 128 \<Longrightarrow> sint (word_of_nat n :: byte) = int n"
  by (simp add: sint_uint uint_nat unat_of_nat signed_take_bit_int_eq_self)

lemma unat_incr: "r < s \<Longrightarrow> unat (r + 1 :: u32) = unat r + 1"
proof -
  assume "r < s"
  moreover have "unat s < 2 ^ LENGTH(32)" by (rule unsigned_less)
  ultimately show ?thesis by (simp add: word_less_nat_alt unat_word_ariths)
qed

lemma array_get_Some: "i < length a \<Longrightarrow> array_get a i = Some (a ! i)"
  by (simp add: array_get_def)

section \<open>Invariants of step relations\<close>

text \<open>
  The contract between a step relation and a property of its states: what every step keeps holds
  in every state the steps lead to.
\<close>

locale kept =
  fixes step :: "'s \<Rightarrow> 's \<Rightarrow> bool" and inv :: "'s \<Rightarrow> bool"
  assumes keeps: "step s s' \<Longrightarrow> inv s \<Longrightarrow> inv s'"
begin

lemma always: "step\<^sup>*\<^sup>* s s' \<Longrightarrow> inv s \<Longrightarrow> inv s'"
  by (induction rule: rtranclp_induct) (auto intro: keeps)

lemma iterated: "(\<And>s. step s (f s)) \<Longrightarrow> inv s \<Longrightarrow> inv ((f ^^ n) s)"
  by (induction n) (auto intro: keeps)

end

end
