(* ===== verification/GearTypes.thy ===== *)
theory GearTypes
  imports Prelude
begin

text \<open>
  The data the components exchange: the queue entry
  (\<^verbatim>\<open>src/src/MysqlGearQueueEntry.h\<close>), the message types of the wire protocol and their
  header sizes (\<^verbatim>\<open>src/src/input/inputs/GearInputMessageTypes.h\<close>), and the buffer sizes of
  the client handler (\<^verbatim>\<open>src/src/input/inputs/GearStreamClientHandler.h\<close>).
\<close>

section \<open>Queue entries\<close>

text \<open>A \<open>std::string\<close> that came from the network is a list of bytes.\<close>

record queue_entry =
  query :: "byte list"
  lasterror :: "byte list"
  received :: u64
  processed :: u64
  attempts :: int

definition new_entry :: queue_entry where
  "new_entry = \<lparr>query = [], lasterror = [], received = 0, processed = 0, attempts = 0\<rparr>"

section \<open>Message types\<close>

datatype netmessage = N_CONNECT | N_STATUS | N_CONTROL | N_MYSQLDATA | N_NUMMSG

fun netmessage_val :: "netmessage \<Rightarrow> int" where
  "netmessage_val N_CONNECT = 0"
| "netmessage_val N_STATUS = 1"
| "netmessage_val N_CONTROL = 2"
| "netmessage_val N_MYSQLDATA = 3"
| "netmessage_val N_NUMMSG = 4"

text \<open>The values of the enumeration order it, as the comparisons of the code use them.\<close>

instantiation netmessage :: linorder
begin

definition less_eq_netmessage :: "netmessage \<Rightarrow> netmessage \<Rightarrow> bool" where
  "m \<le> m' \<longleftrightarrow> netmessage_val m \<le> netmessage_val m'"

definition less_netmessage :: "netmessage \<Rightarrow> netmessage \<Rightarrow> bool" where
  "m < m' \<longleftrightarrow> netmessage_val m < netmessage_val m'"

instance
proof
  fix m m' :: netmessage
  show "m \<le> m' \<Longrightarrow> m' \<le> m \<Longrightarrow> m = m'"
    by (cases m; cases m') (simp_all add: less_eq_netmessage_def)
qed (auto simp: less_eq_netmessage_def less_netmessage_def)

end

text \<open>The types below the bound that the handler tests are those of the four messages.\<close>

lemma type_below_bound:
  "0 \<le> t \<and> t < netmessage_val N_NUMMSG \<longleftrightarrow> (\<exists>m<N_NUMMSG. t = netmessage_val m)"
proof
  assume "0 \<le> t \<and> t < netmessage_val N_NUMMSG"
  then consider "t = 0" | "t = 1" | "t = 2" | "t = 3" by fastforce
  then show "\<exists>m<N_NUMMSG. t = netmessage_val m"
  proof cases
    case 1 then show ?thesis by (intro exI [of _ N_CONNECT]) (simp add: less_netmessage_def)
  next
    case 2 then show ?thesis by (intro exI [of _ N_STATUS]) (simp add: less_netmessage_def)
  next
    case 3 then show ?thesis by (intro exI [of _ N_CONTROL]) (simp add: less_netmessage_def)
  next
    case 4 then show ?thesis by (intro exI [of _ N_MYSQLDATA]) (simp add: less_netmessage_def)
  qed
next
  assume "\<exists>m<N_NUMMSG. t = netmessage_val m"
  then obtain m where "m < N_NUMMSG" "t = netmessage_val m" by blast
  then show "0 \<le> t \<and> t < netmessage_val N_NUMMSG"
    by (cases m) (simp_all add: less_netmessage_def)
qed

definition netmessages_header_size :: "nat list" where
  "netmessages_header_size = [10, 4, 4, 4, 0]"

text \<open>
  \<open>netmessages_header_size[message_type_]\<close>, where \<open>message_type_\<close> is an \<open>int8_t\<close>: a
  negative subscript is outside the table.
\<close>

definition header_size_at :: "int \<Rightarrow> nat option" where
  "header_size_at t = (if 0 \<le> t then array_get netmessages_header_size (nat t) else None)"

lemma header_size_at_simps:
  "header_size_at 0 = Some 10" "header_size_at 1 = Some 4"
  "header_size_at 2 = Some 4" "header_size_at 3 = Some 4"
  "t < 0 \<Longrightarrow> header_size_at t = None"
  by (simp_all add: header_size_at_def netmessages_header_size_def array_get_def numeral_eq_Suc)

section \<open>Buffer sizes\<close>

definition MAXHEADERSIZE :: nat where "MAXHEADERSIZE = 10"

definition BUFSIZE :: nat where "BUFSIZE = 2048"

definition DATABUFSIZE :: nat where "DATABUFSIZE = 4096"

lemmas buffer_sizes = MAXHEADERSIZE_def BUFSIZE_def DATABUFSIZE_def

text \<open>The global \<open>int8_t PROTO_VERSION\<close> of \<^verbatim>\<open>main.cpp\<close>.\<close>

definition PROTO_VERSION :: int where "PROTO_VERSION = 1"

lemma header_size_cases:
  assumes "header_size_at t = Some n"
  shows "0 \<le> t \<and> t \<le> 4 \<and> n \<le> MAXHEADERSIZE"
proof -
  have "nat t < 5 \<and> 0 \<le> t \<and> netmessages_header_size ! nat t = n"
    using assms by (auto simp: header_size_at_def array_get_def netmessages_header_size_def
        split: if_splits)
  moreover then have "nat t = 0 \<or> nat t = 1 \<or> nat t = 2 \<or> nat t = 3 \<or> nat t = 4" by arith
  ultimately show ?thesis
    by (auto simp: netmessages_header_size_def MAXHEADERSIZE_def numeral_eq_Suc)
qed

end
