(* ===== verification/StatusReply.thy ===== *)
theory StatusReply
  imports Prelude
begin

text \<open>
  The answer to an \<open>N_STATUS\<close> request, built by the \<open>case N_STATUS\<close> of
  \<open>GearStreamClientHandler::main\<close>
  (\<^verbatim>\<open>src/src/input/inputs/GearStreamClientHandler.cpp\<close>): eleven decimal numbers
  separated by semicolons, behind one byte that holds the length of the text.

  The numbers are a snapshot that other threads may change at any time; \<open>status_env\<close> is what
  the handler reads. A field is \<open>None\<close> when the pointer to its component is null.
\<close>

section \<open>Decimal output of a std::ostream\<close>

fun dec_nat :: "nat \<Rightarrow> byte list" where
  "dec_nat n = (if n < 10 then [word_of_nat (48 + n)]
                else dec_nat (n div 10) @ [word_of_nat (48 + n mod 10)])"

declare dec_nat.simps [simp del]

definition dec_int :: "int \<Rightarrow> byte list" where
  "dec_int i = (if i < 0 then 45 # dec_nat (nat (- i)) else dec_nat (nat i))"

section \<open>The snapshot and the text\<close>

record pool_stats =
  ps_thread_count :: u64
  ps_tasks_running :: u64
  ps_tasks_queued :: u64
  ps_tasks_total :: u64

record status_env =
  se_queue_size :: "u64 option"
  se_db :: "(i32 \<times> i32) option" \<comment> \<open>maximal and active database connections\<close>
  se_client_pool :: "pool_stats option"
  se_db_pool :: "pool_stats option"

definition semi :: byte where "semi = 59"

definition zero_char :: byte where "zero_char = 48"

definition one_char :: byte where "one_char = 49"

definition u64_text :: "u64 \<Rightarrow> byte list" where
  "u64_text w = dec_int (uint w)"

definition i32_text :: "i32 \<Rightarrow> byte list" where
  "i32_text w = dec_int (sint w)"

definition status_body :: "status_env \<Rightarrow> byte list" where
  "status_body e =
     (case se_queue_size e of
        Some n \<Rightarrow> u64_text n @ [semi]
      | None \<Rightarrow> dec_int 0 @ [semi]) @
     (case se_db e of
        Some (m, a) \<Rightarrow> i32_text m @ [semi] @ i32_text a @ [semi]
      | None \<Rightarrow> [zero_char, semi, zero_char, semi]) @
     (case se_client_pool e of
        Some p \<Rightarrow> u64_text (ps_thread_count p) @ [semi] @
                   u64_text (ps_tasks_running p) @ [semi] @
                   u64_text (ps_tasks_queued p) @ [semi] @
                   u64_text (ps_tasks_total p) @ [semi]
      | None \<Rightarrow> [zero_char, semi, zero_char, semi, zero_char, semi, zero_char, semi]) @
     (case se_db_pool e of
        Some p \<Rightarrow> u64_text (ps_thread_count p) @ [semi] @
                   u64_text (ps_tasks_running p) @ [semi] @
                   u64_text (ps_tasks_queued p) @ [semi] @
                   u64_text (ps_tasks_total p)
      | None \<Rightarrow> [zero_char, semi, zero_char, semi, zero_char, semi, zero_char])"

text \<open>
  \<open>char statusVarsLength = sendDataStream.str().length()\<close> keeps the low eight bits.
\<close>

definition status_reply :: "status_env \<Rightarrow> byte list" where
  "status_reply e = word_of_nat (length (status_body e)) # status_body e"

section \<open>What the text means\<close>

text \<open>The eleven numbers, in the order of the README's N_STATUS section.\<close>

definition pool_values :: "pool_stats option \<Rightarrow> int list" where
  "pool_values p = (case p of
      Some p \<Rightarrow> [uint (ps_thread_count p), uint (ps_tasks_running p),
                  uint (ps_tasks_queued p), uint (ps_tasks_total p)]
    | None \<Rightarrow> [0, 0, 0, 0])"

definition status_values :: "status_env \<Rightarrow> int list" where
  "status_values e =
     [case se_queue_size e of Some n \<Rightarrow> uint n | None \<Rightarrow> 0] @
     (case se_db e of Some (m, a) \<Rightarrow> [sint m, sint a] | None \<Rightarrow> [0, 0]) @
     pool_values (se_client_pool e) @ pool_values (se_db_pool e)"

text \<open>A reader of the text: split at the semicolons, read each decimal number.\<close>

fun join_semi :: "byte list list \<Rightarrow> byte list" where
  "join_semi [] = []"
| "join_semi [x] = x"
| "join_semi (x # xs) = x @ semi # join_semi xs"

fun fields :: "byte list \<Rightarrow> byte list list" where
  "fields [] = [[]]"
| "fields (b # bs) =
     (if b = semi then [] # fields bs
      else case fields bs of [] \<Rightarrow> [[b]] | f # fs \<Rightarrow> (b # f) # fs)"

definition read_digits :: "byte list \<Rightarrow> nat" where
  "read_digits bs = foldl (\<lambda>n b. 10 * n + (unat b - 48)) 0 bs"

fun read_int :: "byte list \<Rightarrow> int" where
  "read_int [] = 0"
| "read_int (b # bs) = (if b = 45 then - int (read_digits bs) else int (read_digits (b # bs)))"

section \<open>Decimal numbers\<close>

lemma digit_byte:
  assumes "n < 10"
  shows "unat (word_of_nat (48 + n) :: byte) = 48 + n"
  using assms by (simp add: unat_of_nat del: of_nat_add of_nat_numeral)

lemma read_digits_snoc: "read_digits (bs @ [b]) = 10 * read_digits bs + (unat b - 48)"
  by (simp add: read_digits_def)

lemma read_digits_dec_nat: "read_digits (dec_nat n) = n"
proof (induction n rule: dec_nat.induct)
  case (1 n)
  show ?case
  proof (cases "n < 10")
    case True
    then show ?thesis
      by (subst dec_nat.simps) (simp add: read_digits_def digit_byte del: of_nat_add of_nat_numeral)
  next
    case False
    have "unat (word_of_nat (48 + n mod 10) :: byte) = 48 + n mod 10"
      by (rule digit_byte) simp
    with False 1 show ?thesis
      by (subst dec_nat.simps)
        (simp add: read_digits_snoc del: of_nat_add of_nat_numeral)
  qed
qed

definition is_digit :: "byte \<Rightarrow> bool" where
  "is_digit b \<longleftrightarrow> 48 \<le> unat b \<and> unat b < 58"

lemma is_digit_digit: "n < 10 \<Longrightarrow> is_digit (word_of_nat (48 + n))"
  using digit_byte [of n] by (simp add: is_digit_def del: of_nat_add of_nat_numeral)

lemma dec_nat_digits: "list_all is_digit (dec_nat n)"
proof (induction n rule: dec_nat.induct)
  case (1 n)
  then show ?case
    by (subst dec_nat.simps) (simp add: is_digit_digit del: of_nat_add of_nat_numeral)
qed

lemma dec_nat_nonempty: "dec_nat n \<noteq> []"
  by (subst dec_nat.simps) simp

lemma length_dec_nat: "n < 10 ^ k \<Longrightarrow> 0 < k \<Longrightarrow> length (dec_nat n) \<le> k"
proof (induction n arbitrary: k rule: dec_nat.induct)
  case (1 n)
  show ?case
  proof (cases "n < 10")
    case True
    with "1.prems" show ?thesis by (subst dec_nat.simps) simp
  next
    case False
    with "1.prems" obtain j where k: "k = Suc j" "0 < j"
      by (cases k; cases "k = 1") auto
    with "1.prems" have "n div 10 < 10 ^ j" by auto
    with False k "1.IH" have "length (dec_nat (n div 10)) \<le> j" by blast
    with False k show ?thesis by (subst dec_nat.simps) simp
  qed
qed

lemma not_digit_45: "\<not> is_digit 45" and not_digit_semi: "\<not> is_digit semi"
  by (simp_all add: is_digit_def semi_def)

lemma read_int_dec_int: "read_int (dec_int i) = i"
proof (cases "i < 0")
  case True
  then show ?thesis by (simp add: dec_int_def read_digits_dec_nat)
next
  case False
  obtain b bs where d: "dec_nat (nat i) = b # bs"
    using dec_nat_nonempty by (cases "dec_nat (nat i)") auto
  then have "is_digit b" using dec_nat_digits [of "nat i"] by simp
  then have "b \<noteq> 45" using not_digit_45 by auto
  moreover have "int (read_digits (b # bs)) = i"
    using False read_digits_dec_nat [of "nat i"] d by simp
  ultimately show ?thesis using False d by (simp add: dec_int_def)
qed

lemma dec_int_no_semi: "semi \<notin> set (dec_int i)"
proof -
  have "semi \<notin> set (dec_nat n)" for n
    using dec_nat_digits [of n] not_digit_semi by (auto simp: list_all_iff)
  then show ?thesis by (simp add: dec_int_def) (simp add: semi_def)
qed

lemma length_dec_int: "\<bar>i\<bar> < 10 ^ k \<Longrightarrow> 0 < k \<Longrightarrow> length (dec_int i) \<le> Suc k"
  using length_dec_nat [of "nat \<bar>i\<bar>" k] by (auto simp: dec_int_def nat_less_iff)

lemma length_dec_int_nonneg: "0 \<le> i \<Longrightarrow> i < 10 ^ k \<Longrightarrow> 0 < k \<Longrightarrow> length (dec_int i) \<le> k"
  using length_dec_nat [of "nat i" k] by (auto simp: dec_int_def nat_less_iff)

section \<open>Fields\<close>

lemma fields_no_semi: "semi \<notin> set x \<Longrightarrow> fields x = [x]"
  by (induction x) auto

lemma fields_append: "semi \<notin> set x \<Longrightarrow> fields (x @ semi # ys) = x # fields ys"
  by (induction x) auto

lemma fields_join:
  "xs \<noteq> [] \<Longrightarrow> (\<forall>x\<in>set xs. semi \<notin> set x) \<Longrightarrow> fields (join_semi xs) = xs"
  by (induction xs rule: join_semi.induct) (simp_all add: fields_no_semi fields_append)

lemma length_join_semi:
  "xs \<noteq> [] \<Longrightarrow> length (join_semi xs) = sum_list (map length xs) + length xs - 1"
  by (induction xs rule: join_semi.induct) auto

section \<open>The reply\<close>

lemma dec_int_0: "dec_int 0 = [zero_char]"
  by (simp add: dec_int_def dec_nat.simps [of 0] zero_char_def)

lemma status_body_join: "status_body e = join_semi (map dec_int (status_values e))"
  by (simp add: status_body_def status_values_def pool_values_def u64_text_def i32_text_def
      dec_int_0 split: option.splits)

lemma length_status_values: "length (status_values e) = 11"
  by (simp add: status_values_def pool_values_def split: option.splits)

lemma status_values_nonempty: "status_values e \<noteq> []"
  using length_status_values [of e] by auto

lemma status_body_fields: "map read_int (fields (status_body e)) = status_values e"
proof -
  have "fields (status_body e) = map dec_int (status_values e)"
    unfolding status_body_join
    by (rule fields_join) (simp_all add: status_values_nonempty dec_int_no_semi)
  then show ?thesis by (simp add: read_int_dec_int o_def)
qed

lemma length_status_body:
  assumes "\<forall>v\<in>set (status_values e). length (dec_int v) \<le> k"
  shows "length (status_body e) \<le> 11 * k + 10"
proof -
  have "sum_list (map length (map dec_int (status_values e))) \<le> length (status_values e) * k"
    using sum_list_bound [of "status_values e" "\<lambda>v. length (dec_int v)"] assms by (simp add: o_def)
  then show ?thesis
    unfolding status_body_join
    by (subst length_join_semi) (simp_all add: status_values_nonempty length_status_values)
qed

section \<open>Properties\<close>

text \<open>
  C34: whatever the snapshot, the text behind the length byte of a status reply splits at the
  semicolons into exactly eleven decimal numbers, which read back as the values of the
  snapshot in the documented order (signed for the two connection counts).
\<close>

theorem status_reply_fields:
  "map read_int (fields (tl (status_reply e))) = status_values e"
  by (simp add: status_reply_def status_body_fields)

text \<open>
  As long as every counter has at most ten digits, the first byte of a status reply, read
  as the signed byte the protocol documents (and the client unpacks), is the length of the
  text that follows.
\<close>

lemma status_reply_length_byte:
  assumes "\<forall>v\<in>set (status_values e). 0 \<le> v \<and> v < 10 ^ 10"
  shows "sint (hd (status_reply e)) = int (length (tl (status_reply e)))"
proof -
  have "\<forall>v\<in>set (status_values e). length (dec_int v) \<le> 10"
    using assms by (auto intro!: length_dec_int_nonneg)
  from length_status_body [OF this] have "length (status_body e) \<le> 120" by simp
  then show ?thesis
    by (simp add: status_reply_def sint_small_byte)
qed

definition sample_pool_stats :: pool_stats where
  "sample_pool_stats = \<lparr>ps_thread_count = 20, ps_tasks_running = 1, ps_tasks_queued = 0,
                  ps_tasks_total = 1\<rparr>"

definition sample_status :: status_env where
  "sample_status = \<lparr>se_queue_size = Some 3, se_db = Some (50, 6),
     se_client_pool = Some sample_pool_stats, se_db_pool = None\<rparr>"

lemma sample_status_values: "status_values sample_status = [3, 50, 6, 20, 1, 0, 1, 0, 0, 0, 0]"
  by (simp add: status_values_def sample_status_def sample_pool_stats_def pool_values_def)

definition wrapped_pool :: pool_stats where
  "wrapped_pool = \<lparr>ps_thread_count = 51, ps_tasks_running = - 1, ps_tasks_queued = - 1,
                   ps_tasks_total = - 1\<rparr>"

definition wrapped_status :: status_env where
  "wrapped_status = \<lparr>se_queue_size = Some (- 1), se_db = Some (50, 50),
     se_client_pool = Some wrapped_pool, se_db_pool = Some wrapped_pool\<rparr>"

lemma wrapped_status_length: "length (status_body wrapped_status) = 158"
proof -
  have "length (dec_int 18446744073709551615) = 20" "length (dec_int 51) = 2"
    "length (dec_int 50) = 2"
    by (simp_all add: dec_int_def dec_nat.simps)
  moreover have "status_values wrapped_status =
    [18446744073709551615, 50, 50,
     51, 18446744073709551615, 18446744073709551615, 18446744073709551615,
     51, 18446744073709551615, 18446744073709551615, 18446744073709551615]"
    by (simp add: status_values_def wrapped_status_def wrapped_pool_def pool_values_def
        uint_word_ariths)
  ultimately show ?thesis
    by (simp add: status_body_join)
qed

text \<open>
  The length byte does overflow. When counters have the twenty digits of a wrapped
  64-bit counter, the byte read as signed is negative, so it is not the length of the text.
\<close>

theorem status_reply_length_byte_overflow:
  "\<exists>e. length (tl (status_reply e)) < 256 \<and> sint (hd (status_reply e)) < 0"
proof (intro exI conjI)
  show "length (tl (status_reply wrapped_status)) < 256"
    by (simp add: status_reply_def wrapped_status_length)
  show "sint (hd (status_reply wrapped_status)) < 0"
    by (simp add: status_reply_def wrapped_status_length)
qed

end
