(* ===== verification/LockedQueue.thy ===== *)
theory LockedQueue
  imports Prelude
begin

text \<open>
  \<^verbatim>\<open>src/src/utils/lockedqueue/LockedQueue.h\<close>: the queue through which the network side
  hands queries to the database side. Every member function holds \<open>mutex\<close> from its first
  statement to its return, so each one is a single step on the \<open>std::queue\<close> behind it; an
  interleaving of threads is a sequence of these steps.

  The interface is the locale \<open>fifo\<close>: the operations a client calls and the laws it may
  rely on. \<open>lq\<close> is its interpretation on the model of the code.
\<close>

section \<open>The operations\<close>

record 'a locked_queue =
  queue :: "'a list" \<comment> \<open>front first\<close>

definition lq_new :: "'a locked_queue" where
  "lq_new = \<lparr>queue = []\<rparr>"

definition lq_push :: "'a \<Rightarrow> 'a locked_queue \<Rightarrow> 'a locked_queue" where
  "lq_push v q = q\<lparr>queue := queue q @ [v]\<rparr>"

text \<open>
  \<open>pop\<close> swaps a default constructed value with \<open>queue.front()\<close> and removes the front. The
  emptiness test is commented out in the source, so an empty queue is undefined behaviour.
\<close>

definition lq_pop :: "'a locked_queue \<Rightarrow> ub + ('a \<times> 'a locked_queue)" where
  "lq_pop q = (case queue q of [] \<Rightarrow> Inl PopEmpty | x # xs \<Rightarrow> Inr (x, q\<lparr>queue := xs\<rparr>))"

definition lq_empty :: "'a locked_queue \<Rightarrow> bool" where
  "lq_empty q = (case queue q of [] \<Rightarrow> True | _ \<Rightarrow> False)"

definition lq_size :: "'a locked_queue \<Rightarrow> nat" where
  "lq_size q = length (queue q)"

text \<open>\<open>clear\<close> pops until the queue is empty.\<close>

function lq_clear :: "'a locked_queue \<Rightarrow> 'a locked_queue" where
  "lq_clear q =
     (if lq_empty q then q
      else (case lq_pop q of Inl _ \<Rightarrow> q | Inr (_, q') \<Rightarrow> lq_clear q'))"
  by pat_completeness auto
termination
  by (relation "measure (\<lambda>q. length (queue q))")
    (auto simp: lq_pop_def split: list.splits)

declare lq_clear.simps [simp del]
declare lq_push_def [queue_op] lq_pop_def [queue_op] lq_empty_def [queue_op] lq_size_def [queue_op]

text \<open>\<open>pops pop n q\<close>: the values that \<open>n\<close> calls of \<open>pop\<close> return, and the queue they leave.\<close>

primrec pops :: "('q \<Rightarrow> ub + ('a \<times> 'q)) \<Rightarrow> nat \<Rightarrow> 'q \<Rightarrow> ub + ('a list \<times> 'q)" where
  "pops pop 0 q = Inr ([], q)"
| "pops pop (Suc n) q =
     (case pop q of
        Inl e \<Rightarrow> Inl e
      | Inr (x, q') \<Rightarrow>
          (case pops pop n q' of Inl e \<Rightarrow> Inl e | Inr (xs, q'') \<Rightarrow> Inr (x # xs, q'')))"

text \<open>
  Threads that share the queue: an interleaving is a sequence of steps. \<open>steps push pop\<close> gives
  the values the pops returned, in order.
\<close>

datatype 'a step = Push 'a | Pop

fun steps :: "('a \<Rightarrow> 'q \<Rightarrow> 'q) \<Rightarrow> ('q \<Rightarrow> ub + ('a \<times> 'q)) \<Rightarrow> 'a step list \<Rightarrow> 'q \<Rightarrow>
   ub + ('a list \<times> 'q)" where
  "steps push pop [] q = Inr ([], q)"
| "steps push pop (Push v # ss) q = steps push pop ss (push v q)"
| "steps push pop (Pop # ss) q =
     (case pop q of
        Inl e \<Rightarrow> Inl e
      | Inr (x, q') \<Rightarrow>
          (case steps push pop ss q' of Inl e \<Rightarrow> Inl e | Inr (xs, q'') \<Rightarrow> Inr (x # xs, q'')))"

fun pushed_values :: "'a step list \<Rightarrow> 'a list" where
  "pushed_values [] = []"
| "pushed_values (Push v # ss) = v # pushed_values ss"
| "pushed_values (Pop # ss) = pushed_values ss"

text \<open>No pop of the sequence finds the queue empty when it starts with \<open>n\<close> values.\<close>

fun enough :: "nat \<Rightarrow> 'a step list \<Rightarrow> bool" where
  "enough n [] \<longleftrightarrow> True"
| "enough n (Push v # ss) \<longleftrightarrow> enough (n + 1) ss"
| "enough n (Pop # ss) \<longleftrightarrow> 0 < n \<and> enough (n - 1) ss"

section \<open>The interface\<close>

locale fifo =
  fixes push :: "'a \<Rightarrow> 'q \<Rightarrow> 'q"
    and pop :: "'q \<Rightarrow> ub + ('a \<times> 'q)"
    and is_empty :: "'q \<Rightarrow> bool"
    and size_of :: "'q \<Rightarrow> nat"
    and content :: "'q \<Rightarrow> 'a list"
  assumes content_push: "content (push v q) = content q @ [v]"
    and pop_front: "content q = x # xs \<Longrightarrow> \<exists>q'. pop q = Inr (x, q') \<and> content q' = xs"
    and pop_none: "content q = [] \<Longrightarrow> pop q = Inl PopEmpty"
    and empty_iff: "is_empty q \<longleftrightarrow> content q = []"
    and size_content: "size_of q = length (content q)"
begin

lemma content_fold_push: "content (fold push vs q) = content q @ vs"
  by (induction vs arbitrary: q) (simp_all add: content_push)

lemma size_fold_push: "size_of (fold push vs q) = size_of q + length vs"
  by (simp add: size_content content_fold_push)

lemma pop_Inr: "pop q = Inr (x, q') \<Longrightarrow> content q = x # content q'"
  by (cases "content q") (auto dest: pop_none pop_front)

lemma pop_defined: "(\<exists>x q'. pop q = Inr (x, q')) \<longleftrightarrow> \<not> is_empty q"
  by (cases "content q") (auto simp: empty_iff pop_none dest: pop_front)

text \<open>
  The consumer tests \<open>empty()\<close> and calls \<open>pop()\<close> in two separate steps. Other threads
  that only push in between cannot make the pop undefined, nor change what it returns.
\<close>

lemma pop_after_empty_check:
  assumes "\<not> is_empty q"
  shows "\<exists>x q' q''. pop q = Inr (x, q') \<and> pop (fold push vs q) = Inr (x, q'')
           \<and> content q'' = content q' @ vs"
proof -
  from assms obtain x xs where q: "content q = x # xs"
    by (cases "content q") (auto simp: empty_iff)
  then have "content (fold push vs q) = x # (xs @ vs)"
    by (simp add: content_fold_push)
  with q show ?thesis by (blast dest: pop_front)
qed

lemma pops_content:
  "n \<le> size_of q \<Longrightarrow>
   \<exists>q'. pops pop n q = Inr (take n (content q), q') \<and> content q' = drop n (content q)"
proof (induction n arbitrary: q)
  case 0
  show ?case by simp
next
  case (Suc n)
  then obtain x xs where q: "content q = x # xs"
    by (cases "content q") (auto simp: size_content)
  then obtain q1 where q1: "pop q = Inr (x, q1)" "content q1 = xs"
    by (blast dest: pop_front)
  with Suc.prems q have "n \<le> size_of q1" by (simp add: size_content)
  from Suc.IH [OF this] q q1 show ?case by auto
qed

lemma steps_fifo:
  "case steps push pop ss q of
     Inl e \<Rightarrow> e = PopEmpty \<and> \<not> enough (size_of q) ss
   | Inr (xs, q') \<Rightarrow> enough (size_of q) ss \<and> xs @ content q' = content q @ pushed_values ss"
proof (induction ss arbitrary: q)
  case Nil
  show ?case by simp
next
  case (Cons s ss)
  show ?case
  proof (cases s)
    case (Push v)
    with Cons.IH [of "push v q"] show ?thesis
      by (simp add: content_push size_content split: sum.splits prod.splits)
  next
    case Pop
    show ?thesis
    proof (cases "content q")
      case Nil
      with Pop show ?thesis by (simp add: pop_none size_content)
    next
      case c: (Cons x xs)
      then obtain q1 where "pop q = Inr (x, q1)" "content q1 = xs" by (blast dest: pop_front)
      with Pop c Cons.IH [of q1] show ?thesis
        by (auto simp: size_content split: sum.splits prod.splits)
    qed
  qed
qed

text \<open>What was pushed comes out once, in the order it was pushed.\<close>

lemma fifo_order:
  assumes "is_empty q"
  shows "\<exists>q'. pops pop (length vs) (fold push vs q) = Inr (vs, q') \<and> is_empty q'"
proof -
  have c: "content (fold push vs q) = vs"
    using assms by (simp add: content_fold_push empty_iff)
  then have "length vs \<le> size_of (fold push vs q)" by (simp add: size_content)
  from pops_content [OF this] c show ?thesis by (simp add: empty_iff)
qed

end

interpretation lq: fifo lq_push lq_pop lq_empty lq_size queue
  by unfold_locales
    (auto simp: queue_op split: list.splits)

section \<open>Facts of the model\<close>

lemma lq_clear_empty: "queue (lq_clear q) = []"
proof (induction q rule: lq_clear.induct)
  case (1 q)
  then show ?case
    by (auto simp: lq_clear.simps [of q] lq_empty_def lq_pop_def split: list.splits)
qed

lemma lq_new_empty: "lq_empty lq_new"
  by (simp add: lq_new_def lq.empty_iff)

text \<open>
  C33: whatever the interleaving of pushes and pops on the queue, it is first in, first out: the
  values popped, in order, followed by what the queue still holds are what it held at first
  followed by the values pushed, in order. A pop is undefined exactly when there are
  more pops than values at some point.
\<close>

theorem queue_fifo:
  "case steps lq_push lq_pop ss q of
     Inl e \<Rightarrow> e = PopEmpty \<and> \<not> enough (lq_size q) ss
   | Inr (xs, q') \<Rightarrow> enough (lq_size q) ss \<and> xs @ queue q' = queue q @ pushed_values ss"
  by (rule lq.steps_fifo)

end
