(* ===== verification/ClientHandler.thy ===== *)
theory ClientHandler
  imports GearTypes StatusReply LockedQueue
begin

text \<open>
  \<open>GearStreamClientHandler\<close>
  (\<^verbatim>\<open>src/src/input/inputs/GearStreamClientHandler.cpp\<close>): the task that serves one client
  connection. \<open>conn\<close> holds the local variables of \<open>main\<close>; each branch of the loop body is
  one definition; the inner \<open>while\<close> and the receive loop are partial functions whose value is
  \<open>None\<close> exactly when the C++ loop never ends, because some messages do make it spin.

  What the handler does to the rest of the program is its \<open>trace\<close>: replies it sends, entries
  it pushes on the shared queue, log lines, the final close. What it reads from the rest of the
  program (the clock and the status counters, which other threads change) is the environment
  \<open>env\<close>, indexed by the number of events so far.
\<close>

section \<open>Events and state\<close>

datatype event =
    Reply "byte list" \<comment> \<open>a call of sendData with these bytes\<close>
  | Pushed queue_entry \<comment> \<open>pQueue->push\<close>
  | UnknownType int \<comment> \<open>the LOG_ALERT line for an unknown message type\<close>
  | Closed \<comment> \<open>close(pSocketFD)\<close>

record env =
  clock :: "nat \<Rightarrow> u64"
  status :: "nat \<Rightarrow> status_env"

record conn =
  leftoversize :: nat
  data :: "byte list"
  pos :: nat
  has_message_type :: bool
  has_message_header :: bool
  has_message_proto :: bool
  message_type :: int
  message_proto :: int
  payload_data :: "byte list"
  payload_data_size :: u32
  payload_data_read :: u32
  answered :: bool
  stop :: bool
  trace :: "event list"

definition init_conn :: conn where
  "init_conn =
     \<lparr>leftoversize = 0, data = replicate DATABUFSIZE 0, pos = 0,
      has_message_type = False, has_message_header = False, has_message_proto = False,
      message_type = 15, message_proto = 0,
      payload_data = [], payload_data_size = 0, payload_data_read = 0,
      answered = False, stop = False, trace = []\<rparr>"

section \<open>Replies and queue entries\<close>

text \<open>
  \<open>sendData\<close>: the pending socket error (\<open>SO_ERROR\<close>) decides whether \<open>::send\<close> is called at all;
  the result says whether it sent anything. Second component: the calls of \<open>::send\<close>. The
  handler ignores the result, so a reply is recorded as the call.
\<close>

definition sendData :: "int \<Rightarrow> (byte list \<Rightarrow> int) \<Rightarrow> byte list \<Rightarrow> bool \<times> byte list list" where
  "sendData so_error send message =
     (if so_error = 0 then (0 < send message, [message]) else (False, []))"

definition send_reply :: "byte list \<Rightarrow> conn \<Rightarrow> conn" where
  "send_reply bs s = s\<lparr>trace := trace s @ [Reply bs]\<rparr>"

definition entry_of :: "u64 \<Rightarrow> byte list \<Rightarrow> queue_entry" where
  "entry_of now q = new_entry\<lparr>query := q, received := now\<rparr>"

definition addMessage ::
  "u64 \<Rightarrow> byte list \<Rightarrow> queue_entry locked_queue \<Rightarrow> queue_entry locked_queue" where
  "addMessage now q pQueue = lq_push (entry_of now q) pQueue"

definition push_query :: "env \<Rightarrow> conn \<Rightarrow> conn" where
  "push_query e s =
     s\<lparr>trace := trace s @ [Pushed (entry_of (clock e (length (trace s))) (payload_data s))]\<rparr>"

section \<open>The branches of the loop body\<close>

datatype ctl = Next | Break

definition read_proto :: "conn \<Rightarrow> ub + (ctl \<times> conn)" where
  "read_proto s =
     (case array_get (data s) (pos s) of
        None \<Rightarrow> Inl OutOfBounds
      | Some b \<Rightarrow>
          (let s = s\<lparr>message_proto := sint b, pos := pos s + 1\<rparr>
           in if message_proto s < 1 \<or> PROTO_VERSION < message_proto s
              then Inr (Break, (send_reply [zero_char] s)\<lparr>answered := True, stop := True\<rparr>)
              else Inr (Next, send_reply [one_char] (s\<lparr>has_message_proto := True\<rparr>))))"

definition read_type :: "conn \<Rightarrow> ub + (ctl \<times> conn)" where
  "read_type s =
     (case array_get (data s) (pos s) of
        None \<Rightarrow> Inl OutOfBounds
      | Some b \<Rightarrow>
          (let s = s\<lparr>message_type := sint b\<rparr>;
               s = (if message_type s < netmessage_val N_NUMMSG
                    then s\<lparr>has_message_type := True\<rparr>
                    else s\<lparr>trace := trace s @ [UnknownType (message_type s)]\<rparr>)
           in Inr (Next, s\<lparr>pos := pos s + 1\<rparr>)))"

text \<open>
  The size field: four bytes, least significant first, combined with \<open>|\<close> and \<open><<\<close>.
\<close>

definition le32 :: "byte \<Rightarrow> byte \<Rightarrow> byte \<Rightarrow> byte \<Rightarrow> u32" where
  "le32 b0 b1 b2 b3 =
     (ucast b0 OR push_bit 8 (ucast b1) OR push_bit 16 (ucast b2) OR push_bit 24 (ucast b3))"

text \<open>
  The header is copied only if it lies inside \<open>data\<close>; \<open>header_message\<close> has been zeroed.
\<close>

definition header_message :: "nat \<Rightarrow> conn \<Rightarrow> byte list option" where
  "header_message header_len s =
     (if header_len + pos s \<le> DATABUFSIZE
      then memcpy (replicate MAXHEADERSIZE 0) 0 (drop (pos s) (data s)) header_len
      else Some (replicate MAXHEADERSIZE 0))"

definition read_header :: "nat \<Rightarrow> conn \<Rightarrow> ub + (ctl \<times> conn)" where
  "read_header numbytes s =
     (case header_size_at (message_type s) of
        None \<Rightarrow> Inl HeaderSizeIndex
      | Some header_len \<Rightarrow>
          if header_len + pos s \<le> numbytes then
            (case header_message header_len s of
               None \<Rightarrow> Inl OutOfBounds
             | Some h \<Rightarrow>
                 Inr (Next, s\<lparr>has_message_header := True,
                   payload_data_size :=
                     (if 4 \<le> header_len then le32 (h ! 0) (h ! 1) (h ! 2) (h ! 3) else 0),
                   payload_data_read := 0,
                   pos := pos s + header_len\<rparr>))
          else Inr (Break, s))"

definition reset_message :: "conn \<Rightarrow> conn" where
  "reset_message s =
     s\<lparr>answered := True, has_message_type := False, has_message_header := False,
       payload_data := [], payload_data_read := 0, payload_data_size := 0\<rparr>"

definition do_status :: "env \<Rightarrow> conn \<Rightarrow> conn" where
  "do_status e s =
     reset_message (send_reply (status_reply (status e (length (trace s)))) s)"

function copy_payload :: "nat \<Rightarrow> conn \<Rightarrow> ub + conn" where
  "copy_payload numbytes s =
     (if pos s < numbytes \<and> payload_data_read s < payload_data_size s then
        (case array_get (data s) (pos s) of
           None \<Rightarrow> Inl OutOfBounds
         | Some b \<Rightarrow>
             copy_payload numbytes
               (s\<lparr>payload_data := payload_data s @ [b], pos := pos s + 1,
                  payload_data_read := payload_data_read s + 1\<rparr>))
      else Inr s)"
  by pat_completeness auto
termination
  by (relation "measure (\<lambda>(n, s). n - pos s)") auto

declare copy_payload.simps [simp del]

definition do_mysqldata :: "env \<Rightarrow> nat \<Rightarrow> conn \<Rightarrow> ub + conn" where
  "do_mysqldata e numbytes s =
     (case (if payload_data_read s < payload_data_size s then copy_payload numbytes s else Inr s) of
        Inl u \<Rightarrow> Inl u
      | Inr s \<Rightarrow>
          if payload_data_read s = payload_data_size s
          then Inr (reset_message (send_reply [one_char] (push_query e s)))
          else Inr s)"

text \<open>The \<open>switch\<close>: \<open>N_CONNECT\<close>, \<open>N_CONTROL\<close> and every other value do nothing.\<close>

definition dispatch :: "env \<Rightarrow> nat \<Rightarrow> conn \<Rightarrow> ub + conn" where
  "dispatch e numbytes s =
     (if message_type s = netmessage_val N_STATUS then Inr (do_status e s)
      else if message_type s = netmessage_val N_MYSQLDATA then do_mysqldata e numbytes s
      else Inr s)"

definition loop_body :: "env \<Rightarrow> nat \<Rightarrow> conn \<Rightarrow> ub + (ctl \<times> conn)" where
  "loop_body e numbytes s =
     (if \<not> has_message_proto s then read_proto s
      else if \<not> has_message_type s then read_type s
      else
        (case (if \<not> has_message_header s then read_header numbytes s else Inr (Next, s)) of
           Inl u \<Rightarrow> Inl u
         | Inr (Break, s) \<Rightarrow> Inr (Break, s)
         | Inr (Next, s) \<Rightarrow>
             (case dispatch e numbytes s of Inl u \<Rightarrow> Inl u | Inr s \<Rightarrow> Inr (Next, s))))"

section \<open>The loops\<close>

text \<open>\<open>while (pos < numbytes && !stop_)\<close>; \<open>None\<close>: the loop never ends.\<close>

partial_function (option) inner_loop :: "env \<Rightarrow> nat \<Rightarrow> conn \<Rightarrow> (ub + conn) option" where
  "inner_loop e numbytes s =
     (if pos s < numbytes \<and> \<not> stop s then
        (case loop_body e numbytes s of
           Inl u \<Rightarrow> Some (Inl u)
         | Inr (c, s') \<Rightarrow>
             (case c of Break \<Rightarrow> Some (Inr s') | Next \<Rightarrow> inner_loop e numbytes s'))
      else Some (Inr s))"

text \<open>
  What \<open>recv\<close> returns: some bytes (none: the peer has closed), or -1 (a timeout or an error).
  It writes into a zeroed buffer of \<open>BUFSIZE\<close> bytes and is asked for at most \<open>BUFSIZE - 1\<close>.
\<close>

datatype recv_result = Received "byte list" | RecvError

fun recv_ret :: "recv_result \<Rightarrow> int" where
  "recv_ret (Received bs) = int (length bs)"
| "recv_ret RecvError = -1"

fun recv_buffer :: "recv_result \<Rightarrow> byte list" where
  "recv_buffer (Received bs) = bs @ replicate (BUFSIZE - length bs) 0"
| "recv_buffer RecvError = replicate BUFSIZE 0"

text \<open>
  After the inner loop the unread bytes move to the front of \<open>data\<close>. \<open>leftoversize\<close> is a
  \<open>size_t\<close>, so a \<open>pos\<close> beyond \<open>numbytes\<close> would wrap.
\<close>

definition carry_over :: "nat \<Rightarrow> conn \<Rightarrow> ub + conn" where
  "carry_over numbytes s =
     (let left = (if pos s \<le> numbytes then numbytes - pos s else 2 ^ 64 - (pos s - numbytes))
      in if left \<le> DATABUFSIZE then
           (case memcpy (data s) 0 (drop (pos s) (data s)) left of
              None \<Rightarrow> Inl OutOfBounds
            | Some d \<Rightarrow> Inr (s\<lparr>leftoversize := left, data := d\<rparr>))
         else Inr (s\<lparr>leftoversize := left\<rparr>))"

definition on_recv :: "env \<Rightarrow> recv_result \<Rightarrow> conn \<Rightarrow> (ub + conn) option" where
  "on_recv e r s =
     (let numbytes = recv_ret r + int (leftoversize s)
      in if 0 < numbytes then
           (case memcpy (data s) (leftoversize s) (recv_buffer r) BUFSIZE of
              None \<Rightarrow> Some (Inl OutOfBounds)
            | Some d \<Rightarrow>
                (case inner_loop e (nat numbytes) (s\<lparr>data := d, pos := 0\<rparr>) of
                   None \<Rightarrow> None
                 | Some (Inl u) \<Rightarrow> Some (Inl u)
                 | Some (Inr s') \<Rightarrow> Some (carry_over (nat numbytes) s')))
         else Some (Inr (s\<lparr>stop := True\<rparr>)))"

text \<open>
  The receive loop on a list of \<open>recv\<close> results. When the list is used up the peer has closed
  its end, and \<open>recv\<close> keeps returning 0.
\<close>

definition next_recv :: "recv_result list \<Rightarrow> recv_result" where
  "next_recv rs = (case rs of [] \<Rightarrow> Received [] | r # _ \<Rightarrow> r)"

partial_function (option) main_loop :: "env \<Rightarrow> recv_result list \<Rightarrow> conn \<Rightarrow> (ub + conn) option" where
  "main_loop e rs s =
     (if \<not> stop s then
        (case on_recv e (next_recv rs) s of
           None \<Rightarrow> None
         | Some x \<Rightarrow>
             (case x of Inl u \<Rightarrow> Some (Inl u) | Inr s' \<Rightarrow> main_loop e (tl rs) s'))
      else Some (Inr s))"

declare inner_loop.simps [code] main_loop.simps [code]

definition finish :: "conn \<Rightarrow> event list" where
  "finish s = trace (if \<not> answered s then send_reply [zero_char] s else s) @ [Closed]"

text \<open>\<open>GearStreamClientHandler::main\<close> for one connection.\<close>

definition handler_main :: "env \<Rightarrow> recv_result list \<Rightarrow> (ub + event list) option" where
  "handler_main e rs =
     (case main_loop e rs init_conn of
        None \<Rightarrow> None
      | Some (Inl u) \<Rightarrow> Some (Inl u)
      | Some (Inr s) \<Rightarrow> Some (Inr (finish s)))"

text \<open>The effect of the events on the shared queue.\<close>

fun deliver :: "event \<Rightarrow> queue_entry locked_queue \<Rightarrow> queue_entry locked_queue" where
  "deliver (Pushed m) q = lq_push m q"
| "deliver _ q = q"

end
