(* ===== verification/TimedWaiter.thy ===== *)
theory TimedWaiter
  imports Prelude
begin

text \<open>
  \<^verbatim>\<open>src/src/utils/timedwaiter/timed_waiter.h\<close>: a wait that another thread can cut short. Both
  members hold the mutex; \<open>wait_for\<close> gives it up while it waits, so \<open>interrupt\<close> may run in
  between. The operations are first single steps; the second half gives the threads their
  steps, down to the mutex and the notification, and shows that no interrupt is lost.
\<close>

record timed_waiter =
  tw_stop :: bool

definition tw_new :: timed_waiter where
  "tw_new = \<lparr>tw_stop = False\<rparr>"

definition interrupt :: "timed_waiter \<Rightarrow> timed_waiter" where
  "interrupt t = t\<lparr>tw_stop := True\<rparr>"

text \<open>
  \<open>interrupts\<close> is the number of calls of \<open>interrupt\<close> during the wait. The result is false when the
  predicate holds at the end of the wait.
\<close>

definition wait_for :: "nat \<Rightarrow> timed_waiter \<Rightarrow> bool \<times> timed_waiter" where
  "wait_for interrupts t =
     (let t = (interrupt ^^ interrupts) t in (\<not> tw_stop t, t))"

lemma interrupt_idem: "interrupt (interrupt t) = interrupt t"
  by (simp add: interrupt_def)

lemma tw_stop_interrupts: "tw_stop ((interrupt ^^ n) t) \<longleftrightarrow> tw_stop t \<or> 0 < n"
  by (induction n) (auto simp: interrupt_def)

text \<open>A waiter that was never interrupted says so; one that was never waits again.\<close>

lemma wait_for_result: "fst (wait_for n t) \<longleftrightarrow> \<not> tw_stop t \<and> n = 0"
  by (auto simp: wait_for_def Let_def tw_stop_interrupts)

lemma wait_for_stop: "tw_stop (snd (wait_for n t)) \<longleftrightarrow> tw_stop t \<or> 0 < n"
  by (simp add: wait_for_def Let_def tw_stop_interrupts)

section \<open>The threads step by step\<close>

text \<open>
  The waiter is in \<open>c_.wait_for(l, duration, pred)\<close>, which tests the predicate, gives up the mutex
  and falls asleep in one go, and takes the mutex again before it looks at the predicate after a
  wake-up or a timeout. \<open>W_returned r\<close>: \<open>wait_for\<close> has returned \<open>r\<close>.
\<close>

datatype waiting = W_entering | W_testing | W_blocking | W_sleeping | W_woken | W_late | W_deciding
  | W_returned bool

text \<open>A thread in \<open>interrupt\<close>: before the lock, with it, after the store, after the unlock, at the end.\<close>

datatype interrupting = I_calling | I_locked | I_stored | I_unlocked | I_finished

datatype owner = By_waiter | By_interrupter nat

record wait_state =
  ws_timer :: timed_waiter
  ws_mutex :: "owner option"
  ws_waiter :: waiting
  ws_interrupters :: "interrupting list"

definition tw_start :: "timed_waiter \<Rightarrow> nat \<Rightarrow> wait_state" where
  "tw_start t n = \<lparr>ws_timer = t, ws_mutex = None, ws_waiter = W_entering,
                   ws_interrupters = replicate n I_calling\<rparr>"

definition notify_one :: "waiting \<Rightarrow> waiting" where
  "notify_one w = (if w = W_sleeping then W_woken else w)"

inductive tw_step :: "wait_state \<Rightarrow> wait_state \<Rightarrow> bool" where
  Enter: "ws_waiter s = W_entering \<Longrightarrow> ws_mutex s = None \<Longrightarrow>
     tw_step s (s\<lparr>ws_waiter := W_testing, ws_mutex := Some By_waiter\<rparr>)"
| Stopped: "ws_waiter s = W_testing \<Longrightarrow> tw_stop (ws_timer s) \<Longrightarrow>
     tw_step s (s\<lparr>ws_waiter := W_returned False, ws_mutex := None\<rparr>)"
| Block: "ws_waiter s = W_testing \<Longrightarrow> \<not> tw_stop (ws_timer s) \<Longrightarrow>
     tw_step s (s\<lparr>ws_waiter := W_blocking\<rparr>)"
| Sleep: "ws_waiter s = W_blocking \<Longrightarrow> tw_step s (s\<lparr>ws_waiter := W_sleeping, ws_mutex := None\<rparr>)"
| Spurious: "ws_waiter s = W_sleeping \<Longrightarrow> tw_step s (s\<lparr>ws_waiter := W_woken\<rparr>)"
| Timeout: "ws_waiter s = W_sleeping \<Longrightarrow> tw_step s (s\<lparr>ws_waiter := W_late\<rparr>)"
| Relock: "ws_waiter s = W_woken \<Longrightarrow> ws_mutex s = None \<Longrightarrow>
     tw_step s (s\<lparr>ws_waiter := W_testing, ws_mutex := Some By_waiter\<rparr>)"
| Relock_late: "ws_waiter s = W_late \<Longrightarrow> ws_mutex s = None \<Longrightarrow>
     tw_step s (s\<lparr>ws_waiter := W_deciding, ws_mutex := Some By_waiter\<rparr>)"
| Decide: "ws_waiter s = W_deciding \<Longrightarrow>
     tw_step s (s\<lparr>ws_waiter := W_returned (\<not> tw_stop (ws_timer s)), ws_mutex := None\<rparr>)"
| Lock: "i < length (ws_interrupters s) \<Longrightarrow> ws_interrupters s ! i = I_calling \<Longrightarrow> ws_mutex s = None \<Longrightarrow>
     tw_step s (s\<lparr>ws_interrupters := (ws_interrupters s)[i := I_locked],
                  ws_mutex := Some (By_interrupter i)\<rparr>)"
| Store: "i < length (ws_interrupters s) \<Longrightarrow> ws_interrupters s ! i = I_locked \<Longrightarrow>
     tw_step s (s\<lparr>ws_interrupters := (ws_interrupters s)[i := I_stored],
                  ws_timer := interrupt (ws_timer s)\<rparr>)"
| Unlock: "i < length (ws_interrupters s) \<Longrightarrow> ws_interrupters s ! i = I_stored \<Longrightarrow>
     tw_step s (s\<lparr>ws_interrupters := (ws_interrupters s)[i := I_unlocked], ws_mutex := None\<rparr>)"
| Notify: "i < length (ws_interrupters s) \<Longrightarrow> ws_interrupters s ! i = I_unlocked \<Longrightarrow>
     tw_step s (s\<lparr>ws_interrupters := (ws_interrupters s)[i := I_finished],
                  ws_waiter := notify_one (ws_waiter s)\<rparr>)"

section \<open>No interrupt is lost\<close>

definition holds_mutex :: "waiting \<Rightarrow> bool" where
  "holds_mutex w \<longleftrightarrow> w \<in> {W_testing, W_blocking, W_deciding}"

definition will_notify :: "interrupting list \<Rightarrow> bool" where
  "will_notify is \<longleftrightarrow> (\<exists>i<length is. is ! i \<in> {I_stored, I_unlocked})"

lemma will_notify_update:
  "i < length is \<Longrightarrow> x \<in> {I_stored, I_unlocked} \<Longrightarrow> will_notify (is[i := x])"
  "will_notify is \<Longrightarrow> is ! i \<notin> {I_stored, I_unlocked} \<Longrightarrow> will_notify (is[i := x])"
  unfolding will_notify_def by auto (metis nth_list_update_neq)+

text \<open>
  The mutex has one owner; a waiter that has seen no stop and still has the mutex is right; and when
  a waiter sleeps although the stop is set, its notification is still to come.
\<close>

definition tw_inv :: "wait_state \<Rightarrow> bool" where
  "tw_inv s \<longleftrightarrow>
     (holds_mutex (ws_waiter s) \<longleftrightarrow> ws_mutex s = Some By_waiter)
     \<and> (\<forall>i<length (ws_interrupters s). ws_interrupters s ! i \<in> {I_locked, I_stored} \<longleftrightarrow>
          ws_mutex s = Some (By_interrupter i))
     \<and> (ws_waiter s = W_blocking \<longrightarrow> \<not> tw_stop (ws_timer s))
     \<and> (ws_waiter s = W_sleeping \<and> tw_stop (ws_timer s) \<longrightarrow>
          will_notify (ws_interrupters s))"

lemma tw_inv_start: "tw_inv (tw_start t n)"
  by (simp add: tw_inv_def tw_start_def holds_mutex_def)

lemma tw_step_inv: "tw_step s s' \<Longrightarrow> tw_inv s \<Longrightarrow> tw_inv s'"
proof (induction rule: tw_step.induct)
  case (Lock i s)
  then show ?case
    by (auto simp: tw_inv_def holds_mutex_def nth_list_update intro: will_notify_update(2))
next
  case (Store i s)
  then have "ws_mutex s = Some (By_interrupter i)" by (auto simp: tw_inv_def)
  with Store show ?case
    by (auto simp: tw_inv_def holds_mutex_def nth_list_update intro: will_notify_update(1))
next
  case (Unlock i s)
  then have "ws_mutex s = Some (By_interrupter i)" by (auto simp: tw_inv_def)
  with Unlock show ?case
    by (auto simp: tw_inv_def holds_mutex_def nth_list_update intro: will_notify_update(1))
next
  case (Notify i s)
  then show ?case by (auto simp: tw_inv_def holds_mutex_def notify_one_def nth_list_update)
qed (auto simp: tw_inv_def holds_mutex_def)

interpretation waiting_room: kept tw_step tw_inv
  by unfold_locales (rule tw_step_inv)

definition after_store :: "interrupting \<Rightarrow> bool" where
  "after_store x \<longleftrightarrow> x \<in> {I_stored, I_unlocked, I_finished}"

text \<open>The stop is set by an interrupter or was set before; a false result means that it is set.\<close>

definition stop_inv :: "timed_waiter \<Rightarrow> nat \<Rightarrow> wait_state \<Rightarrow> bool" where
  "stop_inv t n s \<longleftrightarrow> length (ws_interrupters s) = n
     \<and> (\<forall>x\<in>set (ws_interrupters s). after_store x \<longrightarrow> tw_stop (ws_timer s))
     \<and> (tw_stop (ws_timer s) \<longrightarrow> tw_stop t \<or> 0 < n)
     \<and> (ws_waiter s = W_returned False \<longrightarrow> tw_stop (ws_timer s))"

lemma stop_inv_start: "stop_inv t n (tw_start t n)"
  by (simp add: stop_inv_def tw_start_def after_store_def)

lemma tw_step_stop: "tw_step s s' \<Longrightarrow> stop_inv t n s \<Longrightarrow> stop_inv t n s'"
  by (induction rule: tw_step.induct)
    (auto simp: stop_inv_def after_store_def interrupt_def notify_one_def
      dest!: set_update_subset_insert [THEN subsetD] intro: nth_mem dest: bspec [OF _ nth_mem])

interpretation stopping: kept tw_step "stop_inv t n" for t n
  by unfold_locales (rule tw_step_stop)

text \<open>Once the stop is set, a wait that is still going on can only return false.\<close>

definition stop_seen :: "wait_state \<Rightarrow> bool" where
  "stop_seen s \<longleftrightarrow> tw_stop (ws_timer s) \<and> ws_waiter s \<noteq> W_returned True"

lemma tw_step_seen: "tw_step s s' \<Longrightarrow> stop_seen s \<Longrightarrow> stop_seen s'"
  by (induction rule: tw_step.induct) (auto simp: stop_seen_def interrupt_def notify_one_def)

interpretation seeing: kept tw_step stop_seen
  by unfold_locales (rule tw_step_seen)

text \<open>The single-step \<open>wait_for\<close> of the first half describes every interleaving of the threads.\<close>

lemma wait_for_refined:
  assumes "tw_step\<^sup>*\<^sup>* (tw_start t n) s" and "ws_waiter s = W_returned r"
  shows "\<exists>k\<le>n. r = fst (wait_for k t)"
proof (cases "tw_stop t")
  case True
  then have "stop_seen (tw_start t n)" by (simp add: stop_seen_def tw_start_def)
  with seeing.always [OF assms(1)] assms(2) True show ?thesis
    by (auto simp: stop_seen_def wait_for_result)
next
  case False
  have "stop_inv t n s" by (rule stopping.always [OF assms(1) stop_inv_start])
  with assms(2) False have "\<not> r \<longrightarrow> 0 < n" by (auto simp: stop_inv_def)
  with False show ?thesis by (cases r) (auto simp: wait_for_result intro: exI [of _ 0] exI [of _ 1])
qed

text \<open>
  C18: an interrupt is never lost. Once a call of \<open>interrupt\<close> has returned while the wait was still
  going on, the wait does not return true any more, however the threads interleave, spurious
  wake-ups and timeouts included; and it is only found asleep while some thread is about to notify it.
\<close>

theorem interrupt_is_seen:
  assumes "tw_step\<^sup>*\<^sup>* (tw_start t n) s" and "I_finished \<in> set (ws_interrupters s)"
    and "ws_waiter s \<noteq> W_returned True" and "tw_step\<^sup>*\<^sup>* s s'"
  shows "ws_waiter s' \<noteq> W_returned True
    \<and> (ws_waiter s' = W_sleeping \<longrightarrow> will_notify (ws_interrupters s'))"
proof -
  have "stop_inv t n s" by (rule stopping.always [OF assms(1) stop_inv_start])
  with assms(2,3) have "stop_seen s" by (auto simp: stop_inv_def stop_seen_def after_store_def)
  with seeing.always [OF assms(4)] have "stop_seen s'" .
  moreover have "tw_inv s'"
    using waiting_room.always [OF _ tw_inv_start] assms(1,4) by (meson rtranclp_trans)
  ultimately show ?thesis by (simp add: stop_seen_def tw_inv_def)
qed

definition tw_at :: "bool \<Rightarrow> owner option \<Rightarrow> waiting \<Rightarrow> interrupting \<Rightarrow> wait_state" where
  "tw_at b m w x = \<lparr>ws_timer = \<lparr>tw_stop = b\<rparr>, ws_mutex = m, ws_waiter = w, ws_interrupters = [x]\<rparr>"

lemmas tw_at_simps = tw_at_def notify_one_def interrupt_def

text \<open>The interrupt comes while the waiter sleeps.\<close>

lemma sample_interrupt:
  "tw_step\<^sup>*\<^sup>* (tw_start tw_new 1) (tw_at True None W_woken I_finished)"
proof -
  have "tw_step (tw_at False None W_entering I_calling) (tw_at False (Some By_waiter) W_testing I_calling)"
    using Enter [of "tw_at False None W_entering I_calling"] by (simp add: tw_at_simps)
  moreover have "tw_step \<dots> (tw_at False (Some By_waiter) W_blocking I_calling)"
    using Block [of "tw_at False (Some By_waiter) W_testing I_calling"] by (simp add: tw_at_simps)
  moreover have "tw_step \<dots> (tw_at False None W_sleeping I_calling)"
    using Sleep [of "tw_at False (Some By_waiter) W_blocking I_calling"] by (simp add: tw_at_simps)
  moreover have "tw_step \<dots> (tw_at False (Some (By_interrupter 0)) W_sleeping I_locked)"
    using Lock [of 0 "tw_at False None W_sleeping I_calling"] by (simp add: tw_at_simps)
  moreover have "tw_step \<dots> (tw_at True (Some (By_interrupter 0)) W_sleeping I_stored)"
    using Store [of 0 "tw_at False (Some (By_interrupter 0)) W_sleeping I_locked"]
    by (simp add: tw_at_simps)
  moreover have "tw_step \<dots> (tw_at True None W_sleeping I_unlocked)"
    using Unlock [of 0 "tw_at True (Some (By_interrupter 0)) W_sleeping I_stored"]
    by (simp add: tw_at_simps)
  moreover have "tw_step \<dots> (tw_at True None W_woken I_finished)"
    using Notify [of 0 "tw_at True None W_sleeping I_unlocked"] by (simp add: tw_at_simps)
  ultimately have "tw_step\<^sup>*\<^sup>* (tw_at False None W_entering I_calling)
      (tw_at True None W_woken I_finished)"
    by (meson converse_rtranclp_into_rtranclp rtranclp.rtrancl_refl)
  then show ?thesis by (simp add: tw_start_def tw_new_def tw_at_def)
qed

theorem interrupt_is_seen_witness:
  "\<not> tw_step\<^sup>*\<^sup>* (tw_at True None W_woken I_finished)
       (tw_at True None (W_returned True) I_finished)"
proof
  assume "tw_step\<^sup>*\<^sup>* (tw_at True None W_woken I_finished)
    (tw_at True None (W_returned True) I_finished)"
  from interrupt_is_seen [OF sample_interrupt _ _ this] show False by (simp add: tw_at_def)
qed

end
