(* ===== verification/HandlerThread.thy ===== *)
theory HandlerThread
  imports ClientHandler TimedWaiter
begin

text \<open>
  \<open>GearStreamClientHandlerThread\<close>
  (\<^verbatim>\<open>src/src/input/inputs/GearStreamClientHandlerThread.cpp\<close>, \<^verbatim>\<open>.h\<close>): the older client handler, an
  object that serves one connection in a thread of its own. The class is in the repository beside
  its replacement \<open>GearStreamClientHandler\<close>; it speaks the protocol without the version byte and
  knows no status request. Its \<open>stop_\<close> is a member that \<open>stop\<close> sets from another thread.

  The events, the results of \<open>recv\<close> and the queue entries are those of \<open>ClientHandler\<close>.
\<close>

section \<open>The object\<close>

record handler_thread =
  hd_socket :: int
  hd_stop :: bool
  hd_has_initial_data :: bool
  hd_finished :: bool
  hd_twaiter :: timed_waiter

definition ht_new :: "int \<Rightarrow> handler_thread" where
  "ht_new pSocketFD =
     \<lparr>hd_socket = pSocketFD, hd_stop = False, hd_has_initial_data = False, hd_finished = False,
      hd_twaiter = tw_new\<rparr>"

definition ht_request_stop :: "'a handler_thread_scheme \<Rightarrow> 'a handler_thread_scheme" where
  "ht_request_stop t = t\<lparr>hd_stop := True, hd_twaiter := interrupt (hd_twaiter t)\<rparr>"

definition ht_isStopped :: "'a handler_thread_scheme \<Rightarrow> bool" where
  "ht_isStopped t = hd_stop t"

definition ht_hasInitialData :: "'a handler_thread_scheme \<Rightarrow> bool" where
  "ht_hasInitialData t = hd_has_initial_data t"

definition ht_setHasInitialData ::
  "bool \<Rightarrow> 'a handler_thread_scheme \<Rightarrow> 'a handler_thread_scheme" where
  "ht_setHasInitialData b t = t\<lparr>hd_has_initial_data := b\<rparr>"

definition ht_sendData :: "int \<Rightarrow> (byte list \<Rightarrow> int) \<Rightarrow> byte list \<Rightarrow> bool \<times> byte list list" where
  "ht_sendData error_code send message =
     (if error_code = 0 then
        (let bytes_sent = send message in (if 0 < bytes_sent then True else False, [message]))
      else (False, []))"

definition ht_addMessage ::
  "u64 \<Rightarrow> byte list \<Rightarrow> queue_entry locked_queue \<Rightarrow> queue_entry locked_queue" where
  "ht_addMessage now pData messages =
     lq_push (new_entry\<lparr>query := pData, received := now\<rparr>) messages"

section \<open>The variables of thread\_main\<close>

text \<open>
  The local variables, beside the members. \<open>ht_tests\<close> counts how often \<open>stop_\<close> has been read, so
  that a schedule \<open>halt\<close> can say at which of these reads a call of \<open>stop\<close> has come through;
  \<open>ht_trace\<close> is what the thread does to the rest of the program.
\<close>

record thread_conn = handler_thread +
  ht_leftoversize :: nat
  ht_data :: "byte list"
  ht_pos :: nat
  ht_has_message_type :: bool
  ht_has_message_header :: bool
  ht_message_type :: int
  ht_payload_data :: "byte list"
  ht_payload_data_size :: u32
  ht_payload_data_read :: u32
  ht_answered :: bool
  ht_tests :: nat
  ht_trace :: "event list"

definition ht_init :: "handler_thread \<Rightarrow> thread_conn" where
  "ht_init t = handler_thread.extend t
     (thread_conn.fields 0 (replicate DATABUFSIZE 0) 0 False False 15 [] 0 0 False 0 [])"

definition ht_event :: "event \<Rightarrow> thread_conn \<Rightarrow> thread_conn" where
  "ht_event ev s = s\<lparr>ht_trace := ht_trace s @ [ev]\<rparr>"

text \<open>Reading \<open>stop_\<close> for a loop test.\<close>

definition ht_look :: "(nat \<Rightarrow> bool) \<Rightarrow> thread_conn \<Rightarrow> thread_conn" where
  "ht_look halt s = s\<lparr>hd_stop := hd_stop s \<or> halt (ht_tests s), ht_tests := ht_tests s + 1\<rparr>"

section \<open>The branches of the loop body\<close>

definition ht_read_type :: "thread_conn \<Rightarrow> ub + (ctl \<times> thread_conn)" where
  "ht_read_type s =
     (case array_get (ht_data s) (ht_pos s) of
        None \<Rightarrow> Inl OutOfBounds
      | Some b \<Rightarrow>
          (let s = s\<lparr>ht_message_type := sint b\<rparr>;
               s = (if ht_message_type s < netmessage_val N_NUMMSG
                    then s\<lparr>ht_has_message_type := True\<rparr>
                    else ht_event (UnknownType (ht_message_type s)) s)
           in Inr (Next, s\<lparr>ht_pos := ht_pos s + 1\<rparr>)))"

definition ht_header_message :: "nat \<Rightarrow> thread_conn \<Rightarrow> byte list option" where
  "ht_header_message header_len s =
     (if header_len + ht_pos s \<le> DATABUFSIZE
      then memcpy (replicate MAXHEADERSIZE 0) 0 (drop (ht_pos s) (ht_data s)) header_len
      else Some (replicate MAXHEADERSIZE 0))"

definition ht_read_header :: "nat \<Rightarrow> thread_conn \<Rightarrow> ub + (ctl \<times> thread_conn)" where
  "ht_read_header numbytes s =
     (case header_size_at (ht_message_type s) of
        None \<Rightarrow> Inl HeaderSizeIndex
      | Some header_len \<Rightarrow>
          if header_len + ht_pos s \<le> numbytes then
            (case ht_header_message header_len s of
               None \<Rightarrow> Inl OutOfBounds
             | Some h \<Rightarrow>
                 Inr (Next, s\<lparr>ht_has_message_header := True,
                   ht_payload_data_size :=
                     (if 4 \<le> header_len then le32 (h ! 0) (h ! 1) (h ! 2) (h ! 3) else 0),
                   ht_payload_data_read := 0,
                   ht_pos := ht_pos s + header_len\<rparr>))
          else Inr (Break, s))"

function ht_copy_payload :: "nat \<Rightarrow> thread_conn \<Rightarrow> ub + thread_conn" where
  "ht_copy_payload numbytes s =
     (if ht_pos s < numbytes \<and> ht_payload_data_read s < ht_payload_data_size s then
        (case array_get (ht_data s) (ht_pos s) of
           None \<Rightarrow> Inl OutOfBounds
         | Some b \<Rightarrow>
             ht_copy_payload numbytes
               (s\<lparr>ht_payload_data := ht_payload_data s @ [b], ht_pos := ht_pos s + 1,
                  ht_payload_data_read := ht_payload_data_read s + 1\<rparr>))
      else Inr s)"
  by pat_completeness auto
termination
  by (relation "measure (\<lambda>(n, s). n - ht_pos s)") auto

declare ht_copy_payload.simps [simp del]

text \<open>
  The complete message: \<open>addMessage\<close> with the clock's value, the acknowledgement, the reset.
  \<open>clk\<close> gives the clock by the number of events so far. The acknowledgement is a plain \<open>write\<close>
  here, where the new handler calls \<open>sendData\<close>, which looks at the socket's error first; both handlers
  ignore the result, and the event \<open>Reply\<close> stands for the attempt to send in either.
\<close>

definition ht_accept :: "(nat \<Rightarrow> u64) \<Rightarrow> thread_conn \<Rightarrow> thread_conn" where
  "ht_accept clk s =
     (let s = ht_event (Pushed (new_entry\<lparr>query := ht_payload_data s,
                received := clk (length (ht_trace s))\<rparr>)) s;
          s = ht_event (Reply [one_char]) s
      in s\<lparr>ht_answered := True, ht_has_message_type := False, ht_has_message_header := False,
           ht_payload_data := [], ht_payload_data_read := 0, ht_payload_data_size := 0\<rparr>)"

definition ht_mysqldata :: "(nat \<Rightarrow> u64) \<Rightarrow> nat \<Rightarrow> thread_conn \<Rightarrow> ub + thread_conn" where
  "ht_mysqldata clk numbytes s =
     (case (if ht_payload_data_read s < ht_payload_data_size s
            then ht_copy_payload numbytes s else Inr s) of
        Inl u \<Rightarrow> Inl u
      | Inr s \<Rightarrow>
          if ht_payload_data_read s = ht_payload_data_size s then Inr (ht_accept clk s)
          else Inr s)"

text \<open>The \<open>switch\<close>: only \<open>N_MYSQLDATA\<close> does anything.\<close>

definition ht_dispatch :: "(nat \<Rightarrow> u64) \<Rightarrow> nat \<Rightarrow> thread_conn \<Rightarrow> ub + thread_conn" where
  "ht_dispatch clk numbytes s =
     (if ht_message_type s = netmessage_val N_MYSQLDATA then ht_mysqldata clk numbytes s
      else Inr s)"

definition ht_loop_body :: "(nat \<Rightarrow> u64) \<Rightarrow> nat \<Rightarrow> thread_conn \<Rightarrow> ub + (ctl \<times> thread_conn)" where
  "ht_loop_body clk numbytes s =
     (if \<not> ht_has_message_type s then ht_read_type s
      else
        (case (if \<not> ht_has_message_header s then ht_read_header numbytes s else Inr (Next, s)) of
           Inl u \<Rightarrow> Inl u
         | Inr (Break, s) \<Rightarrow> Inr (Break, s)
         | Inr (Next, s) \<Rightarrow>
             (case ht_dispatch clk numbytes s of Inl u \<Rightarrow> Inl u | Inr s \<Rightarrow> Inr (Next, s))))"

section \<open>The loops\<close>

text \<open>
  \<open>while (pos < numbytes && !stop_)\<close>: \<open>stop_\<close> is read only when there are bytes left.
  \<open>None\<close>: the loop never ends.
\<close>

partial_function (option) ht_inner_loop ::
  "(nat \<Rightarrow> u64) \<Rightarrow> (nat \<Rightarrow> bool) \<Rightarrow> nat \<Rightarrow> thread_conn \<Rightarrow> (ub + thread_conn) option" where
  "ht_inner_loop clk halt numbytes s =
     (if ht_pos s < numbytes then
        (if \<not> hd_stop (ht_look halt s) then
           (case ht_loop_body clk numbytes (ht_look halt s) of
              Inl u \<Rightarrow> Some (Inl u)
            | Inr (c, s') \<Rightarrow>
                (case c of Break \<Rightarrow> Some (Inr s') | Next \<Rightarrow> ht_inner_loop clk halt numbytes s'))
         else Some (Inr (ht_look halt s)))
      else Some (Inr s))"

definition ht_carry_over :: "nat \<Rightarrow> thread_conn \<Rightarrow> ub + thread_conn" where
  "ht_carry_over numbytes s =
     (let left = (if ht_pos s \<le> numbytes then numbytes - ht_pos s
                  else 2 ^ 64 - (ht_pos s - numbytes))
      in if left \<le> DATABUFSIZE then
           (case memcpy (ht_data s) 0 (drop (ht_pos s) (ht_data s)) left of
              None \<Rightarrow> Inl OutOfBounds
            | Some d \<Rightarrow> Inr (s\<lparr>ht_leftoversize := left, ht_data := d\<rparr>))
         else Inr (s\<lparr>ht_leftoversize := left\<rparr>))"

definition ht_on_recv ::
  "(nat \<Rightarrow> u64) \<Rightarrow> (nat \<Rightarrow> bool) \<Rightarrow> recv_result \<Rightarrow> thread_conn \<Rightarrow> (ub + thread_conn) option" where
  "ht_on_recv clk halt r s =
     (let numbytes = recv_ret r + int (ht_leftoversize s)
      in if 0 < numbytes then
           (case memcpy (ht_data s) (ht_leftoversize s) (recv_buffer r) BUFSIZE of
              None \<Rightarrow> Some (Inl OutOfBounds)
            | Some d \<Rightarrow>
                (case ht_inner_loop clk halt (nat numbytes) (s\<lparr>ht_data := d, ht_pos := 0\<rparr>) of
                   None \<Rightarrow> None
                 | Some (Inl u) \<Rightarrow> Some (Inl u)
                 | Some (Inr s') \<Rightarrow> Some (ht_carry_over (nat numbytes) s')))
         else Some (Inr (s\<lparr>hd_stop := True\<rparr>)))"

text \<open>\<open>while (!stop_)\<close> on a list of \<open>recv\<close> results, after which the peer has closed.\<close>

partial_function (option) ht_main_loop ::
  "(nat \<Rightarrow> u64) \<Rightarrow> (nat \<Rightarrow> bool) \<Rightarrow> recv_result list \<Rightarrow> thread_conn \<Rightarrow> (ub + thread_conn) option"
where
  "ht_main_loop clk halt rs s =
     (if \<not> hd_stop (ht_look halt s) then
        (case ht_on_recv clk halt (next_recv rs) (ht_look halt s) of
           None \<Rightarrow> None
         | Some x \<Rightarrow>
             (case x of Inl u \<Rightarrow> Some (Inl u) | Inr s' \<Rightarrow> ht_main_loop clk halt (tl rs) s'))
      else Some (Inr (ht_look halt s)))"

declare ht_inner_loop.simps [code] ht_main_loop.simps [code]

definition ht_finish :: "thread_conn \<Rightarrow> thread_conn" where
  "ht_finish s =
     (let s = (if \<not> ht_answered s then ht_event (Reply [zero_char]) s else s)
      in (ht_event Closed s)\<lparr>hd_socket := 0, hd_finished := True\<rparr>)"

text \<open>\<open>thread_main\<close>: the events, and the object it leaves.\<close>

definition ht_thread_main ::
  "(nat \<Rightarrow> u64) \<Rightarrow> (nat \<Rightarrow> bool) \<Rightarrow> recv_result list \<Rightarrow> handler_thread \<Rightarrow>
   (ub + (event list \<times> handler_thread)) option" where
  "ht_thread_main clk halt rs t =
     (case ht_main_loop clk halt rs (ht_init t) of
        None \<Rightarrow> None
      | Some (Inl u) \<Rightarrow> Some (Inl u)
      | Some (Inr s) \<Rightarrow>
          (let s = ht_finish s in Some (Inr (ht_trace s, handler_thread.truncate s))))"

section \<open>stop ends the thread\<close>

text \<open>The members that the loop body leaves alone.\<close>

definition same_control :: "thread_conn \<Rightarrow> thread_conn \<Rightarrow> bool" where
  "same_control s s' \<longleftrightarrow> ht_tests s' = ht_tests s \<and> hd_stop s' = hd_stop s"

lemma same_control_refl [simp]: "same_control s s"
  by (simp add: same_control_def)

lemma ht_copy_payload_control: "ht_copy_payload n s = Inr s' \<Longrightarrow> same_control s s'"
proof (induction n s rule: ht_copy_payload.induct)
  case (1 n s)
  then show ?case
    unfolding ht_copy_payload.simps [of n s]
    by (auto simp: same_control_def split: if_splits option.splits)
qed

lemma ht_accept_control: "same_control s (ht_accept clk s)"
  by (simp add: same_control_def ht_accept_def ht_event_def)

lemma ht_mysqldata_control: "ht_mysqldata clk n s = Inr s' \<Longrightarrow> same_control s s'"
  by (auto simp: ht_mysqldata_def same_control_def split: if_splits sum.splits
      dest!: ht_copy_payload_control)
    (simp_all add: ht_accept_def ht_event_def)

lemma ht_read_header_control: "ht_read_header n s = Inr (c, s') \<Longrightarrow> same_control s s'"
  by (auto simp: ht_read_header_def same_control_def split: option.splits if_splits)

lemma ht_read_type_control: "ht_read_type s = Inr (c, s') \<Longrightarrow> same_control s s'"
  by (auto simp: ht_read_type_def same_control_def ht_event_def Let_def
      split: option.splits if_splits)

lemma ht_loop_body_control: "ht_loop_body clk n s = Inr (c, s') \<Longrightarrow> same_control s s'"
  by (auto simp: ht_loop_body_def ht_dispatch_def same_control_def
      split: if_splits sum.splits ctl.splits prod.splits
      dest!: ht_read_type_control ht_read_header_control ht_mysqldata_control)

lemma ht_look_simps [simp]:
  "ht_tests (ht_look halt s) = ht_tests s + 1"
  "hd_stop (ht_look halt s) = (hd_stop s \<or> halt (ht_tests s))"
  "ht_pos (ht_look halt s) = ht_pos s"
  by (simp_all add: ht_look_def)

text \<open>The tests are counted on, so the loops reach the one that sees the call of \<open>stop\<close>.\<close>

lemma ht_inner_loop_ends:
  assumes "\<forall>i\<ge>k. halt i"
  shows "\<exists>x. ht_inner_loop clk halt n s = Some x \<and> (\<forall>s'. x = Inr s' \<longrightarrow> ht_tests s \<le> ht_tests s')"
proof (induction "k - ht_tests s" arbitrary: s rule: less_induct)
  case less
  show ?case
  proof (cases "ht_pos s < n \<and> \<not> hd_stop (ht_look halt s)")
    case False
    then show ?thesis by (subst ht_inner_loop.simps) auto
  next
    case True
    then have run: "ht_inner_loop clk halt n s =
        (case ht_loop_body clk n (ht_look halt s) of
           Inl u \<Rightarrow> Some (Inl u)
         | Inr (c, s') \<Rightarrow> (case c of Break \<Rightarrow> Some (Inr s') | Next \<Rightarrow> ht_inner_loop clk halt n s'))"
      by (subst ht_inner_loop.simps) simp
    show ?thesis
    proof (cases "ht_loop_body clk n (ht_look halt s)")
      case (Inr r)
      obtain c s1 where r: "r = (c, s1)" by (cases r)
      with Inr have tests: "ht_tests s1 = ht_tests s + 1"
        using ht_loop_body_control [of clk n "ht_look halt s" c s1] by (simp add: same_control_def)
      have "ht_tests s < k" using True assms by (auto simp: not_le [symmetric])
      then obtain x where "ht_inner_loop clk halt n s1 = Some x"
        "\<forall>s'. x = Inr s' \<longrightarrow> ht_tests s1 \<le> ht_tests s'"
        using less.hyps [of s1] tests diff_less_mono2 [of "ht_tests s" "ht_tests s1" k] by auto
      with run Inr r tests show ?thesis by (cases c) auto
    qed (simp add: run)
  qed
qed

lemma ht_on_recv_ends:
  assumes "\<forall>i\<ge>k. halt i"
  shows "\<exists>x. ht_on_recv clk halt r s = Some x \<and> (\<forall>s'. x = Inr s' \<longrightarrow> ht_tests s \<le> ht_tests s')"
proof (cases "0 < recv_ret r + int (ht_leftoversize s)")
  case False
  then show ?thesis by (simp add: ht_on_recv_def)
next
  case True
  let ?n = "nat (recv_ret r + int (ht_leftoversize s))"
  show ?thesis
  proof (cases "memcpy (ht_data s) (ht_leftoversize s) (recv_buffer r) BUFSIZE")
    case None
    with True show ?thesis by (simp add: ht_on_recv_def Let_def)
  next
    case (Some d)
    obtain x where x: "ht_inner_loop clk halt ?n (s\<lparr>ht_data := d, ht_pos := 0\<rparr>) = Some x"
      "\<forall>s'. x = Inr s' \<longrightarrow> ht_tests s \<le> ht_tests s'"
      using ht_inner_loop_ends [OF assms, of clk ?n "s\<lparr>ht_data := d, ht_pos := 0\<rparr>"] by auto
    show ?thesis
    proof (cases x)
      case (Inr s')
      have "ht_tests s2 = ht_tests s'" if "ht_carry_over ?n s' = Inr s2" for s2
        using that by (auto simp: ht_carry_over_def Let_def split: if_splits option.splits)
      with True Some x Inr show ?thesis by (simp add: ht_on_recv_def Let_def)
    qed (use True Some x in \<open>simp add: ht_on_recv_def Let_def\<close>)
  qed
qed

lemma ht_main_loop_ends:
  assumes "\<forall>i\<ge>k. halt i"
  shows "\<exists>x. ht_main_loop clk halt rs s = Some x"
proof (induction "k - ht_tests s" arbitrary: s rs rule: less_induct)
  case less
  show ?case
  proof (cases "hd_stop (ht_look halt s)")
    case True
    then show ?thesis by (subst ht_main_loop.simps) simp
  next
    case False
    obtain x where x: "ht_on_recv clk halt (next_recv rs) (ht_look halt s) = Some x"
      "\<forall>s'. x = Inr s' \<longrightarrow> ht_tests (ht_look halt s) \<le> ht_tests s'"
      using ht_on_recv_ends [OF assms] by blast
    have "ht_tests s < k" using False assms by (auto simp: not_le [symmetric])
    with x(2) have "\<exists>y. ht_main_loop clk halt (tl rs) s' = Some y" if "x = Inr s'" for s'
      using that by (intro less.hyps) (auto dest!: spec intro!: diff_less_mono2)
    with False x(1) show ?thesis by (subst ht_main_loop.simps) (auto split: sum.split)
  qed
qed

text \<open>
  \<open>stop\<close> does what it is for. Once another thread's call of \<open>stop\<close> has come through
  (at the \<open>k\<close>th reading of \<open>stop_\<close> at the latest), the thread ends, whatever the client sends,
  even in the middle of a message that would make the inner loop spin: it closes the socket and is
  marked finished (or had left the header size table, which the code does not guard).
\<close>

theorem stop_ends_thread:
  assumes "\<forall>i\<ge>k. halt i"
  shows "(\<exists>u. ht_thread_main clk halt rs t = Some (Inl u))
    \<or> (\<exists>evs t'. ht_thread_main clk halt rs t = Some (Inr (evs @ [Closed], t'))
         \<and> hd_socket t' = 0 \<and> hd_finished t')"
proof -
  obtain x where x: "ht_main_loop clk halt rs (ht_init t) = Some x"
    using ht_main_loop_ends [OF assms] by blast
  show ?thesis
  proof (cases x)
    case (Inr s)
    with x show ?thesis
      by (auto simp: ht_thread_main_def ht_finish_def ht_event_def handler_thread.defs Let_def)
  qed (use x in \<open>simp add: ht_thread_main_def\<close>)
qed

theorem stop_ends_thread_witness:
  "(\<exists>u. ht_thread_main (\<lambda>_. 0) (\<lambda>i. 3 \<le> i) [Received [2, 0, 0, 0, 0, 7]] (ht_new 5) = Some (Inl u))
    \<or> (\<exists>evs t'. ht_thread_main (\<lambda>_. 0) (\<lambda>i. 3 \<le> i) [Received [2, 0, 0, 0, 0, 7]] (ht_new 5)
           = Some (Inr (evs @ [Closed], t')) \<and> hd_socket t' = 0 \<and> hd_finished t')"
  by (rule stop_ends_thread [of 3]) simp

end
