(* ===== verification/WireProtocol.thy ===== *)
theory WireProtocol
  imports ClientHandler
begin

text \<open>
  The abstract specification of the client handler: the wire protocol as an automaton that
  reads one byte at a time, with no buffers, positions or chunk boundaries. Its phases are the
  protocol states; \<open>Hung\<close> and \<open>Undefd\<close> stand for the two ways in which the code leaves the
  protocol (a loop that never ends, a subscript outside the header size table).
\<close>

section \<open>The automaton\<close>

datatype phase =
    WantProto
  | WantType
  | InHeader int "byte list" \<comment> \<open>message type, header bytes so far\<close>
  | InPayload nat "byte list" \<comment> \<open>announced size, payload so far\<close>
  | Stuck \<comment> \<open>after the header of N_CONNECT or N_CONTROL\<close>
  | BadType \<comment> \<open>after a negative message type\<close>
  | Refused \<comment> \<open>unsupported protocol version\<close>
  | Hung
  | Undefd

type_synonym abs_state = "phase \<times> bool \<times> event list"

definition header_len_of :: "int \<Rightarrow> nat" where
  "header_len_of t = (if t = 0 then 10 else 4)"

definition accept_query :: "env \<Rightarrow> byte list \<Rightarrow> event list \<Rightarrow> event list" where
  "accept_query e q tr = tr @ [Pushed (entry_of (clock e (length tr)) q), Reply [one_char]]"

definition answer_status :: "env \<Rightarrow> event list \<Rightarrow> event list" where
  "answer_status e tr = tr @ [Reply (status_reply (status e (length tr)))]"

definition payload_size_of :: "byte list \<Rightarrow> nat" where
  "payload_size_of h = unat (le32 (h ! 0) (h ! 1) (h ! 2) (h ! 3))"

fun complete_header :: "env \<Rightarrow> int \<Rightarrow> byte list \<Rightarrow> bool \<times> event list \<Rightarrow> abs_state" where
  "complete_header e t h (a, tr) =
     (if t = 1 then (WantType, True, answer_status e tr)
      else if t = 3 then
        (if payload_size_of h = 0 then (WantType, True, accept_query e [] tr)
         else (InPayload (payload_size_of h) [], a, tr))
      else (Stuck, a, tr))"

fun feed :: "env \<Rightarrow> byte \<Rightarrow> abs_state \<Rightarrow> abs_state" where
  "feed e b (WantProto, a, tr) =
     (if sint b = 1 then (WantType, a, tr @ [Reply [one_char]])
      else (Refused, True, tr @ [Reply [zero_char]]))"
| "feed e b (WantType, a, tr) =
     (if sint b < 0 then (BadType, a, tr)
      else if sint b < 4 then (InHeader (sint b) [], a, tr)
      else (WantType, a, tr @ [UnknownType (sint b)]))"
| "feed e b (InHeader t h, a, tr) =
     (if length h + 1 < header_len_of t then (InHeader t (h @ [b]), a, tr)
      else complete_header e t (h @ [b]) (a, tr))"
| "feed e b (InPayload n p, a, tr) =
     (if length p + 1 < n then (InPayload n (p @ [b]), a, tr)
      else (WantType, True, accept_query e (p @ [b]) tr))"
| "feed e b (Stuck, a, tr) = (Hung, a, tr)"
| "feed e b (BadType, a, tr) = (Undefd, a, tr)"
| "feed e b (Refused, a, tr) = (Refused, a, tr)"
| "feed e b (Hung, a, tr) = (Hung, a, tr)"
| "feed e b (Undefd, a, tr) = (Undefd, a, tr)"

definition run :: "env \<Rightarrow> byte list \<Rightarrow> abs_state \<Rightarrow> abs_state" where
  "run e bs st = fold (feed e) bs st"

text \<open>The bytes the handler must keep between two receives.\<close>

fun pending :: "phase \<Rightarrow> byte list" where
  "pending (InHeader t h) = h"
| "pending _ = []"

text \<open>The peer closes its end: an incomplete header makes the handler spin.\<close>

fun at_eof :: "abs_state \<Rightarrow> (ub + event list) option" where
  "at_eof (ph, a, tr) =
     (if ph = Hung then None
      else if ph = Undefd then Some (Inl HeaderSizeIndex)
      else if pending ph \<noteq> [] then None
      else Some (Inr (tr @ (if a then [] else [Reply [zero_char]]) @ [Closed])))"

definition spec_session :: "env \<Rightarrow> byte list \<Rightarrow> (ub + event list) option" where
  "spec_session e bs = at_eof (run e bs (WantProto, False, []))"

section \<open>Runs of the automaton\<close>

lemma run_Nil [simp]: "run e [] st = st"
  and run_Cons [simp]: "run e (b # bs) st = run e bs (feed e b st)"
  and run_append: "run e (xs @ ys) st = run e ys (run e xs st)"
  by (simp_all add: run_def)

lemma run_Refused: "run e bs (Refused, a, tr) = (Refused, a, tr)"
  and run_Hung: "run e bs (Hung, a, tr) = (Hung, a, tr)"
  and run_Undefd: "run e bs (Undefd, a, tr) = (Undefd, a, tr)"
  by (induction bs) simp_all

lemma run_Stuck: "bs \<noteq> [] \<Longrightarrow> run e bs (Stuck, a, tr) = (Hung, a, tr)"
  and run_BadType: "bs \<noteq> [] \<Longrightarrow> run e bs (BadType, a, tr) = (Undefd, a, tr)"
  by (cases bs; simp add: run_Hung run_Undefd)+

lemma run_header_partial:
  "length h + length bs < header_len_of t \<Longrightarrow>
   run e bs (InHeader t h, a, tr) = (InHeader t (h @ bs), a, tr)"
  by (induction bs arbitrary: h) auto

lemma run_header_complete:
  assumes "length h + length bs = header_len_of t" "bs \<noteq> []"
  shows "run e bs (InHeader t h, a, tr) = complete_header e t (h @ bs) (a, tr)"
proof -
  obtain xs b where bs: "bs = xs @ [b]"
    using assms(2) by (metis append_butlast_last_id)
  with assms(1) have "run e xs (InHeader t h, a, tr) = (InHeader t (h @ xs), a, tr)"
    by (intro run_header_partial) simp
  with bs assms(1) show ?thesis
    by (simp add: run_append del: complete_header.simps)
qed

lemma run_payload_partial:
  "length p + length bs < n \<Longrightarrow> run e bs (InPayload n p, a, tr) = (InPayload n (p @ bs), a, tr)"
  by (induction bs arbitrary: p) auto

lemma run_payload_complete:
  assumes "length p + length bs = n" "bs \<noteq> []"
  shows "run e bs (InPayload n p, a, tr) = (WantType, True, accept_query e (p @ bs) tr)"
proof -
  obtain xs b where bs: "bs = xs @ [b]"
    using assms(2) by (metis append_butlast_last_id)
  with assms(1) have "run e xs (InPayload n p, a, tr) = (InPayload n (p @ xs), a, tr)"
    by (intro run_payload_partial) simp
  with bs assms(1) show ?thesis by (simp add: run_append)
qed

section \<open>The trace only grows\<close>

definition trace_of :: "abs_state \<Rightarrow> event list" where
  "trace_of st = snd (snd st)"

lemma feed_trace: "\<exists>evs. trace_of (feed e b st) = trace_of st @ evs"
  by (cases st; cases "fst st")
    (auto simp: trace_of_def accept_query_def answer_status_def)

lemma run_trace: "\<exists>evs. trace_of (run e bs st) = trace_of st @ evs"
proof (induction bs arbitrary: st)
  case Nil
  show ?case by simp
next
  case (Cons b bs)
  from Cons.IH [of "feed e b st"] feed_trace [of e b st] show ?case by auto
qed

section \<open>Messages\<close>

text \<open>
  What a client sends: the protocol version once, then requests. The encoding is the one the
  PHP clients produce with \<open>pack\<close> (\<open>c\<close>: the type, \<open>L\<close>: the size in the byte order of the
  machine, little endian).
\<close>

datatype request = Query "byte list" | Status

definition le32_bytes :: "nat \<Rightarrow> byte list" where
  "le32_bytes n = [word_of_nat n, word_of_nat (drop_bit 8 n), word_of_nat (drop_bit 16 n),
                   word_of_nat (drop_bit 24 n)]"

fun encode :: "request \<Rightarrow> byte list" where
  "encode (Query q) = 3 # le32_bytes (length q) @ q"
| "encode Status = 1 # le32_bytes 0"

definition client_stream :: "request list \<Rightarrow> byte list" where
  "client_stream rs = 1 # concat (map encode rs)"

fun valid_request :: "request \<Rightarrow> bool" where
  "valid_request (Query q) = (length q < 2 ^ 32)"
| "valid_request Status = True"

text \<open>What the server answers, request by request.\<close>

fun serve :: "env \<Rightarrow> request \<Rightarrow> event list \<Rightarrow> event list" where
  "serve e (Query q) tr = accept_query e q tr"
| "serve e Status tr = answer_status e tr"

lemma le32_le32_bytes:
  "le32 (word_of_nat n) (word_of_nat (drop_bit 8 n)) (word_of_nat (drop_bit 16 n))
     (word_of_nat (drop_bit 24 n)) = word_of_nat n"
proof (rule bit_word_eqI)
  fix k
  assume "k < LENGTH(32)"
  then consider "k < 8" | "8 \<le> k \<and> k < 16" | "16 \<le> k \<and> k < 24" | "24 \<le> k \<and> k < 32"
    by fastforce
  then show "bit (le32 (word_of_nat n) (word_of_nat (drop_bit 8 n)) (word_of_nat (drop_bit 16 n))
     (word_of_nat (drop_bit 24 n))) k \<longleftrightarrow> bit (word_of_nat n :: u32) k"
    by cases (auto simp: le32_def bit_simps)
qed

lemma payload_size_le32_bytes: "n < 2 ^ 32 \<Longrightarrow> payload_size_of (le32_bytes n) = n"
  by (simp add: payload_size_of_def le32_bytes_def le32_le32_bytes unat_of_nat)

lemma length_le32_bytes [simp]: "length (le32_bytes n) = 4"
  by (simp add: le32_bytes_def)

text \<open>A whole request takes the automaton from \<open>WantType\<close> back to \<open>WantType\<close>.\<close>

lemma run_header:
  assumes "0 \<le> t" "t < 4" "length h = header_len_of t" "h \<noteq> []" "sint b = t"
  shows "run e (b # h) (WantType, a, tr) = complete_header e t h (a, tr)"
  using assms run_header_complete [of "[]" h t e a tr] by simp

lemma run_encode:
  "valid_request r \<Longrightarrow> run e (encode r) (WantType, a, tr) = (WantType, True, serve e r tr)"
proof (cases r)
  case Status
  have "run e (1 # le32_bytes 0) (WantType, a, tr) = complete_header e 1 (le32_bytes 0) (a, tr)"
    by (rule run_header) (simp_all add: header_len_of_def le32_bytes_def)
  with Status show ?thesis by simp
next
  case (Query q)
  assume "valid_request r"
  with Query have n: "payload_size_of (le32_bytes (length q)) = length q"
    by (simp add: payload_size_le32_bytes)
  have "run e (3 # le32_bytes (length q)) (WantType, a, tr)
      = complete_header e 3 (le32_bytes (length q)) (a, tr)"
    by (rule run_header) (simp_all add: header_len_of_def le32_bytes_def)
  with n Query show ?thesis
    using run_append [of e "3 # le32_bytes (length q)" q "(WantType, a, tr)"]
    by (cases "q = []") (simp_all add: run_payload_complete)
qed

lemma run_requests:
  "list_all valid_request rs \<Longrightarrow>
   run e (concat (map encode rs)) (WantType, a, tr)
     = (WantType, a \<or> rs \<noteq> [], fold (serve e) rs tr)"
  by (induction rs arbitrary: a tr) (simp_all add: run_append run_encode)

lemma run_client_stream:
  "list_all valid_request rs \<Longrightarrow>
   run e (client_stream rs) (WantProto, a, tr)
     = (WantType, a \<or> rs \<noteq> [], fold (serve e) rs (tr @ [Reply [one_char]]))"
  by (simp add: client_stream_def run_requests)

end
