(* ===== verification/ChunkRefinement.thy ===== *)
theory ChunkRefinement
  imports WireProtocol
begin

text \<open>
  The client handler implements the automaton of \<open>WireProtocol\<close>, however the network cuts the
  byte stream into receives: \<open>sim\<close> relates the local variables of \<open>main\<close> to the automaton,
  \<open>inner_loop_run\<close> follows the inner loop through one buffer, \<open>main_loop_run\<close> the receive loop
  through any number of them.
\<close>

section \<open>The relation\<close>

fun phase_rel :: "phase \<Rightarrow> conn \<Rightarrow> bool" where
  "phase_rel WantProto s =
     (\<not> has_message_proto s \<and> \<not> has_message_type s \<and> \<not> has_message_header s
      \<and> payload_data s = [] \<and> \<not> stop s)"
| "phase_rel WantType s =
     (has_message_proto s \<and> \<not> has_message_type s \<and> \<not> has_message_header s
      \<and> payload_data s = [] \<and> \<not> stop s)"
| "phase_rel (InHeader t h) s =
     (has_message_proto s \<and> has_message_type s \<and> \<not> has_message_header s
      \<and> payload_data s = [] \<and> \<not> stop s
      \<and> message_type s = t \<and> 0 \<le> t \<and> t < 4 \<and> length h < header_len_of t)"
| "phase_rel (InPayload n p) s =
     (has_message_proto s \<and> has_message_type s \<and> has_message_header s
      \<and> payload_data s = p \<and> \<not> stop s
      \<and> message_type s = 3 \<and> unat (payload_data_size s) = n
      \<and> unat (payload_data_read s) = length p \<and> length p < n)"
| "phase_rel Stuck s =
     (has_message_proto s \<and> has_message_type s \<and> has_message_header s
      \<and> \<not> stop s \<and> message_type s \<noteq> 1 \<and> message_type s \<noteq> 3)"
| "phase_rel BadType s =
     (has_message_proto s \<and> has_message_type s \<and> \<not> has_message_header s
      \<and> \<not> stop s \<and> message_type s < 0)"
| "phase_rel Refused s = stop s"
| "phase_rel Hung s = False"
| "phase_rel Undefd s = False"

definition sim :: "abs_state \<Rightarrow> conn \<Rightarrow> bool" where
  "sim st s \<longleftrightarrow> phase_rel (fst st) s \<and> answered s = fst (snd st) \<and> trace s = snd (snd st)
     \<and> length (data s) = DATABUFSIZE"

text \<open>The bytes the inner loop has not read yet.\<close>

definition unread :: "nat \<Rightarrow> conn \<Rightarrow> byte list" where
  "unread n s = take (n - pos s) (drop (pos s) (data s))"

lemma unread_Nil: "n \<le> pos s \<Longrightarrow> unread n s = []"
  by (simp add: unread_def)

lemma length_unread: "n \<le> length (data s) \<Longrightarrow> length (unread n s) = n - pos s"
  by (simp add: unread_def)

lemma unread_Cons:
  "pos s < n \<Longrightarrow> n \<le> length (data s) \<Longrightarrow>
   unread n s = (data s ! pos s) # unread n (s\<lparr>pos := pos s + 1\<rparr>)"
  by (simp add: unread_def Cons_nth_drop_Suc [symmetric] take_Cons' Suc_diff_Suc)

lemma unread_split:
  assumes "pos s + k \<le> n" "data s' = data s" "pos s' = pos s + k"
  shows "unread n s = take k (drop (pos s) (data s)) @ unread n s'"
proof -
  have "n - pos s = k + (n - (pos s + k))" using assms(1) by simp
  then have "unread n s = take k (drop (pos s) (data s))
      @ take (n - (pos s + k)) (drop k (drop (pos s) (data s)))"
    unfolding unread_def by (metis take_add)
  then show ?thesis by (simp add: unread_def assms(2,3) add.commute)
qed

section \<open>The payload\<close>

lemma copy_payload_eq:
  assumes "n \<le> length (data s)"
  shows "copy_payload n s =
    (let m = min (n - pos s) (unat (payload_data_size s) - unat (payload_data_read s))
     in Inr (s\<lparr>payload_data := payload_data s @ take m (drop (pos s) (data s)),
               pos := pos s + m,
               payload_data_read := payload_data_read s + word_of_nat m\<rparr>))"
  using assms
proof (induction n s rule: copy_payload.induct)
  case (1 n s)
  show ?case
  proof (cases "pos s < n \<and> payload_data_read s < payload_data_size s")
    case True
    let ?s = "s\<lparr>payload_data := payload_data s @ [data s ! pos s], pos := pos s + 1,
                payload_data_read := payload_data_read s + 1\<rparr>"
    define m where "m = min (n - pos ?s)
      (unat (payload_data_size ?s) - unat (payload_data_read ?s))"
    have r: "unat (payload_data_read s + 1) = unat (payload_data_read s) + 1"
      using True unat_incr by blast
    have m: "min (n - pos s) (unat (payload_data_size s) - unat (payload_data_read s)) = Suc m"
      using True by (simp add: m_def r word_less_nat_alt min_def) arith
    have get: "array_get (data s) (pos s) = Some (data s ! pos s)"
      using True "1.prems" by (simp add: array_get_def)
    have "copy_payload n s = copy_payload n ?s"
      using True get by (subst copy_payload.simps) simp
    also have "\<dots> = Inr (?s\<lparr>payload_data := payload_data ?s @ take m (drop (pos ?s) (data ?s)),
               pos := pos ?s + m,
               payload_data_read := payload_data_read ?s + word_of_nat m\<rparr>)"
      using "1.IH" [OF True get] "1.prems" by (simp add: Let_def m_def)
    finally show ?thesis
      using True "1.prems" unfolding m Let_def
      by (simp add: take_Suc_conv_app_nth Cons_nth_drop_Suc [symmetric] add.assoc)
  next
    case False
    then show ?thesis
      by (subst copy_payload.simps) (auto simp: word_less_nat_alt)
  qed
qed

lemma run_payload:
  "length p < sz \<Longrightarrow> length p + length bs \<le> sz \<Longrightarrow>
   run e bs (InPayload sz p, a, tr) =
     (if length p + length bs = sz then (WantType, True, accept_query e (p @ bs) tr)
      else (InPayload sz (p @ bs), a, tr))"
  by (cases "bs = []") (auto simp: run_payload_complete run_payload_partial)

text \<open>
  \<open>case N_MYSQLDATA\<close> reads as much of the payload as the buffer holds (\<open>bs\<close>), and completes
  the message exactly when that is all of it.
\<close>

lemma do_mysqldata_sim:
  assumes flags: "has_message_proto s" "has_message_type s" "has_message_header s" "\<not> stop s"
      "message_type s = 3"
    and sizes: "unat (payload_data_size s) = sz" "payload_data s = p"
      "unat (payload_data_read s) = length p" "length p \<le> sz"
    and buf: "pos s \<le> n" "n \<le> DATABUFSIZE" "length (data s) = DATABUFSIZE"
  obtains s1 bs where "do_mysqldata e n s = Inr s1" "data s1 = data s"
    "pos s1 = pos s + length bs" "pos s1 \<le> n" "unread n s = bs @ unread n s1"
    "length p + length bs \<le> sz" "length p + length bs < sz \<longrightarrow> pos s1 = n"
    "sim (if length p + length bs = sz then (WantType, True, accept_query e (p @ bs) (trace s))
          else (InPayload sz (p @ bs), answered s, trace s)) s1"
proof -
  define m where "m = min (n - pos s) (sz - length p)"
  define bs where "bs = take m (drop (pos s) (data s))"
  define s' where "s' = s\<lparr>payload_data := p @ bs, pos := pos s + m,
    payload_data_read := payload_data_read s + word_of_nat m\<rparr>"
  have len: "length bs = m" using buf by (simp add: bs_def m_def)
  have sz32: "sz < 2 ^ 32" using sizes(1) unsigned_less [of "payload_data_size s"] by auto
  have r: "unat (payload_data_read s') = length p + m"
    using sizes sz32 by (simp add: s'_def m_def unat_word_ariths unat_of_nat)
  have copied: "(if payload_data_read s < payload_data_size s then copy_payload n s else Inr s) = Inr s'"
  proof (cases "payload_data_read s < payload_data_size s")
    case True
    then show ?thesis
      using copy_payload_eq [of n s] buf sizes by (simp add: s'_def m_def bs_def Let_def)
  next
    case False
    then have "m = 0" using sizes by (simp add: m_def word_less_nat_alt)
    with False sizes(2) show ?thesis by (simp add: s'_def bs_def)
  qed
  have done_iff: "payload_data_read s' = payload_data_size s' \<longleftrightarrow> length p + m = sz"
    using r sizes(1) by (auto simp: s'_def word_unat_eq_iff)
  let ?s1 = "if length p + m = sz then reset_message (send_reply [one_char] (push_query e s')) else s'"
  have res: "do_mysqldata e n s = Inr ?s1"
    unfolding do_mysqldata_def copied using done_iff by simp
  have d: "data ?s1 = data s" "pos ?s1 = pos s + length bs"
    by (simp_all add: s'_def reset_message_def send_reply_def push_query_def len)
  show thesis
  proof (rule that [OF res d])
    have ml: "pos s + m \<le> n" using buf by (auto simp: m_def min_def)
    then show "pos ?s1 \<le> n" unfolding d(2) len .
    show "unread n s = bs @ unread n ?s1"
      unfolding bs_def by (rule unread_split [OF ml d(1)]) (simp only: d(2) len)
    show "length p + length bs \<le> sz" using sizes(4) len by (simp add: m_def)
    show "length p + length bs < sz \<longrightarrow> pos ?s1 = n"
      unfolding d(2) len using buf by (auto simp: m_def)
    show "sim (if length p + length bs = sz then (WantType, True, accept_query e (p @ bs) (trace s))
          else (InPayload sz (p @ bs), answered s, trace s)) ?s1"
      using flags sizes buf r len
      by (auto simp: sim_def s'_def reset_message_def send_reply_def push_query_def
          accept_query_def m_def)
  qed
qed

section \<open>One iteration\<close>

text \<open>
  \<open>step_ok\<close> is what one iteration of the inner loop establishes: it goes on with less unread
  input, or breaks off in the state that the automaton reaches on all of it.
\<close>

definition step_ok :: "env \<Rightarrow> nat \<Rightarrow> conn \<Rightarrow> abs_state \<Rightarrow> ub + (ctl \<times> conn) \<Rightarrow> bool" where
  "step_ok e n s st x \<longleftrightarrow>
     (\<exists>s1 st1. x = Inr (Next, s1) \<and> data s1 = data s \<and> pos s < pos s1 \<and> pos s1 \<le> n
        \<and> sim st1 s1 \<and> pending (fst st1) = [] \<and> run e (unread n s) st = run e (unread n s1) st1)
     \<or> (\<exists>s1 st1. x = Inr (Break, s1) \<and> data s1 = data s \<and> pos s1 \<le> n
        \<and> st1 = run e (unread n s) st \<and> sim st1 s1
        \<and> (fst st1 \<noteq> Refused \<longrightarrow> unread n s1 = pending (fst st1)))"

lemma step_okI_Next:
  assumes "x = Inr (Next, s')" "data s' = data s" "pos s < pos s'" "pos s' \<le> n" "sim st' s'"
    "pending (fst st') = []" "run e (unread n s) st = run e (unread n s') st'"
  shows "step_ok e n s st x"
  unfolding step_ok_def using assms by blast

lemma step_okI_Break:
  assumes "x = Inr (Break, s')" "data s' = data s" "pos s' \<le> n" "st' = run e (unread n s) st"
    "sim st' s'" "fst st' \<noteq> Refused \<longrightarrow> unread n s' = pending (fst st')"
  shows "step_ok e n s st x"
  unfolding step_ok_def using assms by blast

lemma unread_Cons':
  assumes "sim st s" "pos s < n" "n \<le> DATABUFSIZE" "data s' = data s" "pos s' = pos s + 1"
  shows "unread n s = (data s ! pos s) # unread n s'"
  using assms unread_Cons [of s n] by (simp add: sim_def unread_def)

lemma sim_array_get:
  "sim st s \<Longrightarrow> pos s < n \<Longrightarrow> n \<le> DATABUFSIZE \<Longrightarrow>
   array_get (data s) (pos s) = Some (data s ! pos s)"
  by (simp add: sim_def array_get_def)

lemma step_proto:
  assumes "sim (WantProto, a, tr) s" "pos s < n" "n \<le> DATABUFSIZE"
  shows "step_ok e n s (WantProto, a, tr) (loop_body e n s)"
proof -
  let ?b = "data s ! pos s"
  let ?s = "s\<lparr>message_proto := sint ?b, pos := pos s + 1\<rparr>"
  note u = unread_Cons' [OF assms] and get = sim_array_get [OF assms]
  have body: "loop_body e n s = read_proto s" using assms(1) by (simp add: loop_body_def sim_def)
  show ?thesis
  proof (cases "sint ?b = 1")
    case True
    let ?s1 = "send_reply [one_char] (?s\<lparr>has_message_proto := True\<rparr>)"
    have "read_proto s = Inr (Next, ?s1)"
      using True get by (simp add: read_proto_def PROTO_VERSION_def Let_def)
    with True assms u [of ?s1] show ?thesis
      unfolding body
      by (intro step_okI_Next [where s' = ?s1 and st' = "(WantType, a, tr @ [Reply [one_char]])"])
        (simp_all add: send_reply_def sim_def)
  next
    case False
    let ?s1 = "(send_reply [zero_char] ?s)\<lparr>answered := True, stop := True\<rparr>"
    have "read_proto s = Inr (Break, ?s1)"
      using False get by (auto simp: read_proto_def PROTO_VERSION_def Let_def)
    with False assms u [of ?s1] show ?thesis
      unfolding body
      by (intro step_okI_Break [where s' = ?s1 and st' = "(Refused, True, tr @ [Reply [zero_char]])"])
        (simp_all add: send_reply_def sim_def run_Refused)
  qed
qed

lemma step_type:
  assumes "sim (WantType, a, tr) s" "pos s < n" "n \<le> DATABUFSIZE"
  shows "step_ok e n s (WantType, a, tr) (loop_body e n s)"
proof -
  let ?b = "data s ! pos s"
  let ?s1 = "(if sint ?b < 4 then s\<lparr>message_type := sint ?b, has_message_type := True\<rparr>
      else s\<lparr>message_type := sint ?b, trace := trace s @ [UnknownType (sint ?b)]\<rparr>)\<lparr>pos := pos s + 1\<rparr>"
  note u = unread_Cons' [OF assms] and get = sim_array_get [OF assms]
  have "loop_body e n s = read_type s" using assms(1) by (simp add: loop_body_def sim_def)
  also have "\<dots> = Inr (Next, ?s1)"
    using get by (simp add: read_type_def Let_def)
  finally have body: "loop_body e n s = Inr (Next, ?s1)" .
  show ?thesis
    using assms u [of ?s1]
    by (intro step_okI_Next [OF body, where st' = "feed e ?b (WantType, a, tr)"])
      (auto simp: sim_def header_len_of_def)
qed

lemma step_payload:
  assumes "sim (InPayload sz p, a, tr) s" "pos s < n" "n \<le> DATABUFSIZE"
  shows "step_ok e n s (InPayload sz p, a, tr) (loop_body e n s)"
proof -
  have flags: "has_message_proto s" "has_message_type s" "has_message_header s" "\<not> stop s"
      "message_type s = 3"
    and sizes: "unat (payload_data_size s) = sz" "payload_data s = p"
      "unat (payload_data_read s) = length p" "length p \<le> sz" "length p < sz"
    and rest: "length (data s) = DATABUFSIZE" "answered s = a" "trace s = tr"
    using assms(1) by (simp_all add: sim_def)
  obtain s1 bs where s1: "do_mysqldata e n s = Inr s1" "data s1 = data s"
    "pos s1 = pos s + length bs" "pos s1 \<le> n" "unread n s = bs @ unread n s1"
    "length p + length bs \<le> sz" "length p + length bs < sz \<longrightarrow> pos s1 = n"
    "sim (if length p + length bs = sz then (WantType, True, accept_query e (p @ bs) (trace s))
          else (InPayload sz (p @ bs), answered s, trace s)) s1"
    by (rule do_mysqldata_sim [OF flags sizes(1-4) less_imp_le [OF assms(2)] assms(3) rest(1),
          where e = e])
  have body: "loop_body e n s = Inr (Next, s1)"
    using flags s1(1) by (simp add: loop_body_def dispatch_def)
  have "run e (unread n s) (InPayload sz p, a, tr) =
      run e (unread n s1) (if length p + length bs = sz then (WantType, True, accept_query e (p @ bs) (trace s))
          else (InPayload sz (p @ bs), answered s, trace s))"
    unfolding s1(5) rest(2,3) [symmetric] run_append by (subst run_payload [OF sizes(5) s1(6)]) simp
  moreover have "pos s < pos s1"
    using s1(3,6,7) sizes(5) assms(2) by (cases "length p + length bs = sz") auto
  ultimately show ?thesis
    using s1 by (intro step_okI_Next [OF body s1(2) _ s1(4,8)]) simp_all
qed

lemma header_size_at_len: "0 \<le> t \<Longrightarrow> t < 4 \<Longrightarrow> header_size_at t = Some (header_len_of t)"
proof -
  assume "0 \<le> t" "t < 4"
  then have "t = 0 \<or> t = 1 \<or> t = 2 \<or> t = 3" by arith
  then show ?thesis by (auto simp: header_size_at_simps header_len_of_def)
qed

lemma header_len_bounds: "4 \<le> header_len_of t" "header_len_of t \<le> MAXHEADERSIZE"
  by (simp_all add: header_len_of_def MAXHEADERSIZE_def)

text \<open>A header that is complete in the buffer: what \<open>read_header\<close> makes of it.\<close>

lemma read_header_eq:
  assumes "0 \<le> message_type s" "message_type s < 4" "n \<le> DATABUFSIZE" "length (data s) = DATABUFSIZE"
    and "l = header_len_of (message_type s)" "l + pos s \<le> n"
  shows "read_header n s = Inr (Next, s\<lparr>has_message_header := True,
      payload_data_size := (let h = take l (drop (pos s) (data s))
        in le32 (h ! 0) (h ! 1) (h ! 2) (h ! 3)),
      payload_data_read := 0, pos := pos s + l\<rparr>)"
proof -
  have "header_message l s = Some (take l (drop (pos s) (data s)) @ replicate (MAXHEADERSIZE - l) 0)"
    using assms header_len_bounds(2) [of "message_type s"]
    by (simp add: header_message_def memcpy_Some)
  then show ?thesis
    using assms header_len_bounds(1) [of "message_type s"] header_size_at_len
    by (simp add: read_header_def nth_append)
qed

lemma step_header_partial:
  assumes "sim (InHeader t [], a, tr) s" "pos s < n" "n \<le> DATABUFSIZE"
    and short: "\<not> header_len_of t + pos s \<le> n"
  shows "step_ok e n s (InHeader t [], a, tr) (loop_body e n s)"
proof -
  have body: "loop_body e n s = Inr (Break, s)"
    using assms by (simp add: loop_body_def sim_def read_header_def header_size_at_len)
  have "length (unread n s) < header_len_of t"
    using assms by (simp add: sim_def length_unread)
  then have "run e (unread n s) (InHeader t [], a, tr) = (InHeader t (unread n s), a, tr)"
    using run_header_partial [of "[]"] by simp
  then show ?thesis
    using assms \<open>length (unread n s) < header_len_of t\<close>
    by (intro step_okI_Break [OF body refl _ refl]) (simp_all add: sim_def)
qed

text \<open>After a complete header \<open>h\<close> the body goes on with \<open>dispatch\<close> in the state \<open>after_header\<close>.\<close>

definition after_header :: "byte list \<Rightarrow> conn \<Rightarrow> conn" where
  "after_header h s = s\<lparr>has_message_header := True,
      payload_data_size := le32 (h ! 0) (h ! 1) (h ! 2) (h ! 3),
      payload_data_read := 0, pos := pos s + length h\<rparr>"

lemma header_complete:
  assumes sim: "sim (InHeader t [], a, tr) s" and n: "pos s < n" "n \<le> DATABUFSIZE"
    and l: "header_len_of t + pos s \<le> n"
  obtains h where "length h = header_len_of t" "h \<noteq> []" "pos s + length h \<le> n"
    "loop_body e n s =
       (case dispatch e n (after_header h s) of Inl u \<Rightarrow> Inl u | Inr s \<Rightarrow> Inr (Next, s))"
    "run e (unread n s) (InHeader t [], a, tr)
       = run e (unread n (after_header h s)) (complete_header e t h (a, tr))"
proof -
  define h where "h = take (header_len_of t) (drop (pos s) (data s))"
  have t: "message_type s = t" "0 \<le> t" "t < 4" and len: "length (data s) = DATABUFSIZE"
    using sim by (simp_all add: sim_def)
  have lh: "length h = header_len_of t" "h \<noteq> []"
    using l n len header_len_bounds(1) [of t] by (auto simp: h_def)
  have "read_header n s = Inr (Next, after_header h s)"
    using read_header_eq [of s n "header_len_of t"] t len n l lh
    by (simp add: after_header_def h_def Let_def)
  then have body: "loop_body e n s =
      (case dispatch e n (after_header h s) of Inl u \<Rightarrow> Inl u | Inr s \<Rightarrow> Inr (Next, s))"
    using sim by (simp add: loop_body_def sim_def)
  have u: "unread n s = h @ unread n (after_header h s)"
    using unread_split [of s "header_len_of t" n "after_header h s"] l lh
    by (simp add: after_header_def h_def add.commute)
  have "run e h (InHeader t [], a, tr) = complete_header e t h (a, tr)"
    using run_header_complete [of "[]" h t e a tr] lh by simp
  then have "run e (unread n s) (InHeader t [], a, tr)
      = run e (unread n (after_header h s)) (complete_header e t h (a, tr))"
    by (simp add: u run_append del: complete_header.simps)
  with lh l body show thesis by (intro that [of h]) simp_all
qed

lemma step_header_status:
  assumes "sim (InHeader 1 [], a, tr) s" "pos s < n" "n \<le> DATABUFSIZE"
    and "header_len_of 1 + pos s \<le> n"
  shows "step_ok e n s (InHeader 1 [], a, tr) (loop_body e n s)"
proof -
  obtain h where h: "length h = header_len_of 1" "h \<noteq> []" "pos s + length h \<le> n"
    "loop_body e n s =
       (case dispatch e n (after_header h s) of Inl u \<Rightarrow> Inl u | Inr s \<Rightarrow> Inr (Next, s))"
    "run e (unread n s) (InHeader 1 [], a, tr)
       = run e (unread n (after_header h s)) (complete_header e 1 h (a, tr))"
    by (rule header_complete [OF assms])
  let ?s = "do_status e (after_header h s)"
  have b: "loop_body e n s = Inr (Next, ?s)"
    using assms(1) h(4) by (simp add: dispatch_def after_header_def sim_def)
  have d: "data ?s = data s" "pos ?s = pos s + length h" "unread n ?s = unread n (after_header h s)"
    by (simp_all add: do_status_def reset_message_def send_reply_def after_header_def unread_def)
  have "run e (unread n s) (InHeader 1 [], a, tr)
      = run e (unread n ?s) (WantType, True, answer_status e tr)"
    unfolding h(5) d(3) by simp
  moreover have "sim (WantType, True, answer_status e tr) ?s"
    using assms(1) by (simp add: sim_def do_status_def reset_message_def send_reply_def
        after_header_def answer_status_def)
  ultimately show ?thesis
    using d h(2,3) by (intro step_okI_Next [OF b]) simp_all
qed

lemma step_header_query:
  assumes "sim (InHeader 3 [], a, tr) s" "pos s < n" "n \<le> DATABUFSIZE"
    and "header_len_of 3 + pos s \<le> n"
  shows "step_ok e n s (InHeader 3 [], a, tr) (loop_body e n s)"
proof -
  obtain h where h: "length h = header_len_of 3" "h \<noteq> []" "pos s + length h \<le> n"
    "loop_body e n s =
       (case dispatch e n (after_header h s) of Inl u \<Rightarrow> Inl u | Inr s \<Rightarrow> Inr (Next, s))"
    "run e (unread n s) (InHeader 3 [], a, tr)
       = run e (unread n (after_header h s)) (complete_header e 3 h (a, tr))"
    by (rule header_complete [OF assms])
  let ?s = "after_header h s" and ?sz = "payload_size_of h"
  have flags: "has_message_proto ?s" "has_message_type ?s" "has_message_header ?s" "\<not> stop ?s"
    "message_type ?s = 3"
    and sizes: "unat (payload_data_size ?s) = ?sz" "payload_data ?s = []"
      "unat (payload_data_read ?s) = length []" "length ([] :: byte list) \<le> ?sz"
    and rest: "pos ?s \<le> n" "length (data ?s) = DATABUFSIZE" "trace ?s = tr" "answered ?s = a"
    using assms(1) h(3) by (simp_all add: sim_def after_header_def payload_size_of_def)
  obtain s1 bs where s1: "do_mysqldata e n ?s = Inr s1" "data s1 = data ?s"
    "pos s1 = pos ?s + length bs" "pos s1 \<le> n" "unread n ?s = bs @ unread n s1"
    "length ([] :: byte list) + length bs \<le> ?sz"
    "length ([] :: byte list) + length bs < ?sz \<longrightarrow> pos s1 = n"
    "sim (if length ([] :: byte list) + length bs = ?sz
          then (WantType, True, accept_query e ([] @ bs) (trace ?s))
          else (InPayload ?sz ([] @ bs), answered ?s, trace ?s)) s1"
    by (rule do_mysqldata_sim [OF flags sizes rest(1) assms(3) rest(2), where e = e])
  have b: "loop_body e n s = Inr (Next, s1)"
    using assms(1) h(4) s1(1) flags(5) by (simp add: dispatch_def)
  have "run e bs (complete_header e 3 h (a, tr)) =
      (if length bs = ?sz then (WantType, True, accept_query e bs tr) else (InPayload ?sz bs, a, tr))"
    using s1(6) run_payload [of "[]" ?sz bs e a tr] by auto
  then have "run e (unread n s) (InHeader 3 [], a, tr) = run e (unread n s1)
      (if length ([] :: byte list) + length bs = ?sz
          then (WantType, True, accept_query e ([] @ bs) (trace ?s))
          else (InPayload ?sz ([] @ bs), answered ?s, trace ?s))"
    by (simp add: h(5) s1(5) run_append rest del: complete_header.simps)
  then show ?thesis
    using s1 h(2) by (intro step_okI_Next [OF b _ _ s1(4,8)]) (simp_all add: after_header_def)
qed

lemma step_header_other:
  assumes "sim (InHeader t [], a, tr) s" "pos s < n" "n \<le> DATABUFSIZE"
    and "header_len_of t + pos s \<le> n" and "t \<noteq> 1" "t \<noteq> 3"
  shows "step_ok e n s (InHeader t [], a, tr) (loop_body e n s)"
proof -
  obtain h where h: "length h = header_len_of t" "h \<noteq> []" "pos s + length h \<le> n"
    "loop_body e n s =
       (case dispatch e n (after_header h s) of Inl u \<Rightarrow> Inl u | Inr s \<Rightarrow> Inr (Next, s))"
    "run e (unread n s) (InHeader t [], a, tr)
       = run e (unread n (after_header h s)) (complete_header e t h (a, tr))"
    by (rule header_complete [OF assms(1-4)])
  have b: "loop_body e n s = Inr (Next, after_header h s)"
    using assms h(4) by (simp add: dispatch_def after_header_def sim_def)
  show ?thesis
    using assms h by (intro step_okI_Next [OF b, where st' = "(Stuck, a, tr)"])
      (simp_all add: sim_def after_header_def)
qed

lemma step_header_complete:
  assumes "sim (InHeader t [], a, tr) s" "pos s < n" "n \<le> DATABUFSIZE"
    and "header_len_of t + pos s \<le> n"
  shows "step_ok e n s (InHeader t [], a, tr) (loop_body e n s)"
  using assms step_header_status step_header_query step_header_other [OF assms]
  by (cases "t = 1"; cases "t = 3") auto

section \<open>The inner loop\<close>

text \<open>
  After the header of \<open>N_CONNECT\<close> or \<open>N_CONTROL\<close> the body changes nothing, so with one more
  byte in the buffer the loop never ends.
\<close>

lemma loop_body_stuck: "phase_rel Stuck s \<Longrightarrow> loop_body e n s = Inr (Next, s)"
  by (simp add: loop_body_def dispatch_def)

lemma inner_loop_stuck:
  assumes "phase_rel Stuck s" "pos s < n"
  shows "inner_loop e n s = None"
proof (rule ccontr)
  assume "inner_loop e n s \<noteq> None"
  then obtain r where "inner_loop e n s = Some r" by auto
  then have "\<not> (phase_rel Stuck s \<and> pos s < n)"
  proof (rule inner_loop.raw_induct [where P = "\<lambda>e n s r. \<not> (phase_rel Stuck s \<and> pos s < n)", rotated])
    fix f e n s r
    assume IH: "\<And>e n s r. f e n s = Some r \<Longrightarrow> \<not> (phase_rel Stuck s \<and> pos s < n)"
      and eq: "(if pos s < n \<and> \<not> stop s then
        (case loop_body e n s of
           Inl u \<Rightarrow> Some (Inl u)
         | Inr (c, s') \<Rightarrow> (case c of Break \<Rightarrow> Some (Inr s') | Next \<Rightarrow> f e n s'))
      else Some (Inr s)) = Some r"
    show "\<not> (phase_rel Stuck s \<and> pos s < n)"
    proof
      assume st: "phase_rel Stuck s \<and> pos s < n"
      then have "f e n s = Some r" using eq loop_body_stuck [of s e n] by simp
      from IH [OF this] st show False by simp
    qed
  qed
  with assms show False by simp
qed

lemma inner_loop_bad_type:
  "phase_rel BadType s \<Longrightarrow> pos s < n \<Longrightarrow> inner_loop e n s = Some (Inl HeaderSizeIndex)"
  by (subst inner_loop.simps) (simp add: loop_body_def read_header_def header_size_at_simps)

definition inner_ok :: "nat \<Rightarrow> conn \<Rightarrow> abs_state \<Rightarrow> (ub + conn) option \<Rightarrow> bool" where
  "inner_ok n s st x \<longleftrightarrow>
     (if fst st = Hung then x = None
      else if fst st = Undefd then x = Some (Inl HeaderSizeIndex)
      else \<exists>s'. x = Some (Inr s') \<and> sim st s' \<and> data s' = data s \<and> pos s' \<le> n
             \<and> (fst st \<noteq> Refused \<longrightarrow> unread n s' = pending (fst st)))"

lemma inner_ok_data: "data s1 = data s \<Longrightarrow> inner_ok n s1 = inner_ok n s"
  by (intro ext) (simp add: inner_ok_def)

text \<open>The phases in which an iteration makes progress.\<close>

lemma loop_body_progress:
  assumes "sim st s" "pending (fst st) = []" "pos s < n" "n \<le> DATABUFSIZE"
    and "fst st \<noteq> Stuck" "fst st \<noteq> BadType" "fst st \<noteq> Refused"
  shows "step_ok e n s st (loop_body e n s)"
proof -
  obtain ph a tr where st: "st = (ph, a, tr)" by (cases st)
  show ?thesis
  proof (cases ph)
    case (InHeader t h)
    with assms st show ?thesis
      by (cases "header_len_of t + pos s \<le> n")
        (auto intro: step_header_complete step_header_partial)
  qed (use assms st in \<open>auto intro: step_proto step_type step_payload simp: sim_def\<close>)
qed

text \<open>When the loop's condition is false the automaton has nothing to read.\<close>

lemma inner_loop_done:
  assumes "sim st s" "pending (fst st) = []" "pos s \<le> n" "\<not> (pos s < n \<and> \<not> stop s)"
  shows "inner_ok n s (run e (unread n s) st) (inner_loop e n s)"
proof -
  obtain ph a tr where st: "st = (ph, a, tr)" by (cases st)
  have x: "inner_loop e n s = Some (Inr s)" using assms(4) by (subst inner_loop.simps) auto
  have "run e (unread n s) st = st"
  proof (cases "pos s < n")
    case True
    with assms(1,4) st have "ph = Refused" by (cases ph) (auto simp: sim_def)
    with st show ?thesis by (simp add: run_Refused)
  qed (simp add: unread_Nil)
  with x assms st show ?thesis by (cases ph) (auto simp: inner_ok_def sim_def unread_Nil)
qed

text \<open>A body that made progress hands the rest of the buffer to the next iteration.\<close>

lemma inner_loop_step:
  assumes "step_ok e n s st (loop_body e n s)" "pos s < n" "\<not> stop s"
    and next_it: "\<And>s1 st1. n - pos s1 < n - pos s \<Longrightarrow> sim st1 s1 \<Longrightarrow> pending (fst st1) = [] \<Longrightarrow>
      pos s1 \<le> n \<Longrightarrow> inner_ok n s1 (run e (unread n s1) st1) (inner_loop e n s1)"
  shows "inner_ok n s (run e (unread n s) st) (inner_loop e n s)"
  using assms(1) unfolding step_ok_def
proof (elim disjE exE conjE)
  fix s1 st1
  assume s1: "loop_body e n s = Inr (Next, s1)" "data s1 = data s" "pos s < pos s1" "pos s1 \<le> n"
    "sim st1 s1" "pending (fst st1) = []" "run e (unread n s) st = run e (unread n s1) st1"
  then have "inner_loop e n s = inner_loop e n s1"
    using assms(2,3) by (subst inner_loop.simps) simp
  moreover have "inner_ok n s1 (run e (unread n s1) st1) (inner_loop e n s1)"
    using s1 assms(2) by (intro next_it) auto
  ultimately show ?thesis using s1 inner_ok_data [OF s1(2)] by simp
next
  fix s1 st1
  assume s1: "loop_body e n s = Inr (Break, s1)" "data s1 = data s" "pos s1 \<le> n"
    "st1 = run e (unread n s) st" "sim st1 s1"
    "fst st1 \<noteq> Refused \<longrightarrow> unread n s1 = pending (fst st1)"
  then have "inner_loop e n s = Some (Inr s1)"
    using assms(2,3) by (subst inner_loop.simps) simp
  moreover have "fst st1 \<noteq> Hung" "fst st1 \<noteq> Undefd" using s1(5) by (auto simp: sim_def)
  ultimately show ?thesis using s1 by (simp add: inner_ok_def)
qed

lemma inner_loop_run:
  assumes "sim st s" "pending (fst st) = []" "pos s \<le> n" "n \<le> DATABUFSIZE"
  shows "inner_ok n s (run e (unread n s) st) (inner_loop e n s)"
  using assms
proof (induction "n - pos s" arbitrary: s st rule: less_induct)
  case less
  obtain ph a tr where st: "st = (ph, a, tr)" by (cases st)
  show ?case
  proof (cases "pos s < n \<and> \<not> stop s")
    case False
    with less.prems show ?thesis by (intro inner_loop_done)
  next
    case True
    then have u: "unread n s \<noteq> []"
      using less.prems unread_Cons [of s n] by (simp add: sim_def)
    consider "ph = Stuck" | "ph = BadType" | "ph \<noteq> Stuck" "ph \<noteq> BadType" "ph \<noteq> Refused"
      using True less.prems(1) st by (cases ph) (auto simp: sim_def)
    then show ?thesis
    proof cases
      case 1
      with True less.prems u st show ?thesis
        by (simp add: inner_ok_def run_Stuck inner_loop_stuck sim_def)
    next
      case 2
      with True less.prems u st show ?thesis
        by (simp add: inner_ok_def run_BadType inner_loop_bad_type sim_def)
    next
      case 3
      then have "step_ok e n s st (loop_body e n s)"
        using less.prems True st by (intro loop_body_progress) auto
      then show ?thesis
      proof (rule inner_loop_step)
        show "pos s < n" "\<not> stop s" using True by simp_all
      qed (rule less.hyps [OF _ _ _ _ less.prems(4)])
    qed
  qed
qed

section \<open>One receive\<close>

definition carried :: "abs_state \<Rightarrow> conn \<Rightarrow> bool" where
  "carried st s \<longleftrightarrow> sim st s
     \<and> (fst st \<noteq> Refused \<longrightarrow> leftoversize s = length (pending (fst st))
                          \<and> take (leftoversize s) (data s) = pending (fst st))"

lemma carry_over_run:
  assumes "sim st s" "pos s \<le> n" "n \<le> DATABUFSIZE"
    and "fst st \<noteq> Refused \<longrightarrow> unread n s = pending (fst st)"
  obtains s' where "carry_over n s = Inr s'" "carried st s'"
proof
  let ?d = "take (n - pos s) (drop (pos s) (data s)) @ drop (n - pos s) (data s)"
  have len: "length (data s) = DATABUFSIZE" using assms(1) by (simp add: sim_def)
  show "carry_over n s = Inr (s\<lparr>leftoversize := n - pos s, data := ?d\<rparr>)"
    using assms(2,3) len by (simp add: carry_over_def memcpy_def Let_def)
  have "phase_rel (fst st) (s\<lparr>leftoversize := n - pos s, data := ?d\<rparr>)"
    using assms(1) by (cases "fst st") (simp_all add: sim_def)
  moreover have "length (unread n s) = n - pos s" using assms(3) len by (simp add: length_unread)
  then have "take (n - pos s) ?d = unread n s" "n - pos s = length (unread n s)"
    by (simp_all add: unread_def)
  ultimately show "carried st (s\<lparr>leftoversize := n - pos s, data := ?d\<rparr>)"
    using assms len by (simp add: carried_def sim_def)
qed

fun rewind :: "abs_state \<Rightarrow> abs_state" where
  "rewind (InHeader t h, a, tr) = (InHeader t [], a, tr)"
| "rewind st = st"

lemma run_rewind: "sim st s \<Longrightarrow> run e (pending (fst st) @ bs) (rewind st) = run e bs st"
  by (cases st rule: rewind.cases) (simp_all add: run_append run_header_partial sim_def)

lemma sim_rewind:
  "sim st s \<Longrightarrow> length d = DATABUFSIZE \<Longrightarrow> sim (rewind st) (s\<lparr>data := d, pos := p\<rparr>)"
  by (cases st rule: rewind.cases) (auto simp: sim_def)

lemma pending_rewind: "pending (fst (rewind st)) = []"
  by (cases st rule: rewind.cases) simp_all

lemma length_pending: "sim st s \<Longrightarrow> length (pending (fst st)) < MAXHEADERSIZE"
  using header_len_bounds(2) by (cases "fst st") (auto simp: sim_def MAXHEADERSIZE_def
      dest: less_le_trans)

text \<open>
  A receive puts its bytes behind the pending ones, and the inner loop starts on all of them.
\<close>

lemma recv_buffered:
  assumes c: "carried st s" "fst st \<noteq> Refused" and bs: "length bs < BUFSIZE"
  obtains d where "memcpy (data s) (leftoversize s) (recv_buffer (Received bs)) BUFSIZE = Some d"
    "length d = DATABUFSIZE" "length bs + leftoversize s \<le> DATABUFSIZE"
    "unread (length bs + leftoversize s) (s\<lparr>data := d, pos := 0\<rparr>) = pending (fst st) @ bs"
    "sim (rewind st) (s\<lparr>data := d, pos := 0\<rparr>)"
proof -
  let ?k = "leftoversize s"
  have sim: "sim st s" and k: "?k = length (pending (fst st))" "take ?k (data s) = pending (fst st)"
    using c unfolding carried_def by blast+
  then have k10: "?k < MAXHEADERSIZE" using length_pending by simp
  define d where "d = take ?k (data s) @ recv_buffer (Received bs) @ drop (?k + BUFSIZE) (data s)"
  have cp: "memcpy (data s) ?k (recv_buffer (Received bs)) BUFSIZE = Some d"
    using k10 bs sim by (simp add: memcpy_def d_def sim_def buffer_sizes)
  then have dl: "length d = DATABUFSIZE" using sim by (auto dest: memcpy_length simp: sim_def)
  show thesis
  proof (rule that [OF cp dl _ _ sim_rewind [OF sim dl]])
    show "length bs + ?k \<le> DATABUFSIZE" using k10 bs by (simp add: buffer_sizes)
    show "unread (length bs + ?k) (s\<lparr>data := d, pos := 0\<rparr>) = pending (fst st) @ bs"
      using k bs by (simp add: unread_def d_def)
  qed
qed

lemma on_recv_run:
  assumes c: "carried st s" "fst st \<noteq> Refused" and bs: "bs \<noteq> []" "length bs < BUFSIZE"
  shows "case fst (run e bs st) of
           Hung \<Rightarrow> on_recv e (Received bs) s = None
         | Undefd \<Rightarrow> on_recv e (Received bs) s = Some (Inl HeaderSizeIndex)
         | _ \<Rightarrow> \<exists>s'. on_recv e (Received bs) s = Some (Inr s') \<and> carried (run e bs st) s'"
proof -
  let ?k = "leftoversize s"
  let ?n = "length bs + ?k"
  have sim: "sim st s" using c by (simp add: carried_def)
  obtain d where cp: "memcpy (data s) ?k (recv_buffer (Received bs)) BUFSIZE = Some d"
    and n: "?n \<le> DATABUFSIZE"
    and u: "unread ?n (s\<lparr>data := d, pos := 0\<rparr>) = pending (fst st) @ bs"
    and re: "sim (rewind st) (s\<lparr>data := d, pos := 0\<rparr>)"
    using recv_buffered [OF c bs(2)] by blast
  let ?s = "s\<lparr>data := d, pos := 0\<rparr>"
  have io: "inner_ok ?n ?s (run e bs st) (inner_loop e ?n ?s)"
    using inner_loop_run [OF re pending_rewind, of ?n e] n by (simp add: u run_rewind [OF sim])
  have on: "on_recv e (Received bs) s =
     (case inner_loop e ?n ?s of None \<Rightarrow> None | Some (Inl u) \<Rightarrow> Some (Inl u)
      | Some (Inr s') \<Rightarrow> Some (carry_over ?n s'))"
  proof -
    have "recv_ret (Received bs) + int ?k = int ?n" "0 < int ?n"
      using bs(1) by (simp, cases bs) simp_all
    then show ?thesis unfolding on_recv_def Let_def by (simp only: cp nat_int if_True option.case)
  qed
  have fin: "\<exists>s'. on_recv e (Received bs) s = Some (Inr s') \<and> carried (run e bs st) s'"
    if good: "fst (run e bs st) \<noteq> Hung" "fst (run e bs st) \<noteq> Undefd"
  proof -
    obtain s1 where s1: "inner_loop e ?n ?s = Some (Inr s1)" "sim (run e bs st) s1" "pos s1 \<le> ?n"
      "fst (run e bs st) \<noteq> Refused \<longrightarrow> unread ?n s1 = pending (fst (run e bs st))"
      using io good by (auto simp: inner_ok_def)
    from carry_over_run [OF s1(2,3) n s1(4)]
    obtain s2 where "carry_over ?n s1 = Inr s2" "carried (run e bs st) s2" .
    with s1(1) show ?thesis by (simp add: on)
  qed
  show ?thesis
    using io fin on by (auto simp: inner_ok_def split: phase.split)
qed

section \<open>The receive loop\<close>

text \<open>What \<open>recv\<close> can deliver before the peer closes: between one byte and a full buffer.\<close>

definition legal_chunk :: "byte list \<Rightarrow> bool" where
  "legal_chunk c \<longleftrightarrow> c \<noteq> [] \<and> length c < BUFSIZE"

lemma not_stopped: "sim st s \<Longrightarrow> fst st \<noteq> Refused \<Longrightarrow> \<not> stop s"
  by (cases "fst st") (auto simp: sim_def)

lemma main_loop_stopped: "stop s \<Longrightarrow> main_loop e rs s = Some (Inr s)"
  by (subst main_loop.simps) simp

lemma main_loop_run:
  assumes "carried st s" "list_all legal_chunk cs"
  shows "case fst (run e (concat cs) st) of
           Hung \<Rightarrow> main_loop e (map Received cs @ rs) s = None
         | Undefd \<Rightarrow> main_loop e (map Received cs @ rs) s = Some (Inl HeaderSizeIndex)
         | Refused \<Rightarrow> \<exists>s'. main_loop e (map Received cs @ rs) s = Some (Inr s')
                          \<and> sim (run e (concat cs) st) s'
         | _ \<Rightarrow> \<exists>s'. main_loop e (map Received cs @ rs) s = main_loop e rs s'
                    \<and> carried (run e (concat cs) st) s'"
  using assms
proof (induction cs arbitrary: st s)
  case Nil
  then show ?case
    using main_loop_stopped [of s e rs] by (auto simp: carried_def sim_def split: phase.split)
next
  case (Cons c cs)
  have sim: "sim st s" using Cons.prems(1) by (simp add: carried_def)
  obtain ph a tr where st: "st = (ph, a, tr)" by (cases st)
  show ?case
  proof (cases "fst st = Refused")
    case True
    with sim st have "stop s" by (simp add: sim_def)
    with True sim st show ?thesis by (simp add: run_Refused main_loop_stopped)
  next
    case False
    let ?st = "run e c st"
    have ns: "\<not> stop s" using sim False by (rule not_stopped)
    have on: "case fst ?st of Hung \<Rightarrow> on_recv e (Received c) s = None
         | Undefd \<Rightarrow> on_recv e (Received c) s = Some (Inl HeaderSizeIndex)
         | _ \<Rightarrow> \<exists>s'. on_recv e (Received c) s = Some (Inr s') \<and> carried ?st s'"
      using Cons.prems False by (intro on_recv_run) (simp_all add: legal_chunk_def)
    have step: "main_loop e (map Received (c # cs) @ rs) s =
      (case on_recv e (Received c) s of None \<Rightarrow> None
       | Some x \<Rightarrow> (case x of Inl u \<Rightarrow> Some (Inl u)
                    | Inr s' \<Rightarrow> main_loop e (map Received cs @ rs) s'))"
      using ns by (subst main_loop.simps)
        (simp add: next_recv_def cong: option.case_cong sum.case_cong)
    have all: "run e (concat (c # cs)) st = run e (concat cs) ?st" by (simp add: run_append)
    show ?thesis
    proof (cases "fst ?st = Hung \<or> fst ?st = Undefd")
      case True
      then show ?thesis
        using on unfolding all step by (cases ?st) (auto simp: run_Hung run_Undefd)
    next
      case False
      then obtain s' where s': "on_recv e (Received c) s = Some (Inr s')" "carried ?st s'"
        using on by (cases "fst ?st") auto
      have "list_all legal_chunk cs" using Cons.prems(2) by simp
      moreover have "main_loop e (map Received (c # cs) @ rs) s
          = main_loop e (map Received cs @ rs) s'"
        using step s'(1) by simp
      ultimately show ?thesis unfolding all using Cons.IH [OF s'(2)] by (simp only:)
    qed
  qed
qed

section \<open>The end of the stream\<close>

lemma main_loop_eof:
  assumes "carried st s" "fst st \<noteq> Refused" "pending (fst st) = []"
  shows "main_loop e [] s = Some (Inr (s\<lparr>stop := True\<rparr>))"
proof -
  have "\<not> stop s" "leftoversize s = 0"
    using assms not_stopped [of st s] by (auto simp: carried_def)
  moreover from this have "on_recv e (Received []) s = Some (Inr (s\<lparr>stop := True\<rparr>))"
    by (simp add: on_recv_def)
  ultimately show ?thesis
    by (subst main_loop.simps) (simp add: next_recv_def main_loop_stopped)
qed

text \<open>
  With the beginning \<open>h\<close> of a header still in \<open>data\<close>, a \<open>recv\<close> that brings nothing leaves
  \<open>numbytes\<close> positive, so the loop goes round again: with all of \<open>h\<close> when the peer has closed
  (\<open>recv\<close> returns 0), with its last byte lost after an error (\<open>recv\<close> returns -1).
\<close>

lemma on_recv_short:
  assumes c: "carried (InHeader t h, a, tr) s"
    and n: "recv_ret r + int (length h) = int n" "0 < n" "n \<le> length h"
    and z: "recv_buffer r = replicate BUFSIZE 0"
  obtains s' where "on_recv e r s = Some (Inr s')" "carried (InHeader t (take n h), a, tr) s'"
proof -
  have sim: "sim (InHeader t h, a, tr) s" and k: "leftoversize s = length h"
    "take (leftoversize s) (data s) = h"
    using c unfolding carried_def by auto
  have k10: "length h < header_len_of t" "length h < MAXHEADERSIZE"
    using sim length_pending [OF sim] by (simp_all add: sim_def)
  define d where "d = h @ replicate BUFSIZE 0 @ drop (length h + BUFSIZE) (data s)"
  have cp: "memcpy (data s) (leftoversize s) (recv_buffer r) BUFSIZE = Some d"
    using k10 sim k unfolding z k(1) by (simp add: memcpy_def d_def sim_def buffer_sizes)
  have dl: "length d = DATABUFSIZE" using memcpy_length [OF cp] sim by (simp add: sim_def)
  let ?s = "s\<lparr>data := d, pos := 0\<rparr>"
  have "loop_body e n ?s = Inr (Break, ?s)"
    using sim k10 n by (simp add: loop_body_def sim_def read_header_def header_size_at_len)
  then have il: "inner_loop e n ?s = Some (Inr ?s)"
    using n sim by (subst inner_loop.simps) (simp add: sim_def)
  have "on_recv e r s = Some (carry_over n ?s)"
    unfolding on_recv_def Let_def k(1) n(1)
    using n(2) cp il by (simp only: k(1) nat_int if_True option.case sum.case of_nat_0_less_iff)
  moreover have "carry_over n ?s = Inr (?s\<lparr>leftoversize := n\<rparr>)"
    using dl k10 n by (simp add: carry_over_def memcpy_def buffer_sizes Let_def)
  moreover have "carried (InHeader t (take n h), a, tr) (?s\<lparr>leftoversize := n\<rparr>)"
    using sim n dl by (simp add: carried_def sim_def d_def)
  ultimately show thesis using that by simp
qed

definition mid_header :: "conn \<Rightarrow> bool" where
  "mid_header s \<longleftrightarrow> (\<exists>t h a tr. h \<noteq> [] \<and> carried (InHeader t h, a, tr) s)"

lemma on_recv_closed:
  assumes "mid_header s"
  obtains s' where "on_recv e (Received []) s = Some (Inr s')" "mid_header s'"
proof -
  obtain t h a tr where h: "h \<noteq> []" and c: "carried (InHeader t h, a, tr) s"
    using assms by (auto simp: mid_header_def)
  obtain s' where "on_recv e (Received []) s = Some (Inr s')"
    "carried (InHeader t (take (length h) h), a, tr) s'"
    by (rule on_recv_short [OF c, of "Received []" "length h" e]) (use h in simp_all)
  with h that show thesis by (auto simp: mid_header_def)
qed

lemma main_loop_spin:
  assumes "mid_header s"
  shows "main_loop e [] s = None"
proof (rule ccontr)
  assume "main_loop e [] s \<noteq> None"
  then obtain r where "main_loop e [] s = Some r" by auto
  then have "\<not> (([] :: recv_result list) = [] \<and> mid_header s)"
  proof (rule main_loop.raw_induct [where P = "\<lambda>e rs s r. \<not> (rs = [] \<and> mid_header s)", rotated])
    fix f e rs s r
    assume IH: "\<And>e rs s r. f e rs s = Some r \<Longrightarrow> \<not> (rs = [] \<and> mid_header s)"
      and eq: "(if \<not> stop s then
        (case on_recv e (next_recv rs) s of
           None \<Rightarrow> None
         | Some x \<Rightarrow> (case x of Inl u \<Rightarrow> Some (Inl u) | Inr s' \<Rightarrow> f e (tl rs) s'))
      else Some (Inr s)) = Some r"
    show "\<not> (rs = [] \<and> mid_header s)"
    proof
      assume mh: "rs = [] \<and> mid_header s"
      then obtain s' where s': "on_recv e (Received []) s = Some (Inr s')" "mid_header s'"
        using on_recv_closed by blast
      have "\<not> stop s" using mh by (auto simp: mid_header_def carried_def sim_def)
      with eq mh s'(1) have "f e [] s' = Some r" by (simp add: next_recv_def)
      from IH [OF this] s'(2) show False by simp
    qed
  qed
  with assms show False by simp
qed

end
