(* ===== verification/ClientSession.thy ===== *)
theory ClientSession
  imports ChunkRefinement
begin

text \<open>
  What the refinement of \<open>ChunkRefinement\<close> gives for whole client sessions
  (\<open>GearStreamClientHandler::main\<close>): the handler is the protocol automaton, requests are
  answered and queued in order, memory is safe for every sequence of \<open>recv\<close> results, and the
  inputs that make the handler spin or leave its header size table.
\<close>

section \<open>The interface: a handler that does not see chunk boundaries\<close>

locale chunked_handler =
  fixes handler :: "byte list list \<Rightarrow> 'r"
    and spec :: "byte list \<Rightarrow> 'r"
  assumes refines: "list_all legal_chunk cs \<Longrightarrow> handler cs = spec (concat cs)"
begin

lemma chunking_irrelevant:
  "list_all legal_chunk cs \<Longrightarrow> list_all legal_chunk cs' \<Longrightarrow> concat cs = concat cs' \<Longrightarrow>
   handler cs = handler cs'"
  by (simp add: refines)

text \<open>Whatever holds of every stream's specification holds of every session.\<close>

lemma transfer: "(\<And>bs. P bs (spec bs)) \<Longrightarrow> list_all legal_chunk cs \<Longrightarrow> P (concat cs) (handler cs)"
  by (simp add: refines)

lemma handler_eqI:
  "list_all legal_chunk cs \<Longrightarrow> concat cs = bs \<Longrightarrow> spec bs = r \<Longrightarrow> handler cs = r"
  by (simp add: refines)

end

lemma carried_init: "carried (WantProto, False, []) init_conn"
  by (simp add: carried_def sim_def init_conn_def)

text \<open>From any state the relation allows, the rest of the session follows the automaton.\<close>

definition result :: "(ub + conn) option \<Rightarrow> (ub + event list) option" where
  "result x = map_option (map_sum id finish) x"

lemma handler_main_result: "handler_main e rs = result (main_loop e rs init_conn)"
  by (auto simp: handler_main_def result_def split: option.split sum.split)

lemma session_from:
  assumes c: "carried st0 s0" and cs: "list_all legal_chunk cs"
  shows "result (main_loop e (map Received cs) s0) = at_eof (run e (concat cs) st0)"
proof -
  obtain ph a tr where st: "run e (concat cs) st0 = (ph, a, tr)"
    by (cases "run e (concat cs) st0")
  have fin: "finish s = tr @ (if a then [] else [Reply [zero_char]]) @ [Closed]"
    if "answered s = a" "trace s = tr" for s
    using that by (simp add: finish_def send_reply_def)
  note run = main_loop_run [OF c cs, of e "[]", unfolded st, simplified]
  consider "ph = Hung" | "ph = Undefd" | "ph = Refused"
    | "ph \<noteq> Hung" "ph \<noteq> Undefd" "ph \<noteq> Refused" by blast
  then show ?thesis
  proof cases
    case 3
    with run obtain s where "main_loop e (map Received cs) s0 = Some (Inr s)"
      "sim (ph, a, tr) s" by auto
    with 3 fin show ?thesis by (simp add: result_def st sim_def)
  next
    case 4
    with run obtain s where s: "main_loop e (map Received cs) s0 = main_loop e [] s"
      "carried (ph, a, tr) s" by (cases ph) auto
    then have at: "answered s = a" "trace s = tr" by (simp_all add: carried_def sim_def)
    show ?thesis
    proof (cases "pending ph = []")
      case True
      with 4 s have "main_loop e [] s = Some (Inr (s\<lparr>stop := True\<rparr>))"
        by (intro main_loop_eof) auto
      with True 4 s(1) fin [of "s\<lparr>stop := True\<rparr>"] at show ?thesis by (simp add: result_def st)
    next
      case False
      then obtain t h where "ph = InHeader t h" "h \<noteq> []" by (cases ph) auto
      with s(2) have "main_loop e [] s = None"
        by (intro main_loop_spin) (auto simp: mid_header_def)
      with False 4 s(1) show ?thesis by (simp add: result_def st)
    qed
  qed (use run in \<open>simp_all add: result_def st\<close>)
qed

lemma handler_main_spec:
  "list_all legal_chunk cs \<Longrightarrow> handler_main e (map Received cs) = spec_session e (concat cs)"
  by (simp add: handler_main_result session_from [OF carried_init] spec_session_def)

interpretation ch: chunked_handler "\<lambda>cs. handler_main e (map Received cs)" "spec_session e" for e
  by unfold_locales (rule handler_main_spec)

section \<open>Refinement\<close>

text \<open>
  C3: for every byte stream and every way the network cuts it into receives, the handler's
  session (its replies, the entries it queues, its log lines, or the fact that it spins or
  indexes outside the header table) is the one the protocol automaton prescribes for the
  stream.
\<close>

theorem handler_refines_protocol:
  assumes "\<forall>c\<in>set cs. c \<noteq> [] \<and> length c < 2048"
  shows "handler_main e (map Received cs) = spec_session e (concat cs)"
  using assms by (intro ch.refines) (simp add: list_all_iff legal_chunk_def BUFSIZE_def)

definition sample_env :: env where
  "sample_env = \<lparr>clock = (\<lambda>n. word_of_nat n), status = (\<lambda>_. sample_status)\<rparr>"

theorem handler_refines_protocol_witness:
  "handler_main sample_env (map Received [[1, 3, 2], [0, 0, 0, 65], [66]])
     = spec_session sample_env [1, 3, 2, 0, 0, 0, 65, 66]"
  using handler_refines_protocol [of "[[1, 3, 2], [0, 0, 0, 65], [66]]" sample_env] by simp

lemma served:
  assumes "\<forall>c\<in>set cs. c \<noteq> [] \<and> length c < 2048"
    and "concat cs = client_stream rs" and "\<forall>r\<in>set rs. valid_request r"
  shows "handler_main e (map Received cs) =
    Some (Inr (fold (serve e) rs [Reply [one_char]]
               @ (if rs = [] then [Reply [zero_char]] else []) @ [Closed]))"
proof (rule ch.handler_eqI [OF _ assms(2)])
  show "list_all legal_chunk cs"
    using assms(1) by (simp add: list_all_iff legal_chunk_def BUFSIZE_def)
  show "spec_session e (client_stream rs) = Some (Inr (fold (serve e) rs [Reply [one_char]]
      @ (if rs = [] then [Reply [zero_char]] else []) @ [Closed]))"
    using assms(3) by (simp add: spec_session_def run_client_stream list_all_iff)
qed

text \<open>
  C4: a client that speaks the protocol is served completely, however its stream is cut:
  after the handshake every query is queued (with its exact bytes) and acknowledged, every
  status request is answered, in the order of the requests, and then the handler returns.
\<close>

theorem session_serves_requests:
  assumes "\<forall>c\<in>set cs. c \<noteq> [] \<and> length c < 2048"
    and "concat cs = client_stream rs" and "\<forall>r\<in>set rs. valid_request r"
  shows "handler_main e (map Received cs) =
    Some (Inr (fold (serve e) rs [Reply [one_char]]
               @ (if rs = [] then [Reply [zero_char]] else []) @ [Closed]))"
  by (rule served [OF assms])

lemma sample_stream:
  "client_stream [Query [65, 66], Status] = [1, 3, 2, 0, 0, 0, 65, 66, 1, 0, 0, 0, 0]"
  by (simp add: client_stream_def le32_bytes_def drop_bit_eq_div)

theorem session_serves_requests_witness:
  "handler_main sample_env (map Received [[1, 3, 2], [0, 0, 0, 65], [66, 1, 0, 0], [0, 0]]) =
    Some (Inr (fold (serve sample_env) [Query [65, 66], Status] [Reply [one_char]] @ [Closed]))"
  using session_serves_requests
    [of "[[1, 3, 2], [0, 0, 0, 65], [66, 1, 0, 0], [0, 0]]" "[Query [65, 66], Status]" sample_env]
  by (simp add: sample_stream)

section \<open>What a session queues\<close>

text \<open>
  \<open>stands_in bs m\<close>: the stream \<open>bs\<close> contains the complete message that carries the entry \<open>m\<close>:
  the type byte, a header that announces the length of the query, the query.
\<close>

definition stands_in :: "byte list \<Rightarrow> queue_entry \<Rightarrow> bool" where
  "stands_in bs m \<longleftrightarrow> (\<exists>pre h post. bs = pre @ 3 # h @ query m @ post \<and> length h = 4
     \<and> payload_size_of h = length (query m))"

lemma stands_inI:
  assumes "bs = pre @ 3 # h @ query m" "length h = 4" "payload_size_of h = length (query m)"
  shows "stands_in bs m"
  unfolding stands_in_def using assms append_Nil2 by metis

lemma stands_in_append: "stands_in bs m \<Longrightarrow> stands_in (bs @ cs) m"
  unfolding stands_in_def by (metis append.assoc append_Cons)

text \<open>The automaton's phase remembers what it has read of the current message.\<close>

fun phase_reads :: "byte list \<Rightarrow> phase \<Rightarrow> bool" where
  "phase_reads bs (InHeader t h) = (t = 3 \<longrightarrow> length h < 4 \<and> (\<exists>pre. bs = pre @ 3 # h))"
| "phase_reads bs (InPayload n p) =
     (length p < n \<and> (\<exists>pre h. bs = pre @ 3 # h @ p \<and> length h = 4 \<and> payload_size_of h = n))"
| "phase_reads bs _ = True"

text \<open>The bookkeeping fields of an entry as they are when it is queued.\<close>

definition fresh_entry :: "env \<Rightarrow> queue_entry \<Rightarrow> bool" where
  "fresh_entry e m \<longleftrightarrow> (\<exists>k. received m = clock e k)
     \<and> lasterror m = [] \<and> processed m = 0 \<and> attempts m = 0"

definition reads_inv :: "env \<Rightarrow> byte list \<Rightarrow> abs_state \<Rightarrow> bool" where
  "reads_inv e bs st \<longleftrightarrow> phase_reads bs (fst st)
     \<and> (\<forall>m. Pushed m \<in> set (trace_of st) \<longrightarrow> stands_in bs m \<and> fresh_entry e m)"

lemma query_entry_of [simp]: "query (entry_of now q) = q"
  by (simp add: entry_of_def)

lemma fresh_entry_of [simp]: "fresh_entry e (entry_of (clock e k) q)"
  by (auto simp: fresh_entry_def entry_of_def new_entry_def)

lemma sint_byte_3: "sint (b :: byte) = 3 \<longleftrightarrow> b = 3"
proof
  assume "sint b = 3"
  then have "sint b = sint (3 :: byte)" by simp
  then show "b = 3" by (simp only: signed_word_eqI)
qed simp

lemma accept_query_trace:
  "Pushed m \<in> set (accept_query e q tr)
     \<longleftrightarrow> m = entry_of (clock e (length tr)) q \<or> Pushed m \<in> set tr"
  by (auto simp: accept_query_def)

lemma answer_status_trace: "Pushed m \<in> set (answer_status e tr) \<longleftrightarrow> Pushed m \<in> set tr"
  by (auto simp: answer_status_def)

lemma feed_reads_inv:
  assumes "reads_inv e bs (ph, a, tr)"
  shows "reads_inv e (bs @ [b]) (feed e b (ph, a, tr))"
proof -
  have old: "\<And>m. Pushed m \<in> set tr \<Longrightarrow> stands_in (bs @ [b]) m \<and> fresh_entry e m"
    using assms by (auto simp: reads_inv_def trace_of_def intro: stands_in_append)
  show ?thesis
  proof (cases ph)
    case WantType
    with old show ?thesis by (auto simp: reads_inv_def trace_of_def sint_byte_3)
  next
    case (InHeader t h)
    show ?thesis
    proof (cases "t = 3 \<and> \<not> length h + 1 < 4")
      case True
      with assms InHeader obtain pre where pre: "bs = pre @ 3 # h" "length (h @ [b]) = 4"
        by (auto simp: reads_inv_def)
      then have "stands_in (bs @ [b]) m" if "payload_size_of (h @ [b]) = 0" "query m = []" for m
        using that by (intro stands_inI [of _ pre "h @ [b]"]) simp_all
      moreover have "\<exists>pre' h'. pre @ 3 # h @ [b] = pre' @ 3 # h' \<and> length h' = 4
          \<and> payload_size_of h' = payload_size_of (h @ [b])"
        using pre(2) by (intro exI [of _ pre] exI [of _ "h @ [b]"]) simp
      ultimately show ?thesis using True pre old InHeader
        by (auto simp: reads_inv_def trace_of_def accept_query_trace header_len_of_def)
    next
      case False
      with assms old InHeader show ?thesis
        by (auto simp: reads_inv_def trace_of_def answer_status_trace header_len_of_def)
    qed
  next
    case (InPayload n p)
    with assms obtain pre h where pre: "bs = pre @ 3 # h @ p" "length h = 4" "payload_size_of h = n"
      "length p < n" by (auto simp: reads_inv_def)
    then have "stands_in (bs @ [b]) m" if "length p + 1 = n" "query m = p @ [b]" for m
      using that by (intro stands_inI [of _ pre h]) simp_all
    with pre old InPayload show ?thesis
      by (auto simp: reads_inv_def trace_of_def accept_query_trace not_less)
  qed (use old in \<open>auto simp: reads_inv_def trace_of_def\<close>)
qed

lemma run_reads_inv: "reads_inv e bs st \<Longrightarrow> reads_inv e (bs @ cs) (run e cs st)"
proof (induction cs arbitrary: bs st)
  case (Cons c cs)
  have "reads_inv e (bs @ [c]) (feed e c st)"
    using feed_reads_inv [of e bs "fst st" "fst (snd st)" "snd (snd st)"] Cons.prems by simp
  from Cons.IH [OF this] show ?case by simp
qed simp

lemma spec_session_stands_in:
  "spec_session e bs = Some (Inr evs) \<Longrightarrow> Pushed m \<in> set evs \<Longrightarrow> stands_in bs m \<and> fresh_entry e m"
proof -
  assume s: "spec_session e bs = Some (Inr evs)" and m: "Pushed m \<in> set evs"
  have inv: "reads_inv e bs (run e bs (WantProto, False, []))"
    using run_reads_inv [of e "[]" "(WantProto, False, [])" bs]
    by (simp add: reads_inv_def trace_of_def)
  obtain ph a tr where "run e bs (WantProto, False, []) = (ph, a, tr)"
    by (cases "run e bs (WantProto, False, [])")
  with s m inv show ?thesis
    by (auto simp: spec_session_def reads_inv_def trace_of_def split: if_splits)
qed

lemma pushed_are_fresh:
  assumes "\<forall>c\<in>set cs. c \<noteq> [] \<and> length c < 2048"
    and "handler_main e (map Received cs) = Some (Inr evs)" and "Pushed m \<in> set evs"
  shows "stands_in (concat cs) m \<and> fresh_entry e m"
proof -
  have "spec_session e (concat cs) = Some (Inr evs)"
    using handler_main_spec [of cs e] assms(1,2)
    by (simp add: list_all_iff legal_chunk_def BUFSIZE_def)
  from spec_session_stands_in [OF this assms(3)] show ?thesis .
qed


lemma sample_session:
  "handler_main sample_env (map Received [[1, 3, 2], [0, 0, 0, 65], [66]]) =
   Some (Inr [Reply [one_char], Pushed (entry_of 1 [65, 66]), Reply [one_char], Closed])"
proof -
  have "payload_size_of [2, 0, 0, 0] = 2"
    by (simp add: payload_size_of_def le32_def)
  then show ?thesis
    by (subst handler_main_spec)
      (simp_all add: legal_chunk_def BUFSIZE_def spec_session_def header_len_of_def
        accept_query_def sample_env_def)
qed


section \<open>Acknowledgements\<close>

text \<open>
  \<open>acked evs\<close>: every push is directly followed by the reply \<open>1\<close>, and there is no other
  reply \<open>1\<close>.
\<close>

fun acked :: "event list \<Rightarrow> bool" where
  "acked [] = True"
| "acked (Pushed m # Reply b # evs) = (b = [one_char] \<and> acked evs)"
| "acked (Pushed m # evs) = False"
| "acked (Reply b # evs) = (b \<noteq> [one_char] \<and> acked evs)"
| "acked (UnknownType t # evs) = acked evs"
| "acked (Closed # evs) = acked evs"

lemma acked_append: "acked xs \<Longrightarrow> acked ys \<Longrightarrow> acked (xs @ ys)"
  by (induction xs rule: acked.induct) auto

lemma status_reply_not_ack: "status_reply e \<noteq> [one_char]"
  using status_reply_def [of e] dec_nat_nonempty
  by (auto simp: status_body_def dec_int_def split: option.splits)

lemma feed_acked:
  assumes "ph \<noteq> WantProto"
  shows "\<exists>evs. trace_of (feed e b (ph, a, tr)) = tr @ evs \<and> acked evs \<and> fst (feed e b (ph, a, tr)) \<noteq> WantProto"
  using assms
  by (cases ph) (auto simp: trace_of_def accept_query_def answer_status_def status_reply_not_ack)

lemma run_acked:
  "ph \<noteq> WantProto \<Longrightarrow> \<exists>evs. trace_of (run e bs (ph, a, tr)) = tr @ evs \<and> acked evs"
proof (induction bs arbitrary: ph a tr)
  case Nil
  show ?case by (simp add: trace_of_def)
next
  case (Cons b bs)
  obtain ph' a' tr' where f: "feed e b (ph, a, tr) = (ph', a', tr')"
    by (cases "feed e b (ph, a, tr)")
  with feed_acked [OF Cons.prems, of e b a tr] obtain evs where
    evs: "tr' = tr @ evs" "acked evs" "ph' \<noteq> WantProto" by (auto simp: trace_of_def)
  with Cons.IH [of ph' a' tr'] f show ?case by (auto intro: acked_append)
qed

text \<open>
  C17: a client that gets the reply \<open>1\<close> after its handshake can rely on it. In every session
  that returns, after the handshake reply each pushed query is acknowledged directly after the
  push, and no acknowledgement is sent without a push.
\<close>

theorem acks_follow_pushes:
  assumes "\<forall>c\<in>set cs. c \<noteq> [] \<and> length c < 2048" and "concat cs = 1 # bs"
    and "handler_main e (map Received cs) = Some (Inr evs)"
  shows "\<exists>evs'. evs = Reply [one_char] # evs' \<and> acked evs'"
proof -
  have s: "spec_session e (1 # bs) = Some (Inr evs)"
    using handler_main_spec [of cs e] assms by (simp add: list_all_iff legal_chunk_def BUFSIZE_def)
  obtain ph a tr where r: "run e bs (WantType, False, [Reply [one_char]]) = (ph, a, tr)"
    by (cases "run e bs (WantType, False, [Reply [one_char]])")
  then obtain evs' where "tr = Reply [one_char] # evs'" "acked evs'"
    using run_acked [of WantType e bs False "[Reply [one_char]]"] by (auto simp: trace_of_def)
  with s r show ?thesis
    by (auto simp: spec_session_def one_char_def zero_char_def intro!: acked_append split: if_splits)
qed

theorem acks_follow_pushes_witness:
  "\<exists>evs'. [Reply [one_char], Pushed (entry_of 1 [65, 66]), Reply [one_char], Closed]
      = Reply [one_char] # evs' \<and> acked evs'"
  by (rule acks_follow_pushes [OF _ _ sample_session, of "[3, 2, 0, 0, 0, 65, 66]"]) simp_all

section \<open>The shared queue\<close>

fun pushed :: "event list \<Rightarrow> queue_entry list" where
  "pushed [] = []"
| "pushed (Pushed m # evs) = m # pushed evs"
| "pushed (_ # evs) = pushed evs"

lemma pushed_append: "pushed (xs @ ys) = pushed xs @ pushed ys"
  by (induction xs rule: pushed.induct) simp_all

lemma deliver_pushed: "fold deliver evs q = fold lq_push (pushed evs) q"
  by (induction evs arbitrary: q rule: pushed.induct) simp_all

fun queries :: "request list \<Rightarrow> byte list list" where
  "queries [] = []"
| "queries (Query q # rs) = q # queries rs"
| "queries (Status # rs) = queries rs"

lemma serve_queries:
  "map query (pushed (fold (serve e) rs tr)) = map query (pushed tr) @ queries rs"
  by (induction rs arbitrary: tr rule: queries.induct)
    (simp_all add: accept_query_def answer_status_def pushed_append)

text \<open>
  Delivered to the shared queue, a protocol session appends exactly the client's queries,
  in order, behind whatever the queue already held.
\<close>

lemma session_fills_queue:
  assumes "\<forall>c\<in>set cs. c \<noteq> [] \<and> length c < 2048"
    and "concat cs = client_stream rs" and "\<forall>r\<in>set rs. valid_request r"
  shows "\<exists>evs. handler_main e (map Received cs) = Some (Inr evs)
           \<and> map query (queue (fold deliver evs q)) = map query (queue q) @ queries rs"
  using served [OF assms, of e]
  by (simp add: deliver_pushed lq.content_fold_push pushed_append serve_queries)

section \<open>Memory safety\<close>

text \<open>
  Every result \<open>recv\<close> may give for a request of at most \<open>BUFSIZE - 1\<close> bytes. \<open>neg\<close> says whether
  bytes with their top bit set, which are negative as \<open>char\<close>, may come.
\<close>

fun recv_ok :: "bool \<Rightarrow> recv_result \<Rightarrow> bool" where
  "recv_ok neg (Received bs) = (length bs < BUFSIZE \<and> (neg \<or> (\<forall>b\<in>set bs. 0 \<le> sint b)))"
| "recv_ok neg RecvError = True"

text \<open>Without such bytes the automaton does not take a message type that is negative.\<close>

definition indexable :: "bool \<Rightarrow> phase \<Rightarrow> bool" where
  "indexable neg ph \<longleftrightarrow> neg \<or> (ph \<noteq> BadType \<and> ph \<noteq> Undefd)"

lemma feed_indexable:
  "indexable neg (fst st) \<Longrightarrow> neg \<or> 0 \<le> sint b \<Longrightarrow> indexable neg (fst (feed e b st))"
  by (cases st; cases "fst st") (auto simp: indexable_def)

lemma run_indexable:
  "indexable neg (fst st) \<Longrightarrow> neg \<or> (\<forall>b\<in>set bs. 0 \<le> sint b) \<Longrightarrow> indexable neg (fst (run e bs st))"
proof (induction bs arbitrary: st)
  case (Cons b bs)
  then have "indexable neg (fst (feed e b st))" by (intro feed_indexable) auto
  from Cons.IH [OF this] Cons.prems(2) show ?case by auto
qed simp

lemma carried_stop:
  "carried st s \<Longrightarrow> carried (Refused, answered s, trace s) (s\<lparr>stop := True\<rparr>)"
  by (simp add: carried_def sim_def)

lemma on_recv_nothing:
  assumes "carried st s" "recv_ret r + int (length (pending (fst st))) \<le> 0" "fst st \<noteq> Refused"
  shows "on_recv e r s = Some (Inr (s\<lparr>stop := True\<rparr>))"
  using assms unfolding carried_def on_recv_def by simp

lemma on_recv_error:
  assumes "carried (InHeader t h, a, tr) s" "2 \<le> length h"
  obtains s' where "on_recv e RecvError s = Some (Inr s')" "carried (InHeader t (butlast h), a, tr) s'"
  using on_recv_short [OF assms(1), of RecvError "length h - 1" e] assms(2)
  by (auto simp: butlast_conv_take)

definition tracked :: "bool \<Rightarrow> conn \<Rightarrow> bool" where
  "tracked neg s \<longleftrightarrow> (\<exists>st. carried st s \<and> indexable neg (fst st))"

lemma trackedI: "carried st s \<Longrightarrow> indexable neg (fst st) \<Longrightarrow> tracked neg s"
  unfolding tracked_def by blast

lemma mid_header_tracked: "mid_header s \<Longrightarrow> tracked neg s"
  unfolding mid_header_def using trackedI indexable_def by fastforce

lemma on_recv_carried:
  assumes c: "carried st s" and "\<not> stop s" and "recv_ok neg r" and ph: "indexable neg (fst st)"
  shows "case on_recv e r s of None \<Rightarrow> True | Some (Inl u) \<Rightarrow> u = HeaderSizeIndex \<and> neg
         | Some (Inr s') \<Rightarrow> tracked neg s'"
proof -
  have nr: "fst st \<noteq> Refused" using assms by (auto simp: carried_def sim_def)
  show ?thesis
  proof (cases "\<exists>bs. r = Received bs \<and> bs \<noteq> []")
    case True
    then obtain bs where bs: "r = Received bs" "bs \<noteq> []" by auto
    then have "length bs < BUFSIZE" using assms(3) by simp
    moreover have "indexable neg (fst (run e bs st))"
      using assms(3) bs(1) by (intro run_indexable [OF ph]) simp
    ultimately show ?thesis
      using on_recv_run [OF c nr bs(2), of e] unfolding bs(1)
      by (cases "fst (run e bs st)") (auto simp: indexable_def split: phase.splits intro!: trackedI)
  next
    case False
    then have r: "r = Received [] \<or> r = RecvError" by (cases r) auto
    show ?thesis
    proof (cases "recv_ret r + int (length (pending (fst st))) \<le> 0")
      case True
      with carried_stop [OF c] show ?thesis
        using on_recv_nothing [OF c True nr] by (auto simp: indexable_def intro: trackedI)
    next
      case False
      obtain t h a tr where "st = (InHeader t h, a, tr)"
        using False r by (cases "fst st"; cases st) auto
      moreover from this False r have "h \<noteq> []" by (cases h) auto
      ultimately have st: "st = (InHeader t h, a, tr)" "h \<noteq> []" by simp_all
      show ?thesis
        using r
      proof
        assume "r = Received []"
        have "mid_header s" unfolding mid_header_def using c st by blast
        then obtain s' where "on_recv e (Received []) s = Some (Inr s')" "mid_header s'"
          by (rule on_recv_closed)
        with \<open>r = Received []\<close> show ?thesis by (simp add: mid_header_tracked)
      next
        assume "r = RecvError"
        with False st have "2 \<le> length h" by simp
        with c st obtain s' where "on_recv e RecvError s = Some (Inr s')"
          "carried (InHeader t (butlast h), a, tr) s'"
          using on_recv_error by metis
        with \<open>r = RecvError\<close> show ?thesis by (auto simp: indexable_def intro: trackedI)
      qed
    qed
  qed
qed

lemma main_loop_safe:
  assumes "main_loop e rs s = Some r"
  shows "tracked neg s \<Longrightarrow> list_all (recv_ok neg) rs \<Longrightarrow> r = Inl u \<Longrightarrow> u = HeaderSizeIndex \<and> neg"
proof -
  let ?P = "\<lambda>rs s r. \<forall>u. tracked neg s \<longrightarrow> list_all (recv_ok neg) rs \<longrightarrow> r = Inl u
    \<longrightarrow> u = HeaderSizeIndex \<and> neg"
  have "?P rs s r"
    using assms
  proof (rule main_loop.raw_induct [where P = "\<lambda>e rs s r. ?P rs s r", rotated])
    fix f e rs s r
    assume IH: "\<And>e rs s r. f e rs s = Some r \<Longrightarrow> ?P rs s r"
      and eq: "(if \<not> stop s then
        (case on_recv e (next_recv rs) s of
           None \<Rightarrow> None
         | Some x \<Rightarrow> (case x of Inl u \<Rightarrow> Some (Inl u) | Inr s' \<Rightarrow> f e (tl rs) s'))
      else Some (Inr s)) = Some r"
    show "?P rs s r"
    proof (intro allI impI)
      fix u
      assume c: "tracked neg s" and ok: "list_all (recv_ok neg) rs" and u: "r = Inl u"
      have ns: "\<not> stop s" using eq u by (auto split: if_splits)
      have rok: "recv_ok neg (next_recv rs)" "list_all (recv_ok neg) (tl rs)"
        using ok by (cases rs; simp add: next_recv_def BUFSIZE_def)+
      from c obtain st where "carried st s" "indexable neg (fst st)" by (auto simp: tracked_def)
      from on_recv_carried [OF this(1) ns rok(1) this(2), of e] eq ns u IH rok(2)
      show "u = HeaderSizeIndex \<and> neg"
        by (fastforce split: option.splits sum.splits)
    qed
  qed
  then show "tracked neg s \<Longrightarrow> list_all (recv_ok neg) rs \<Longrightarrow> r = Inl u \<Longrightarrow> u = HeaderSizeIndex \<and> neg"
    by blast
qed


section \<open>Inputs that leave the protocol\<close>

lemma spec_after_requests:
  assumes "list_all valid_request rs"
  shows "spec_session e (client_stream rs @ bs) =
    at_eof (run e bs (WantType, rs \<noteq> [], fold (serve e) rs [Reply [one_char]]))"
  using assms by (simp add: spec_session_def run_append run_client_stream)

lemma handler_after_requests:
  assumes "\<forall>c\<in>set cs. c \<noteq> [] \<and> length c < 2048" "concat cs = client_stream rs @ bs"
    and "\<forall>r\<in>set rs. valid_request r"
  shows "handler_main e (map Received cs) =
    at_eof (run e bs (WantType, rs \<noteq> [], fold (serve e) rs [Reply [one_char]]))"
  using handler_main_spec [of cs e] assms spec_after_requests [of rs e bs]
  by (simp add: list_all_iff legal_chunk_def BUFSIZE_def)


lemma control_hang:
  assumes "\<forall>c\<in>set cs. c \<noteq> [] \<and> length c < 2048"
    and "concat cs = client_stream rs @ t # h @ b # rest" and "\<forall>r\<in>set rs. valid_request r"
    and "(t = 0 \<and> length h = 10) \<or> (t = 2 \<and> length h = 4)"
  shows "handler_main e (map Received cs) = None"
proof -
  have "run e (t # h) (WantType, a, tr) = (Stuck, a, tr)" for a tr
  proof -
    have "h \<noteq> []" using assms(4) by auto
    then show ?thesis
      using assms(4) run_header [of "sint t" h t e a tr] by (auto simp: header_len_of_def)
  qed
  then have "run e (t # h @ b # rest) (WantType, a, tr) = (Hung, a, tr)" for a tr
    using run_append [of e "t # h" "b # rest" "(WantType, a, tr)"] by (simp add: run_Hung)
  then show ?thesis
    using handler_after_requests [OF assms(1-3)] by simp
qed

text \<open>
  A client can hang a worker thread for good. After any valid requests, one complete
  \<open>N_CONNECT\<close> or \<open>N_CONTROL\<close> message followed by a single further byte makes the handler
  loop for ever: it neither returns nor closes the socket.
\<close>

theorem connect_control_hang:
  assumes "\<forall>c\<in>set cs. c \<noteq> [] \<and> length c < 2048"
    and "concat cs = client_stream rs @ t # h @ b # rest" and "\<forall>r\<in>set rs. valid_request r"
    and "(t = 0 \<and> length h = 10) \<or> (t = 2 \<and> length h = 4)"
  shows "handler_main e (map Received cs) = None"
  by (rule control_hang [OF assms])

theorem connect_control_hang_witness:
  "handler_main sample_env (map Received [[1, 2, 0, 0, 0, 0, 7]]) = None"
  by (rule connect_control_hang [of _ "[]" 2 "[0, 0, 0, 0]" 7 "[]"])
    (simp_all add: client_stream_def)

text \<open>
  C35: a client that closes its end in the middle of a header leaves the handler spinning:
  \<open>recv\<close> returns 0, but the header bytes kept in \<open>data\<close> make \<open>numbytes\<close> positive, so the
  end of the connection is never noticed.
\<close>

theorem truncated_header_hang:
  assumes "\<forall>c\<in>set cs. c \<noteq> [] \<and> length c < 2048"
    and "concat cs = client_stream rs @ t # h" and "\<forall>r\<in>set rs. valid_request r"
    and "0 \<le> sint t" and "sint t < 4" and "h \<noteq> []"
    and "length h < (if t = 0 then 10 else 4)"
  shows "handler_main e (map Received cs) = None"
proof -
  have "length h < header_len_of (sint t)"
    using assms(7) by (auto simp: header_len_of_def split: if_splits)
  then have "run e (t # h) (WantType, a, tr) = (InHeader (sint t) h, a, tr)" for a tr
    using assms(4,5) run_header_partial [of "[]" h] by simp
  then show ?thesis
    using handler_after_requests [OF assms(1-3)] assms(6) by simp
qed

theorem truncated_header_hang_witness:
  "handler_main sample_env (map Received [[1, 3], [5]]) = None"
  by (rule truncated_header_hang [of _ "[]" 3 "[5]"]) (simp_all add: client_stream_def)

text \<open>
  C36: a message type with its top bit set passes the test \<open>message_type_ < N_NUMMSG\<close>, and the
  next byte makes the handler read the header size table at a negative index.
\<close>

theorem negative_type_index:
  assumes "\<forall>c\<in>set cs. c \<noteq> [] \<and> length c < 2048"
    and "concat cs = client_stream rs @ t # b # rest" and "\<forall>r\<in>set rs. valid_request r"
    and "sint t < 0"
  shows "handler_main e (map Received cs) = Some (Inl HeaderSizeIndex)"
  using handler_after_requests [OF assms(1-3)] assms(4) by (simp add: run_Undefd)

theorem negative_type_index_witness:
  "handler_main sample_env (map Received [[1, 128], [0]]) = Some (Inl HeaderSizeIndex)"
  by (rule negative_type_index [of _ "[]" 128 0 "[]"]) (simp_all add: client_stream_def)

section \<open>Overlapping copies\<close>

text \<open>
  The copy of the unread bytes to the front of \<open>data\<close> is a \<open>memcpy\<close> whose two ranges overlap when
  fewer bytes have been read than are left, which C leaves undefined; the model copies as
  \<open>memmove\<close> would. A header that arrives in two pieces leads there when its first piece is longer
  than what was received before it.
\<close>

definition copy_overlaps :: "nat \<Rightarrow> conn \<Rightarrow> bool" where
  "copy_overlaps numbytes s \<longleftrightarrow> pos s < numbytes \<and> pos s < numbytes - pos s"

lemma split_header_overlaps:
  assumes "has_message_proto s" and "has_message_type s" and "\<not> has_message_header s" and "\<not> stop s"
    and "header_size_at (message_type s) = Some len"
    and "numbytes < pos s + len" and "2 * pos s < numbytes"
  shows "inner_loop e numbytes s = Some (Inr s) \<and> copy_overlaps numbytes s"
  using assms
  by (subst inner_loop.simps) (simp add: loop_body_def read_header_def copy_overlaps_def)

section \<open>Receive errors\<close>

text \<open>
  A timeout (\<open>recv\<close> returns -1) is added to \<open>leftoversize\<close> like any other result. With at most
  one byte kept the loop ends; otherwise one byte of the header is given up and the loop waits
  again.
\<close>

lemma main_loop_errors:
  assumes "carried st s" "fst st \<noteq> Refused" "length (pending (fst st)) \<le> k" "0 < k"
  shows "\<exists>s'. main_loop e (replicate k RecvError @ rs) s = Some (Inr s')
           \<and> answered s' = fst (snd st) \<and> trace s' = snd (snd st)"
  using assms
proof (induction k arbitrary: st s)
  case (Suc k)
  have sim: "sim st s" using Suc.prems(1) by (simp add: carried_def)
  have ns: "\<not> stop s" using sim Suc.prems(2) by (rule not_stopped)
  have step: "main_loop e (replicate (Suc k) RecvError @ rs) s =
      (case on_recv e RecvError s of None \<Rightarrow> None
       | Some (Inl u) \<Rightarrow> Some (Inl u) | Some (Inr s') \<Rightarrow> main_loop e (replicate k RecvError @ rs) s')"
    using ns by (subst main_loop.simps)
      (simp add: next_recv_def cong: option.case_cong sum.case_cong)
  show ?case
  proof (cases "length (pending (fst st)) \<le> 1")
    case True
    then have "on_recv e RecvError s = Some (Inr (s\<lparr>stop := True\<rparr>))"
      using Suc.prems by (intro on_recv_nothing [of st]) simp_all
    with step sim show ?thesis by (simp add: main_loop_stopped sim_def)
  next
    case False
    then obtain t h a tr where st: "st = (InHeader t h, a, tr)" "2 \<le> length h"
      by (cases "fst st"; cases st) auto
    then obtain s' where s': "on_recv e RecvError s = Some (Inr s')"
      "carried (InHeader t (butlast h), a, tr) s'"
      using Suc.prems(1) on_recv_error by metis
    have "length (pending (fst (InHeader t (butlast h), a, tr))) \<le> k" "0 < k"
      using st Suc.prems(3) by simp_all
    with Suc.IH [OF s'(2)] step s'(1) st show ?thesis by simp
  qed
qed simp

text \<open>The result of a session whose stream ends in a receive error instead of a close.\<close>

definition session_end :: "bool \<times> event list \<Rightarrow> event list" where
  "session_end r = snd r @ (if fst r then [] else [Reply [zero_char]]) @ [Closed]"

lemma finish_eq: "answered s = fst r \<Longrightarrow> trace s = snd r \<Longrightarrow> finish s = session_end r"
  by (simp add: finish_def session_end_def send_reply_def)

text \<open>
  Receive timeouts always end a session that is waiting for input. Unless the bytes
  received so far already made the handler spin or index outside its table, ten timeouts in a
  row are enough (the longest header), whatever would arrive later.
\<close>

lemma timeouts_end_session:
  assumes "\<forall>c\<in>set cs. c \<noteq> [] \<and> length c < 2048"
    and "fst (run e (concat cs) (WantProto, False, [])) \<noteq> Hung"
    and "fst (run e (concat cs) (WantProto, False, [])) \<noteq> Undefd"
  shows "handler_main e (map Received cs @ replicate 10 RecvError @ rs)
           = Some (Inr (session_end (snd (run e (concat cs) (WantProto, False, [])))))"
proof -
  let ?st = "run e (concat cs) (WantProto, False, [])"
  have cs: "list_all legal_chunk cs"
    using assms(1) by (simp add: list_all_iff legal_chunk_def BUFSIZE_def)
  note run = main_loop_run [OF carried_init cs, of e "replicate 10 RecvError @ rs"]
  have "\<exists>s'. main_loop e (map Received cs @ replicate 10 RecvError @ rs) init_conn = Some (Inr s')
      \<and> answered s' = fst (snd ?st) \<and> trace s' = snd (snd ?st)"
  proof (cases "fst ?st = Refused")
    case True
    with run show ?thesis by (auto simp: sim_def)
  next
    case False
    with run assms(2,3) obtain s where
      s: "main_loop e (map Received cs @ replicate 10 RecvError @ rs) init_conn
          = main_loop e (replicate 10 RecvError @ rs) s" "carried ?st s"
      by (cases "fst ?st") auto
    then have "length (pending (fst ?st)) \<le> 10"
      using length_pending [of ?st s] by (simp add: carried_def MAXHEADERSIZE_def)
    with main_loop_errors [OF s(2) False] s(1) show ?thesis by simp
  qed
  then show ?thesis by (auto simp: handler_main_def finish_eq)
qed

lemma run_butlast_header:
  assumes "run e bs (WantProto, False, []) = (InHeader t h, a, tr)" "2 \<le> length h"
  shows "run e (butlast bs) (WantProto, False, []) = (InHeader t (butlast h), a, tr)"
proof -
  have "bs \<noteq> []" using assms by auto
  then obtain xs b where bs: "bs = xs @ [b]" by (metis append_butlast_last_id)
  obtain ph a' tr' where st: "run e xs (WantProto, False, []) = (ph, a', tr')"
    by (cases "run e xs (WantProto, False, [])")
  with assms bs have f: "feed e b (ph, a', tr') = (InHeader t h, a, tr)" by (simp add: run_append)
  with assms(2) show ?thesis using st bs by (cases ph) (auto split: if_splits)
qed

text \<open>
  A timeout in the middle of a header corrupts the stream. When at least two header bytes
  are waiting, a single timeout makes the handler drop the last byte it has received: the rest
  of the session is the one of a stream without that byte.
\<close>

theorem timeout_drops_header_byte:
  assumes "\<forall>c\<in>set (cs @ cs'). c \<noteq> [] \<and> length c < 2048"
    and "run e (concat cs) (WantProto, False, []) = (InHeader t h, a, tr)" and "2 \<le> length h"
  shows "handler_main e (map Received cs @ RecvError # map Received cs')
           = spec_session e (butlast (concat cs) @ concat cs')"
proof -
  have cs: "list_all legal_chunk cs" "list_all legal_chunk cs'"
    using assms(1) by (simp_all add: list_all_iff legal_chunk_def BUFSIZE_def)
  note st = assms(2)
  obtain s where s: "main_loop e (map Received cs @ RecvError # map Received cs') init_conn
      = main_loop e (RecvError # map Received cs') s" "carried (InHeader t h, a, tr) s"
    using main_loop_run [OF carried_init cs(1), of e "RecvError # map Received cs'", unfolded st]
    by auto
  have ns: "\<not> stop s" using s(2) not_stopped [of "(InHeader t h, a, tr)" s] by (simp add: carried_def)
  obtain s' where s': "on_recv e RecvError s = Some (Inr s')"
    "carried (InHeader t (butlast h), a, tr) s'"
    using on_recv_error [OF s(2) assms(3)] by metis
  have "main_loop e (RecvError # map Received cs') s = main_loop e (map Received cs') s'"
    using ns s'(1) by (subst main_loop.simps) (simp add: next_recv_def)
  with s(1) show ?thesis
    using session_from [OF s'(2) cs(2), of e] run_butlast_header [OF st assms(3)]
    by (simp add: handler_main_result spec_session_def run_append)
qed

theorem timeout_drops_header_byte_witness:
  "handler_main sample_env (map Received [[1, 3, 5, 9]] @ RecvError # map Received [[0, 0, 0, 65]])
     = spec_session sample_env (butlast (concat [[1, 3, 5, 9]]) @ concat [[0, 0, 0, 65]])"
  by (rule timeout_drops_header_byte [where t = 3 and h = "[5, 9]" and a = False
        and tr = "[Reply [one_char]]"]) (simp_all add: header_len_of_def)

end
