(* ===== verification/HandlerReplacement.thy ===== *)
theory HandlerReplacement
  imports HandlerThread ClientSession
begin

text \<open>
  The client handler \<open>GearStreamClientHandler\<close> against the older
  \<open>GearStreamClientHandlerThread\<close> it replaced: behind its handshake, and as long as no status request
  comes, the new handler does what the old one did. \<open>as_conn\<close> reads the old handler's variables
  as the new one's; each branch of the old loop body is shown to be the new one's under it.
\<close>

section \<open>The old variables as the new ones\<close>

definition as_conn :: "thread_conn \<Rightarrow> conn" where
  "as_conn s =
     \<lparr>leftoversize = ht_leftoversize s, data = ht_data s, pos = ht_pos s,
      has_message_type = ht_has_message_type s, has_message_header = ht_has_message_header s,
      has_message_proto = True, message_type = ht_message_type s, message_proto = 1,
      payload_data = ht_payload_data s, payload_data_size = ht_payload_data_size s,
      payload_data_read = ht_payload_data_read s, answered = ht_answered s, stop = hd_stop s,
      trace = Reply [one_char] # ht_trace s\<rparr>"

abbreviation lift_state :: "ub + thread_conn \<Rightarrow> ub + conn" where
  "lift_state \<equiv> map_sum (\<lambda>u. u) as_conn"

abbreviation lift_step :: "ub + (ctl \<times> thread_conn) \<Rightarrow> ub + (ctl \<times> conn)" where
  "lift_step \<equiv> map_sum (\<lambda>u. u) (map_prod (\<lambda>c. c) as_conn)"

lemma as_conn_simps [simp]:
  "leftoversize (as_conn s) = ht_leftoversize s" "data (as_conn s) = ht_data s"
  "pos (as_conn s) = ht_pos s" "has_message_type (as_conn s) = ht_has_message_type s"
  "has_message_header (as_conn s) = ht_has_message_header s" "has_message_proto (as_conn s)"
  "message_type (as_conn s) = ht_message_type s"
  "payload_data (as_conn s) = ht_payload_data s"
  "payload_data_size (as_conn s) = ht_payload_data_size s"
  "payload_data_read (as_conn s) = ht_payload_data_read s"
  "answered (as_conn s) = ht_answered s" "stop (as_conn s) = hd_stop s"
  "trace (as_conn s) = Reply [one_char] # ht_trace s"
  by (simp_all add: as_conn_def)

text \<open>The old clock counts the events without the reply to the handshake.\<close>

abbreviation old_clock :: "env \<Rightarrow> nat \<Rightarrow> u64" where
  "old_clock e \<equiv> \<lambda>n. clock e (Suc n)"

abbreviation never :: "nat \<Rightarrow> bool" where
  "never \<equiv> \<lambda>_. False"

lemma as_conn_look [simp]: "as_conn (ht_look never s) = as_conn s"
  by (simp add: as_conn_def ht_look_def)

section \<open>The branches\<close>

lemma lift_read_type: "lift_step (ht_read_type s) = read_type (as_conn s)"
  by (simp add: ht_read_type_def read_type_def ht_event_def Let_def split: option.split)
    (simp add: as_conn_def)

lemma lift_read_header: "lift_step (ht_read_header n s) = read_header n (as_conn s)"
  by (simp add: ht_read_header_def read_header_def ht_header_message_def header_message_def
      split: option.split) (simp add: as_conn_def)

lemma lift_copy_payload: "lift_state (ht_copy_payload n s) = copy_payload n (as_conn s)"
proof (induction n s rule: ht_copy_payload.induct)
  case (1 n s)
  have step: "as_conn (s\<lparr>ht_payload_data := ht_payload_data s @ [b], ht_pos := Suc (ht_pos s),
      ht_payload_data_read := ht_payload_data_read s + 1\<rparr>) =
    (as_conn s)\<lparr>payload_data := ht_payload_data s @ [b], pos := Suc (ht_pos s),
      payload_data_read := ht_payload_data_read s + 1\<rparr>" for b
    by (simp add: as_conn_def)
  show ?case
    unfolding ht_copy_payload.simps [of n s] copy_payload.simps [of n "as_conn s"]
    using 1 by (auto simp: step split: option.split)
qed

lemma lift_accept:
  "as_conn (ht_accept (old_clock e) s)
     = reset_message (send_reply [one_char] (push_query e (as_conn s)))"
  by (simp add: as_conn_def ht_accept_def ht_event_def reset_message_def send_reply_def
      push_query_def entry_of_def Let_def)

lemma lift_mysqldata:
  "lift_state (ht_mysqldata (old_clock e) n s) = do_mysqldata e n (as_conn s)"
proof -
  have copied: "lift_state (if ht_payload_data_read s < ht_payload_data_size s
        then ht_copy_payload n s else Inr s)
      = (if payload_data_read (as_conn s) < payload_data_size (as_conn s)
         then copy_payload n (as_conn s) else Inr (as_conn s))"
    by (simp add: lift_copy_payload)
  show ?thesis
    unfolding ht_mysqldata_def do_mysqldata_def copied [symmetric]
    by (simp add: lift_accept split: sum.split)
qed

text \<open>The one difference: the old handler does nothing for a status request.\<close>

lemma lift_dispatch:
  "ht_message_type s \<noteq> 1 \<Longrightarrow>
   lift_state (ht_dispatch (old_clock e) n s) = dispatch e n (as_conn s)"
  by (simp add: ht_dispatch_def dispatch_def lift_mysqldata)

lemma lift_loop_body:
  assumes "ht_has_message_type s \<longrightarrow> ht_message_type s \<noteq> 1"
  shows "lift_step (ht_loop_body (old_clock e) n s) = loop_body e n (as_conn s)"
proof (cases "ht_has_message_type s")
  case False
  then show ?thesis by (simp add: ht_loop_body_def loop_body_def lift_read_type)
next
  case True
  with assms have t: "ht_message_type s \<noteq> 1" by simp
  have d: "lift_step (case ht_dispatch (old_clock e) n s1 of Inl u \<Rightarrow> Inl u | Inr s \<Rightarrow> Inr (Next, s))
      = (case dispatch e n (as_conn s1) of Inl u \<Rightarrow> Inl u | Inr s \<Rightarrow> Inr (Next, s))"
    if "ht_message_type s1 \<noteq> 1" for s1
    by (simp add: lift_dispatch [OF that, symmetric] split: sum.split)
  have same: "ht_message_type s1 = ht_message_type s" if "ht_read_header n s = Inr (c, s1)" for c s1
    using that by (auto simp: ht_read_header_def split: option.splits if_splits)
  show ?thesis
  proof (cases "ht_has_message_header s")
    case True
    with \<open>ht_has_message_type s\<close> d [OF t] show ?thesis
      by (simp add: ht_loop_body_def loop_body_def)
  next
    case False
    have "read_header n (as_conn s) = lift_step (ht_read_header n s)" by (simp add: lift_read_header)
    with False True same t d show ?thesis
      by (cases "ht_read_header n s") (auto simp: ht_loop_body_def loop_body_def split: ctl.split)
  qed
qed

section \<open>Streams without a status request\<close>

text \<open>
  A state of the automaton is quiet when it has answered no status request and is not in the middle
  of one (nor refused the handshake). A quiet state has only quiet predecessors.
\<close>

fun in_status :: "phase \<Rightarrow> bool" where
  "in_status (InHeader t h) = (t = 1)"
| "in_status _ = False"

definition quiet :: "abs_state \<Rightarrow> bool" where
  "quiet st \<longleftrightarrow> \<not> in_status (fst st) \<and> fst st \<noteq> Refused
     \<and> (\<forall>x. Reply (status_reply x) \<notin> set (trace_of st))"

lemma quiet_feed: "quiet (feed e b st) \<Longrightarrow> quiet st"
proof -
  assume q: "quiet (feed e b st)"
  obtain ph a tr where st: "st = (ph, a, tr)" by (cases st)
  have "\<not> in_status ph" "ph \<noteq> Refused"
    using q st by (cases ph; auto simp: quiet_def trace_of_def answer_status_def split: if_splits)+
  moreover obtain evs where "trace_of (feed e b st) = trace_of st @ evs"
    using feed_trace by blast
  ultimately show ?thesis using q st by (simp add: quiet_def)
qed

lemma quiet_run: "quiet (run e bs st) \<Longrightarrow> quiet st"
proof (induction bs arbitrary: st)
  case (Cons b bs)
  then have "quiet (feed e b st)" by (simp only: run_Cons)
  then show ?case by (rule quiet_feed)
qed simp

definition asks_status :: "env \<Rightarrow> byte list \<Rightarrow> bool" where
  "asks_status e bs \<longleftrightarrow>
     (\<exists>k\<le>length bs. in_status (fst (run e (take k bs) (WantType, False, [Reply [one_char]]))))"

lemma one_char_not_status: "status_reply x \<noteq> [one_char]"
  by (rule status_reply_not_ack)

lemma feed_quiet:
  assumes "quiet st" and "fst st \<noteq> WantProto"
  shows "fst (feed e b st) \<noteq> WantProto \<and> (in_status (fst (feed e b st)) \<or> quiet (feed e b st))"
proof -
  obtain ph a tr where st: "st = (ph, a, tr)" by (cases st)
  show ?thesis
    using assms status_reply_not_ack st
    by (cases ph) (auto simp: quiet_def trace_of_def accept_query_def)
qed

lemma run_quiet:
  assumes "quiet st" and "fst st \<noteq> WantProto"
    and "\<forall>k\<le>length bs. \<not> in_status (fst (run e (take k bs) st))"
  shows "quiet (run e bs st)"
  using assms
proof (induction bs arbitrary: st)
  case (Cons b bs)
  have "\<not> in_status (fst (feed e b st))"
    using spec [OF Cons.prems(3), of 1] by simp
  moreover have "\<forall>k\<le>length bs. \<not> in_status (fst (run e (take k bs) (feed e b st)))"
  proof (intro allI impI)
    fix k assume "k \<le> length bs"
    with spec [OF Cons.prems(3), of "Suc k"] show "\<not> in_status (fst (run e (take k bs) (feed e b st)))"
      by simp
  qed
  ultimately show ?case
    using Cons.IH [of "feed e b st"] feed_quiet [OF Cons.prems(1,2), of e b] by auto
qed simp

lemma quiet_session:
  "\<not> asks_status e bs \<Longrightarrow> quiet (run e bs (WantType, False, [Reply [one_char]]))"
  using status_reply_not_ack
  by (intro run_quiet) (auto simp: quiet_def trace_of_def asks_status_def)

section \<open>The loops\<close>

lemma lift_step_Inr:
  "lift_step x = Inr (c, s) \<longleftrightarrow> (\<exists>s1. x = Inr (c, s1) \<and> s = as_conn s1)"
  by (cases x) auto

text \<open>In a quiet state the bodies agree.\<close>

lemma quiet_loop_body:
  assumes "sim st (as_conn s)" and "quiet st"
  shows "lift_step (ht_loop_body (old_clock e) n s) = loop_body e n (as_conn s)"
  using assms by (intro lift_loop_body) (cases "fst st"; auto simp: sim_def quiet_def)

lemma ht_inner_loop_unfold:
  assumes "ht_pos s < n" "\<not> hd_stop s"
  shows "ht_inner_loop clk never n s =
    (case ht_loop_body clk n (ht_look never s) of
       Inl u \<Rightarrow> Some (Inl u)
     | Inr (c, s') \<Rightarrow> (case c of Break \<Rightarrow> Some (Inr s') | Next \<Rightarrow> ht_inner_loop clk never n s'))"
  using assms by (subst ht_inner_loop.simps) simp

lemma ht_inner_loop_stuck:
  assumes "phase_rel Stuck (as_conn s)" "ht_pos s < n"
  shows "ht_inner_loop clk never n s = None"
proof (rule ccontr)
  assume "ht_inner_loop clk never n s \<noteq> None"
  then obtain r where "ht_inner_loop clk never n s = Some r" by auto
  then have "\<not> (phase_rel Stuck (as_conn s) \<and> ht_pos s < n \<and> never = never)"
  proof (rule ht_inner_loop.raw_induct
      [where P = "\<lambda>clk halt n s r. \<not> (phase_rel Stuck (as_conn s) \<and> ht_pos s < n \<and> halt = never)", rotated])
    fix f clk halt n s r
    assume IH: "\<And>clk halt n s r. f clk halt n s = Some r \<Longrightarrow>
        \<not> (phase_rel Stuck (as_conn s) \<and> ht_pos s < n \<and> halt = never)"
      and eq: "(if ht_pos s < n then
        (if \<not> hd_stop (ht_look halt s) then
           (case ht_loop_body clk n (ht_look halt s) of
              Inl u \<Rightarrow> Some (Inl u)
            | Inr (c, s') \<Rightarrow> (case c of Break \<Rightarrow> Some (Inr s') | Next \<Rightarrow> f clk halt n s'))
         else Some (Inr (ht_look halt s)))
      else Some (Inr s)) = Some r"
    show "\<not> (phase_rel Stuck (as_conn s) \<and> ht_pos s < n \<and> halt = never)"
    proof
      assume st: "phase_rel Stuck (as_conn s) \<and> ht_pos s < n \<and> halt = never"
      have "ht_loop_body clk n (ht_look never s) = Inr (Next, ht_look never s)"
        using st by (simp add: ht_loop_body_def ht_dispatch_def ht_look_def)
      then have "f clk never n (ht_look never s) = Some r" using eq st by simp
      from IH [OF this] st show False by simp
    qed
  qed
  with assms show False by simp
qed

lemma lift_inner_loop:
  assumes "sim st (as_conn s)" "pending (fst st) = []" "ht_pos s \<le> n" "n \<le> DATABUFSIZE"
    and "quiet (run e (unread n (as_conn s)) st)"
  shows "map_option lift_state (ht_inner_loop (old_clock e) never n s) = inner_loop e n (as_conn s)"
  using assms
proof (induction "n - ht_pos s" arbitrary: s st rule: less_induct)
  case less
  have q: "quiet st" using less.prems(5) by (rule quiet_run)
  show ?case
  proof (cases "ht_pos s < n \<and> \<not> hd_stop s")
    case False
    then show ?thesis
      by (subst ht_inner_loop.simps, subst inner_loop.simps) auto
  next
    case True
    let ?s = "ht_look never s"
    have body: "lift_step (ht_loop_body (old_clock e) n ?s) = loop_body e n (as_conn s)"
      using quiet_loop_body [of st ?s e n] less.prems(1) q by simp
    note unfold = ht_inner_loop_unfold [of s n "old_clock e"]
    consider "fst st = Stuck" | "fst st = BadType" | "fst st \<noteq> Stuck" "fst st \<noteq> BadType" by blast
    then show ?thesis
    proof cases
      case 1
      with less.prems(1) True show ?thesis
        by (simp add: sim_def ht_inner_loop_stuck inner_loop_stuck)
    next
      case 2
      then have "loop_body e n (as_conn s) = Inl HeaderSizeIndex"
        using less.prems(1) by (simp add: sim_def loop_body_def read_header_def header_size_at_def)
      then have "ht_loop_body (old_clock e) n ?s = Inl HeaderSizeIndex"
        using body by (cases "ht_loop_body (old_clock e) n ?s") simp_all
      with True 2 less.prems(1) show ?thesis
        by (simp add: unfold inner_loop_bad_type sim_def)
    next
      case 3
      have "fst st \<noteq> Refused" using q by (simp add: quiet_def)
      with 3 True less.prems have "step_ok e n (as_conn s) st (loop_body e n (as_conn s))"
        by (intro loop_body_progress) auto
      then show ?thesis
        unfolding step_ok_def
      proof (elim disjE exE conjE)
        fix s1 st1
        assume s1: "loop_body e n (as_conn s) = Inr (Next, s1)" "pos (as_conn s) < pos s1"
          "pos s1 \<le> n" "sim st1 s1" "pending (fst st1) = []"
          "run e (unread n (as_conn s)) st = run e (unread n s1) st1"
        obtain t1 where t1: "ht_loop_body (old_clock e) n ?s = Inr (Next, t1)" "s1 = as_conn t1"
          using body s1(1) lift_step_Inr by metis
        have "map_option lift_state (ht_inner_loop (old_clock e) never n t1)
            = inner_loop e n (as_conn t1)"
          using s1 t1(2) True less.prems(4,5) by (intro less.hyps [of t1 st1]) auto
        moreover have "inner_loop e n (as_conn s) = inner_loop e n (as_conn t1)"
          using True s1(1) t1(2) by (subst inner_loop.simps) simp
        ultimately show ?thesis using True t1(1) by (simp add: unfold)
      next
        fix s1 st1
        assume s1: "loop_body e n (as_conn s) = Inr (Break, s1)"
        obtain t1 where t1: "ht_loop_body (old_clock e) n ?s = Inr (Break, t1)" "s1 = as_conn t1"
          using body s1 lift_step_Inr by metis
        with True s1 show ?thesis by (subst inner_loop.simps) (simp add: unfold)
      qed
    qed
  qed
qed

lemma lift_carry_over: "lift_state (ht_carry_over n s) = carry_over n (as_conn s)"
  by (simp add: ht_carry_over_def carry_over_def Let_def split: option.split)
    (simp add: as_conn_def)

lemma lift_on_recv:
  assumes c: "carried st (as_conn s)" and q: "quiet (run e bs st)" and bs: "length bs < BUFSIZE"
  shows "map_option lift_state (ht_on_recv (old_clock e) never (Received bs) s)
    = on_recv e (Received bs) (as_conn s)"
proof (cases "length bs + ht_leftoversize s = 0")
  case True
  then show ?thesis by (simp add: ht_on_recv_def on_recv_def) (simp add: as_conn_def)
next
  case False
  let ?n = "length bs + ht_leftoversize s"
  have sim: "sim st (as_conn s)" and nr: "fst st \<noteq> Refused"
    using c quiet_run [OF q] by (simp_all add: carried_def quiet_def)
  obtain d where cp: "memcpy (ht_data s) (ht_leftoversize s) (recv_buffer (Received bs)) BUFSIZE = Some d"
    and n: "?n \<le> DATABUFSIZE"
    and u: "unread ?n ((as_conn s)\<lparr>data := d, pos := 0\<rparr>) = pending (fst st) @ bs"
    and re: "sim (rewind st) ((as_conn s)\<lparr>data := d, pos := 0\<rparr>)"
    using recv_buffered [OF c nr bs] by auto
  let ?s = "s\<lparr>ht_data := d, ht_pos := 0\<rparr>"
  have s: "as_conn ?s = (as_conn s)\<lparr>data := d, pos := 0\<rparr>" by (simp add: as_conn_def)
  have inner: "inner_loop e ?n ((as_conn s)\<lparr>data := d, pos := 0\<rparr>)
      = map_option lift_state (ht_inner_loop (old_clock e) never ?n ?s)"
    unfolding s [symmetric]
    by (rule lift_inner_loop [symmetric, where st = "rewind st"])
      (use re n q in \<open>simp_all add: s u pending_rewind run_rewind [OF sim]\<close>)
  have pos: "0 < recv_ret (Received bs) + int (ht_leftoversize s)"
    "nat (recv_ret (Received bs) + int (ht_leftoversize s)) = ?n"
    using False by (cases bs; simp)+
  show ?thesis
    unfolding ht_on_recv_def on_recv_def Let_def
    by (simp only: as_conn_simps pos cp inner if_True option.case)
      (simp add: lift_carry_over split: option.split sum.split)
qed

lemma lift_on_recv_Inr:
  assumes "carried st (as_conn s)" "quiet (run e bs st)" "length bs < BUFSIZE"
    and "on_recv e (Received bs) (as_conn s) = Some (Inr s')"
  obtains t' where "ht_on_recv (old_clock e) never (Received bs) s = Some (Inr t')" "s' = as_conn t'"
proof -
  have "map_option lift_state (ht_on_recv (old_clock e) never (Received bs) s) = Some (Inr s')"
    using lift_on_recv [OF assms(1-3)] assms(4) by simp
  then obtain x where x: "ht_on_recv (old_clock e) never (Received bs) s = Some x"
    "lift_state x = Inr s'" by auto
  then show thesis using that by (cases x) auto
qed

text \<open>After the last chunk: the old handler, too, spins on an incomplete header.\<close>

lemma ht_main_loop_spin:
  assumes "carried (InHeader t h, a, tr) (as_conn s)" "h \<noteq> []" "quiet (InHeader t h, a, tr)"
  shows "ht_main_loop (old_clock e) never [] s = None"
proof (rule ccontr)
  let ?M = "\<lambda>s. carried (InHeader t h, a, tr) (as_conn s)"
  assume "ht_main_loop (old_clock e) never [] s \<noteq> None"
  then obtain r where "ht_main_loop (old_clock e) never [] s = Some r" by auto
  then have "\<not> (old_clock e = old_clock e \<and> never = never \<and> ([] :: recv_result list) = [] \<and> ?M s)"
  proof (rule ht_main_loop.raw_induct [where P = "\<lambda>clk halt rs s r.
      \<not> (clk = old_clock e \<and> halt = never \<and> rs = [] \<and> ?M s)", rotated])
    fix f clk halt rs s r
    assume IH: "\<And>clk halt rs s r. f clk halt rs s = Some r \<Longrightarrow>
        \<not> (clk = old_clock e \<and> halt = never \<and> rs = [] \<and> ?M s)"
      and eq: "(if \<not> hd_stop (ht_look halt s) then
        (case ht_on_recv clk halt (next_recv rs) (ht_look halt s) of
           None \<Rightarrow> None
         | Some x \<Rightarrow> (case x of Inl u \<Rightarrow> Some (Inl u) | Inr s' \<Rightarrow> f clk halt (tl rs) s'))
      else Some (Inr (ht_look halt s))) = Some r"
    show "\<not> (clk = old_clock e \<and> halt = never \<and> rs = [] \<and> ?M s)"
    proof
      assume m: "clk = old_clock e \<and> halt = never \<and> rs = [] \<and> ?M s"
      let ?s = "ht_look never s"
      have c: "carried (InHeader t h, a, tr) (as_conn ?s)" using m by simp
      obtain s' where s': "on_recv e (Received []) (as_conn ?s) = Some (Inr s')"
        "carried (InHeader t h, a, tr) s'"
        by (rule on_recv_short [OF c, of "Received []" "length h" e]) (use assms(2) in simp_all)
      obtain t' where t': "ht_on_recv (old_clock e) never (Received []) ?s = Some (Inr t')"
        "s' = as_conn t'"
        using lift_on_recv_Inr [OF c _ _ s'(1)] assms(3) by (auto simp: BUFSIZE_def)
      have "\<not> hd_stop s" using m by (auto simp: carried_def sim_def)
      with eq m t'(1) have "f (old_clock e) never [] t' = Some r" by (simp add: next_recv_def)
      from IH [OF this] s'(2) t'(2) show False by simp
    qed
  qed
  with assms(1) show False by simp
qed

lemma lift_main_loop_eof:
  assumes c: "carried st (as_conn s)" and q: "quiet st"
  shows "map_option lift_state (ht_main_loop (old_clock e) never [] s) = main_loop e [] (as_conn s)"
proof (cases "pending (fst st) = []")
  case True
  have nr: "fst st \<noteq> Refused" using q by (simp add: quiet_def)
  then have "leftoversize (as_conn s) = 0" "\<not> stop (as_conn s)"
    using c True not_stopped [of st "as_conn s"] by (auto simp: carried_def)
  then have "ht_main_loop (old_clock e) never [] s
      = ht_main_loop (old_clock e) never [] ((ht_look never s)\<lparr>hd_stop := True\<rparr>)"
    by (subst ht_main_loop.simps) (simp add: ht_on_recv_def next_recv_def ht_look_def)
  also have "\<dots> = Some (Inr (ht_look never ((ht_look never s)\<lparr>hd_stop := True\<rparr>)))"
    by (subst ht_main_loop.simps) simp
  finally show ?thesis
    using main_loop_eof [OF c nr True, of e] by (simp add: as_conn_def ht_look_def)
next
  case False
  then obtain t h a tr where st: "st = (InHeader t h, a, tr)" "h \<noteq> []"
    by (cases st; cases "fst st") auto
  with c q have "ht_main_loop (old_clock e) never [] s = None"
    by (intro ht_main_loop_spin) simp_all
  moreover have "main_loop e [] (as_conn s) = None"
    using c st by (intro main_loop_spin) (auto simp: mid_header_def)
  ultimately show ?thesis by simp
qed

lemma lift_main_loop:
  assumes "carried st (as_conn s)" and "list_all legal_chunk cs" and "quiet (run e (concat cs) st)"
  shows "map_option lift_state (ht_main_loop (old_clock e) never (map Received cs) s)
    = main_loop e (map Received cs) (as_conn s)"
  using assms
proof (induction cs arbitrary: st s)
  case Nil
  then show ?case by (simp add: lift_main_loop_eof)
next
  case (Cons c cs)
  let ?s = "ht_look never s" and ?st = "run e c st"
  have all: "run e (concat (c # cs)) st = run e (concat cs) ?st" by (simp add: run_append)
  have q1: "quiet ?st" using Cons.prems(3) unfolding all by (rule quiet_run)
  have nr: "fst st \<noteq> Refused" using quiet_run [OF q1] by (simp add: quiet_def)
  have legal: "c \<noteq> []" "length c < BUFSIZE" "list_all legal_chunk cs"
    using Cons.prems(2) by (simp_all add: legal_chunk_def [of c])
  have look: "carried st (as_conn ?s)" using Cons.prems(1) by simp
  have ns: "\<not> hd_stop s" using Cons.prems(1) nr not_stopped [of st "as_conn s"]
    by (simp add: carried_def)
  have old: "ht_main_loop (old_clock e) never (map Received (c # cs)) s =
      (case ht_on_recv (old_clock e) never (Received c) ?s of
         None \<Rightarrow> None
       | Some x \<Rightarrow> (case x of Inl u \<Rightarrow> Some (Inl u)
                    | Inr s' \<Rightarrow> ht_main_loop (old_clock e) never (map Received cs) s'))"
    using ns by (subst ht_main_loop.simps)
      (simp add: next_recv_def cong: option.case_cong sum.case_cong)
  have new: "main_loop e (map Received (c # cs)) (as_conn s) =
      (case on_recv e (Received c) (as_conn s) of
         None \<Rightarrow> None
       | Some x \<Rightarrow> (case x of Inl u \<Rightarrow> Some (Inl u)
                    | Inr s' \<Rightarrow> main_loop e (map Received cs) s'))"
    using ns by (subst main_loop.simps)
      (simp add: next_recv_def cong: option.case_cong sum.case_cong)
  have recv: "on_recv e (Received c) (as_conn s)
      = map_option lift_state (ht_on_recv (old_clock e) never (Received c) ?s)"
    using lift_on_recv [OF look q1 legal(2)] by simp
  have next_state: "carried ?st s'" if "on_recv e (Received c) (as_conn s) = Some (Inr s')" for s'
    using on_recv_run [OF Cons.prems(1) nr legal(1,2), of e] that by (cases "fst ?st") auto
  have IH: "map_option lift_state (ht_main_loop (old_clock e) never (map Received cs) t)
      = main_loop e (map Received cs) (as_conn t)"
    if "ht_on_recv (old_clock e) never (Received c) ?s = Some (Inr t)" for t
    using Cons.IH [of ?st t] next_state [of "as_conn t"] recv that legal(3) Cons.prems(3) all by simp
  show ?case
    unfolding old new recv using IH by (simp split: option.split sum.split)
qed

section \<open>The replacement\<close>

lemma carried_ht_init: "carried (WantType, False, [Reply [one_char]]) (as_conn (ht_init (ht_new fd)))"
  by (simp add: carried_def sim_def ht_init_def ht_new_def handler_thread.defs thread_conn.defs)

text \<open>What the new handler's client sees of a session of the old one.\<close>

fun behind_handshake ::
  "(ub + (event list \<times> handler_thread)) option \<Rightarrow> (ub + event list) option" where
  "behind_handshake (Some (Inr (evs, t))) = Some (Inr (Reply [one_char] # evs))"
| "behind_handshake (Some (Inl u)) = Some (Inl u)"
| "behind_handshake None = None"

lemma behind_handshake_main:
  "behind_handshake (ht_thread_main clk halt rs t)
     = result (map_option lift_state (ht_main_loop clk halt rs (ht_init t)))"
  by (auto simp: ht_thread_main_def result_def ht_finish_def finish_def send_reply_def
      ht_event_def Let_def split: option.split sum.split)

text \<open>
  C14: the handler that replaced \<open>GearStreamClientHandlerThread\<close> kept its behaviour. On every
  byte stream without a status request, cut into receives in any way, the new handler given the
  version byte first replies \<open>1\<close> and then does exactly what the old one does on the stream:
  the same replies, queue entries and log lines, the same end, or the same hang or undefined
  subscript.
\<close>

theorem replacement_keeps_behaviour:
  assumes "\<forall>c\<in>set cs. c \<noteq> [] \<and> length c < 2048" and "\<not> asks_status e (concat cs)"
  shows "handler_main e (map Received ([1] # cs))
    = behind_handshake (ht_thread_main (old_clock e) never (map Received cs) (ht_new fd))"
proof -
  let ?st = "(WantType, False, [Reply [one_char]])"
  have legal: "list_all legal_chunk cs" "list_all legal_chunk ([1] # cs)"
    using assms(1) by (simp_all add: list_all_iff legal_chunk_def BUFSIZE_def)
  have "handler_main e (map Received ([1] # cs)) = at_eof (run e (concat cs) ?st)"
    using handler_main_spec [OF legal(2), of e] by (simp add: spec_session_def)
  also have "\<dots> = result (main_loop e (map Received cs) (as_conn (ht_init (ht_new fd))))"
    using session_from [OF carried_ht_init legal(1)] by simp
  also have "\<dots> = behind_handshake (ht_thread_main (old_clock e) never (map Received cs) (ht_new fd))"
    unfolding behind_handshake_main
    by (subst lift_main_loop [OF carried_ht_init legal(1) quiet_session [OF assms(2)]]) simp
  finally show ?thesis .
qed

lemma sample_asks_no_status: "\<not> asks_status sample_env [3, 2, 0, 0, 0, 65, 66]"
proof -
  have "payload_size_of [2, 0, 0, 0] = 2" by (simp add: payload_size_of_def le32_def)
  then show ?thesis
    by (simp add: asks_status_def less_Suc_eq_le [symmetric] Ex_less_Suc numeral_eq_Suc
        header_len_of_def)
qed

theorem replacement_keeps_behaviour_witness:
  "handler_main sample_env (map Received [[1], [3, 2], [0, 0, 0, 65], [66]])
     = behind_handshake (ht_thread_main (old_clock sample_env) never
         (map Received [[3, 2], [0, 0, 0, 65], [66]]) (ht_new 5))"
  using replacement_keeps_behaviour [of "[[3, 2], [0, 0, 0, 65], [66]]" sample_env 5]
    sample_asks_no_status by simp

end
