(* ===== verification/Config.thy ===== *)
theory Config
  imports Prelude
begin

text \<open>
  The configuration (\<^verbatim>\<open>src/src/config.h\<close>, \<^verbatim>\<open>src/src/mysqlserver.h\<close>) and its loader
  (\<open>load_config\<close> in \<^verbatim>\<open>src/src/main.cpp\<close>): a chain of \<open>line.find\<close> tests per line, the value
  read with \<open>>>\<close> from what follows the first equals sign.
\<close>

section \<open>The data\<close>

record mysql_server_entry =
  connection_string :: string
  last_error :: u64 \<comment> \<open>a long, seconds\<close>

record config =
  app_name :: string
  rundaemonized :: bool
  pid_file :: string
  error_log :: string
  gear_server_enable :: bool
  obey_work_retry_count :: bool
  gear_server_port :: int
  gear_server_host :: string
  gear_server_backlog :: int
  gear_server_rcv_timeout_sec :: int
  gear_server_rcv_timeout_usec :: int
  gear_server_snd_timeout_sec :: int
  gear_server_snd_timeout_usec :: int
  gear_server_max_connections :: int
  gear_bind_network_device :: bool
  gear_network_device :: string
  work_retry_count :: int
  mysql_server :: "mysql_server_entry list"
  syslogOutput :: bool
  mysql_initialconnections :: int
  mysql_maxconnections :: int

definition default_config :: config where
  "default_config =
     \<lparr>app_name = ''mysqlgeard'', rundaemonized = False,
      pid_file = ''/usr/local/run/ztk/mysqlgeard.pid'',
      error_log = ''/var/log/mysqlgeard/output.log'',
      gear_server_enable = True, obey_work_retry_count = False,
      gear_server_port = 1370, gear_server_host = ''127.0.0.1'', gear_server_backlog = 500,
      gear_server_rcv_timeout_sec = 3, gear_server_rcv_timeout_usec = 0,
      gear_server_snd_timeout_sec = 3, gear_server_snd_timeout_usec = 0,
      gear_server_max_connections = 20, gear_bind_network_device = False,
      gear_network_device = ''eth0'', work_retry_count = 3, mysql_server = [],
      syslogOutput = False, mysql_initialconnections = 6, mysql_maxconnections = 50\<rparr>"

text \<open>The globals \<open>config\<close>, \<open>APP_NAME\<close> and \<open>PID_FILE\<close> of \<^verbatim>\<open>main.cpp\<close>.\<close>

record globals =
  conf :: config
  APP_NAME :: string
  PID_FILE :: string

section \<open>std::string and std::istringstream\<close>

text \<open>\<open>s.find(pat)\<close>; \<open>None\<close> is \<open>npos\<close>.\<close>

fun str_find :: "'a list \<Rightarrow> 'a list \<Rightarrow> nat option" where
  "str_find pat [] = (if pat = [] then Some 0 else None)"
| "str_find pat (c # cs) =
     (if take (length pat) (c # cs) = pat then Some 0 else map_option Suc (str_find pat cs))"

definition contains :: "'a list \<Rightarrow> 'a list \<Rightarrow> bool" where
  "contains pat s \<longleftrightarrow> str_find pat s \<noteq> None"

text \<open>\<open>line.substr(line.find('=') + 1)\<close>: \<open>npos + 1\<close> is 0, so a line without \<open>=\<close> is its own value.\<close>

definition value_of :: "string \<Rightarrow> string" where
  "value_of line = (case str_find ''='' line of None \<Rightarrow> line | Some i \<Rightarrow> drop (i + 1) line)"

definition is_space :: "char \<Rightarrow> bool" where
  "is_space c \<longleftrightarrow> c \<in> {CHR '' '', CHR 0x09, CHR 0x0A, CHR 0x0B, CHR 0x0C, CHR 0x0D}"

definition is_dec :: "char \<Rightarrow> bool" where
  "is_dec c \<longleftrightarrow> 48 \<le> (of_char c :: nat) \<and> (of_char c :: nat) < 58"

text \<open>
  The extraction operators skip white space first. When nothing is left the sentry fails and the
  variable keeps its value (\<open>None\<close>).
\<close>

definition extract_word :: "string \<Rightarrow> string option" where
  "extract_word s =
     (let r = dropWhile is_space s in if r = [] then None else Some (takeWhile (Not \<circ> is_space) r))"

definition digits_val :: "string \<Rightarrow> int" where
  "digits_val ds = foldl (\<lambda>n c. 10 * n + (of_char c - 48)) 0 ds"

text \<open>An optional sign and the longest run of digits; without digits the number is 0.\<close>

fun number_prefix :: "string \<Rightarrow> int" where
  "number_prefix [] = 0"
| "number_prefix (c # cs) =
     (if c = CHR ''-'' then - digits_val (takeWhile is_dec cs)
      else if c = CHR ''+'' then digits_val (takeWhile is_dec cs)
      else digits_val (takeWhile is_dec (c # cs)))"

definition clamp_int :: "int \<Rightarrow> int" where
  "clamp_int n = (if n < - (2 ^ 31) then - (2 ^ 31) else if 2 ^ 31 \<le> n then 2 ^ 31 - 1 else n)"

definition extract_int :: "string \<Rightarrow> int option" where
  "extract_int s =
     (let r = dropWhile is_space s in if r = [] then None else Some (clamp_int (number_prefix r)))"

text \<open>Into a \<open>bool\<close>: 0 (or no number) is false, every other number is true.\<close>

definition extract_bool :: "string \<Rightarrow> bool option" where
  "extract_bool s =
     (let r = dropWhile is_space s in if r = [] then None else Some (number_prefix r \<noteq> 0))"

text \<open>\<open>sin >> field\<close>: a failed extraction leaves the field alone.\<close>

definition assign :: "'a option \<Rightarrow> ('a \<Rightarrow> config \<Rightarrow> config) \<Rightarrow> globals \<Rightarrow> globals" where
  "assign v upd g = (case v of None \<Rightarrow> g | Some x \<Rightarrow> g\<lparr>conf := upd x (conf g)\<rparr>)"

section \<open>load_config\<close>

definition load_line :: "string \<Rightarrow> globals \<Rightarrow> globals" where
  "load_line line g =
     (let v = value_of line in
      if contains ''app_name'' line then
        (let g = assign (extract_word v) (\<lambda>x c. c\<lparr>app_name := x\<rparr>) g
         in g\<lparr>APP_NAME := app_name (conf g)\<rparr>)
      else if contains ''pid_file'' line then
        (let g = assign (extract_word v) (\<lambda>x c. c\<lparr>pid_file := x\<rparr>) g
         in g\<lparr>PID_FILE := pid_file (conf g)\<rparr>)
      else if contains ''gear_server_port'' line then
        assign (extract_int v) (\<lambda>x c. c\<lparr>gear_server_port := x\<rparr>) g
      else if contains ''gear_server_host'' line then
        assign (extract_word v) (\<lambda>x c. c\<lparr>gear_server_host := x\<rparr>) g
      else if contains ''gear_server_backlog'' line then
        assign (extract_int v) (\<lambda>x c. c\<lparr>gear_server_backlog := x\<rparr>) g
      else if contains ''gear_network_device'' line then
        assign (extract_word v) (\<lambda>x c. c\<lparr>gear_network_device := x\<rparr>) g
      else if contains ''bind_network_device'' line then
        assign (extract_bool v) (\<lambda>x c. c\<lparr>gear_bind_network_device := x\<rparr>) g
      else if contains ''gear_server_rcv_timeout_sec'' line then
        assign (extract_int v) (\<lambda>x c. c\<lparr>gear_server_rcv_timeout_sec := x\<rparr>) g
      else if contains ''gear_server_rcv_timeout_usec'' line then
        assign (extract_int v) (\<lambda>x c. c\<lparr>gear_server_rcv_timeout_usec := x\<rparr>) g
      else if contains ''gear_server_snd_timeout_sec'' line then
        assign (extract_int v) (\<lambda>x c. c\<lparr>gear_server_snd_timeout_sec := x\<rparr>) g
      else if contains ''gear_server_snd_timeout_usec'' line then
        assign (extract_int v) (\<lambda>x c. c\<lparr>gear_server_snd_timeout_usec := x\<rparr>) g
      else if contains ''gear_server_max_connections'' line then
        assign (extract_int v) (\<lambda>x c. c\<lparr>gear_server_max_connections := x\<rparr>) g
      else if contains ''work_retry_count'' line then
        assign (extract_int v) (\<lambda>x c. c\<lparr>work_retry_count := x\<rparr>) g
      else if contains ''obey_work_retry_count'' line then
        assign (extract_bool v) (\<lambda>x c. c\<lparr>obey_work_retry_count := x\<rparr>) g
      else if contains ''mysql_server'' line then
        (let s = \<lparr>connection_string = [], last_error = 0\<rparr>;
             s = (case extract_word v of None \<Rightarrow> s | Some x \<Rightarrow> s\<lparr>connection_string := x\<rparr>)
         in g\<lparr>conf := (conf g)\<lparr>mysql_server := mysql_server (conf g) @ [s]\<rparr>\<rparr>)
      else if contains ''mysql_initialconnections'' line then
        assign (extract_int v) (\<lambda>x c. c\<lparr>mysql_initialconnections := x\<rparr>) g
      else if contains ''mysql_maxconnections'' line then
        assign (extract_int v) (\<lambda>x c. c\<lparr>mysql_maxconnections := x\<rparr>) g
      else g)"

text \<open>The lines \<open>getline\<close> returns: a last line without a newline counts, an empty rest does not.\<close>

definition newline :: char where "newline = CHR 0x0A"

function lines_of :: "string \<Rightarrow> string list" where
  "lines_of s =
     (if s = [] then []
      else takeWhile (\<lambda>c. c \<noteq> newline) s # lines_of (tl (dropWhile (\<lambda>c. c \<noteq> newline) s)))"
  by pat_completeness auto
termination
proof (relation "measure length")
  fix s :: string
  assume "s \<noteq> []"
  moreover have "length (dropWhile (\<lambda>c. c \<noteq> newline) s) \<le> length s"
    by (rule length_dropWhile_le)
  ultimately show "(tl (dropWhile (\<lambda>c. c \<noteq> newline) s), s) \<in> measure length"
    by (cases s) auto
qed simp

declare lines_of.simps [simp del]

text \<open>
  \<open>load_config\<close> on the contents of the file; \<open>None\<close>: the file cannot be opened, which the code
  does not notice. It returns 1 in every case.
\<close>

definition load_config :: "string option \<Rightarrow> globals \<Rightarrow> int \<times> globals" where
  "load_config file g =
     (let g = g\<lparr>conf := (conf g)\<lparr>mysql_server := []\<rparr>\<rparr>
      in (1, fold load_line (case file of None \<Rightarrow> [] | Some s \<Rightarrow> lines_of s) g))"

section \<open>Searching\<close>

lemma contains_Nil: "contains pat [] \<longleftrightarrow> pat = []"
  by (simp add: contains_def)

lemma contains_Cons:
  "contains pat (c # cs) \<longleftrightarrow> take (length pat) (c # cs) = pat \<or> contains pat cs"
  by (simp add: contains_def)

lemma contains_prefix: "contains pat (pat @ s)"
proof (cases "pat @ s")
  case Nil
  then show ?thesis by (simp add: contains_Nil)
next
  case (Cons c cs)
  have "take (length pat) (pat @ s) = pat" by simp
  with Cons show ?thesis by (metis contains_Cons)
qed

lemma contains_iff: "contains pat s \<longleftrightarrow> (\<exists>pre post. s = pre @ pat @ post)"
proof
  show "contains pat s \<Longrightarrow> \<exists>pre post. s = pre @ pat @ post"
  proof (induction s)
    case Nil
    then show ?case by (simp add: contains_Nil)
  next
    case (Cons c cs)
    then consider "take (length pat) (c # cs) = pat" | "contains pat cs"
      by (auto simp: contains_Cons)
    then show ?case
    proof cases
      case 1
      then have "c # cs = [] @ pat @ drop (length pat) (c # cs)"
        by (metis append_Nil append_take_drop_id)
      then show ?thesis by blast
    next
      case 2
      with Cons.IH show ?thesis by (metis append_Cons)
    qed
  qed
  have "contains pat (pre @ pat @ post)" for pre post
    by (induction pre) (simp_all add: contains_prefix contains_Cons)
  then show "\<exists>pre post. s = pre @ pat @ post \<Longrightarrow> contains pat s" by blast
qed

lemma contains_separator:
  assumes "c \<notin> set pat" and "pat \<noteq> []"
  shows "contains pat (xs @ c # ys) \<longleftrightarrow> contains pat xs \<or> contains pat ys"
proof
  assume "contains pat (xs @ c # ys)"
  then obtain pre post where "xs @ c # ys = pre @ (pat @ post)"
    by (auto simp: contains_iff)
  then consider us where "xs = pre @ us" "us @ c # ys = pat @ post"
    | us where "pre = xs @ us" "c # ys = us @ pat @ post"
    by (auto simp: append_eq_append_conv2)
  then show "contains pat xs \<or> contains pat ys"
  proof cases
    case 1
    then consider vs where "us = pat @ vs" | vs where "pat = us @ vs" "c # ys = vs @ post"
      by (auto simp: append_eq_append_conv2)
    then show ?thesis
    proof cases
      case 1
      with \<open>xs = pre @ us\<close> show ?thesis by (auto simp: contains_iff)
    next
      case 2
      with assms(1) have "vs = []" by (cases vs) auto
      with 2 \<open>xs = pre @ us\<close> have "xs = pre @ pat @ []" by simp
      then show ?thesis unfolding contains_iff by blast
    qed
  next
    case 2
    from assms obtain d ds where "pat = d # ds" "d \<noteq> c" by (cases pat) auto
    with 2 obtain us' where "us = c # us'" "ys = us' @ pat @ post" by (cases us) auto
    then show ?thesis by (auto simp: contains_iff)
  qed
next
  assume "contains pat xs \<or> contains pat ys"
  then consider pre post where "xs = pre @ pat @ post" | pre post where "ys = pre @ pat @ post"
    by (auto simp: contains_iff)
  then show "contains pat (xs @ c # ys)"
  proof cases
    case 1
    then have "xs @ c # ys = pre @ pat @ (post @ c # ys)" by simp
    then show ?thesis unfolding contains_iff by blast
  next
    case 2
    then have "xs @ c # ys = (xs @ c # pre) @ pat @ post" by simp
    then show ?thesis unfolding contains_iff by blast
  qed
qed

lemma contains_trans: "contains p q \<Longrightarrow> contains q s \<Longrightarrow> contains p s"
  unfolding contains_iff by (metis append.assoc)

lemma str_find_char: "c \<notin> set xs \<Longrightarrow> str_find [c] (xs @ c # ys) = Some (length xs)"
  by (induction xs) auto

lemma value_of_line: "CHR ''='' \<notin> set k \<Longrightarrow> value_of (k @ CHR ''='' # v) = v"
  by (simp add: value_of_def str_find_char)

section \<open>Writing a configuration file\<close>

text \<open>
  The specification: a file is a list of settings, each of which sets one field. A setting is
  written as in \<^verbatim>\<open>src/src/files/server.conf\<close>, \<open>key = value\<close> on a line of its own.
\<close>

datatype int_option = Port | Backlog | RcvSec | RcvUsec | SndSec | SndUsec | MaxClients
  | RetryCount | InitialConnections | MaxConnections

datatype word_option = AppName | PidFile | Host | Device

datatype setting =
    IntSetting int_option int
  | WordSetting word_option string
  | BindSetting bool
  | ServerSetting string

fun int_key :: "int_option \<Rightarrow> string" where
  "int_key Port = ''gear_server_port''"
| "int_key Backlog = ''gear_server_backlog''"
| "int_key RcvSec = ''gear_server_rcv_timeout_sec''"
| "int_key RcvUsec = ''gear_server_rcv_timeout_usec''"
| "int_key SndSec = ''gear_server_snd_timeout_sec''"
| "int_key SndUsec = ''gear_server_snd_timeout_usec''"
| "int_key MaxClients = ''gear_server_max_connections''"
| "int_key RetryCount = ''work_retry_count''"
| "int_key InitialConnections = ''mysql_initialconnections''"
| "int_key MaxConnections = ''mysql_maxconnections''"

fun word_key :: "word_option \<Rightarrow> string" where
  "word_key AppName = ''app_name''"
| "word_key PidFile = ''pid_file''"
| "word_key Host = ''gear_server_host''"
| "word_key Device = ''gear_network_device''"

fun set_int :: "int_option \<Rightarrow> int \<Rightarrow> config \<Rightarrow> config" where
  "set_int Port n c = c\<lparr>gear_server_port := n\<rparr>"
| "set_int Backlog n c = c\<lparr>gear_server_backlog := n\<rparr>"
| "set_int RcvSec n c = c\<lparr>gear_server_rcv_timeout_sec := n\<rparr>"
| "set_int RcvUsec n c = c\<lparr>gear_server_rcv_timeout_usec := n\<rparr>"
| "set_int SndSec n c = c\<lparr>gear_server_snd_timeout_sec := n\<rparr>"
| "set_int SndUsec n c = c\<lparr>gear_server_snd_timeout_usec := n\<rparr>"
| "set_int MaxClients n c = c\<lparr>gear_server_max_connections := n\<rparr>"
| "set_int RetryCount n c = c\<lparr>work_retry_count := n\<rparr>"
| "set_int InitialConnections n c = c\<lparr>mysql_initialconnections := n\<rparr>"
| "set_int MaxConnections n c = c\<lparr>mysql_maxconnections := n\<rparr>"

fun set_word :: "word_option \<Rightarrow> string \<Rightarrow> globals \<Rightarrow> globals" where
  "set_word AppName w g = g\<lparr>conf := (conf g)\<lparr>app_name := w\<rparr>, APP_NAME := w\<rparr>"
| "set_word PidFile w g = g\<lparr>conf := (conf g)\<lparr>pid_file := w\<rparr>, PID_FILE := w\<rparr>"
| "set_word Host w g = g\<lparr>conf := (conf g)\<lparr>gear_server_host := w\<rparr>\<rparr>"
| "set_word Device w g = g\<lparr>conf := (conf g)\<lparr>gear_network_device := w\<rparr>\<rparr>"

fun apply_setting :: "setting \<Rightarrow> globals \<Rightarrow> globals" where
  "apply_setting (IntSetting k n) g = g\<lparr>conf := set_int k n (conf g)\<rparr>"
| "apply_setting (WordSetting k w) g = set_word k w g"
| "apply_setting (BindSetting b) g = g\<lparr>conf := (conf g)\<lparr>gear_bind_network_device := b\<rparr>\<rparr>"
| "apply_setting (ServerSetting s) g =
     g\<lparr>conf := (conf g)\<lparr>mysql_server :=
          mysql_server (conf g) @ [\<lparr>connection_string = s, last_error = 0\<rparr>]\<rparr>\<rparr>"

fun dec_chars :: "nat \<Rightarrow> string" where
  "dec_chars n = (if n < 10 then [char_of (48 + n)]
                  else dec_chars (n div 10) @ [char_of (48 + n mod 10)])"

declare dec_chars.simps [simp del]

definition int_chars :: "int \<Rightarrow> string" where
  "int_chars i = (if i < 0 then CHR ''-'' # dec_chars (nat (- i)) else dec_chars (nat i))"

fun setting_key :: "setting \<Rightarrow> string" where
  "setting_key (IntSetting k n) = int_key k"
| "setting_key (WordSetting k w) = word_key k"
| "setting_key (BindSetting b) = ''bind_network_device''"
| "setting_key (ServerSetting s) = ''mysql_server''"

fun setting_value :: "setting \<Rightarrow> string" where
  "setting_value (IntSetting k n) = int_chars n"
| "setting_value (WordSetting k w) = w"
| "setting_value (BindSetting b) = (if b then ''1'' else ''0'')"
| "setting_value (ServerSetting s) = s"

definition write_setting :: "setting \<Rightarrow> string" where
  "write_setting s = setting_key s @ '' = '' @ setting_value s"

definition write_config :: "setting list \<Rightarrow> string" where
  "write_config ss = concat (map (\<lambda>s. write_setting s @ [newline]) ss)"

text \<open>The strings \<open>load_config\<close> searches for, in its order.\<close>

definition option_keys :: "string list" where
  "option_keys =
     [''app_name'', ''pid_file'', ''gear_server_port'', ''gear_server_host'',
      ''gear_server_backlog'', ''gear_network_device'', ''bind_network_device'',
      ''gear_server_rcv_timeout_sec'', ''gear_server_rcv_timeout_usec'',
      ''gear_server_snd_timeout_sec'', ''gear_server_snd_timeout_usec'',
      ''gear_server_max_connections'', ''work_retry_count'', ''obey_work_retry_count'',
      ''mysql_server'', ''mysql_initialconnections'', ''mysql_maxconnections'']"

text \<open>A value that \<open>>>\<close> reads as one word and that holds none of the option names.\<close>

definition plain_word :: "string \<Rightarrow> bool" where
  "plain_word w \<longleftrightarrow> w \<noteq> [] \<and> list_all (Not \<circ> is_space) w
     \<and> list_all (\<lambda>k. \<not> contains k w) option_keys"

fun valid_setting :: "setting \<Rightarrow> bool" where
  "valid_setting (IntSetting k n) \<longleftrightarrow> - (2 ^ 31) \<le> n \<and> n < 2 ^ 31"
| "valid_setting (WordSetting k w) \<longleftrightarrow> plain_word w"
| "valid_setting (BindSetting b) \<longleftrightarrow> True"
| "valid_setting (ServerSetting s) \<longleftrightarrow> plain_word s"

section \<open>Reading back what was written\<close>

lemma of_char_digit: "d < 10 \<Longrightarrow> of_char (char_of (48 + d :: nat)) = (48 + d :: nat)"
  by simp

lemma is_dec_digit: "d < 10 \<Longrightarrow> is_dec (char_of (48 + d :: nat))"
  by (simp add: is_dec_def)

lemma dec_chars_digits: "list_all is_dec (dec_chars n)"
proof (induction n rule: dec_chars.induct)
  case (1 n)
  then show ?case by (simp add: dec_chars.simps [of n] is_dec_digit)
qed

lemma digits_val_snoc: "digits_val (ds @ [c]) = 10 * digits_val ds + (of_char c - 48)"
  by (simp add: digits_val_def)

lemma digits_val_dec: "digits_val (dec_chars n) = int n"
proof (induction n rule: dec_chars.induct)
  case (1 n)
  have digit: "d < 10 \<Longrightarrow> (of_char (char_of (48 + d :: nat)) :: int) = 48 + int d" for d
    by (metis of_char_digit of_nat_add of_nat_numeral of_nat_of_char)
  show ?case
  proof (cases "n < 10")
    case True
    then show ?thesis using digit [of n]
      by (simp add: dec_chars.simps [of n] digits_val_def del: of_char_of)
  next
    case False
    then have "digits_val (dec_chars n) = 10 * int (n div 10) + int (n mod 10)"
      using 1 digit [of "n mod 10"]
      by (simp add: dec_chars.simps [of n] digits_val_snoc del: of_char_of)
    then show ?thesis by (simp add: zdiv_int zmod_int)
  qed
qed

lemma dec_chars_nonempty: "dec_chars n \<noteq> []"
  by (simp add: dec_chars.simps [of n])

lemma takeWhile_digits: "list_all is_dec ds \<Longrightarrow> takeWhile is_dec ds = ds"
  by (simp add: takeWhile_eq_all_conv list_all_iff)

lemma not_dec: "\<not> is_dec CHR ''-''" "\<not> is_dec CHR ''+''" "\<not> is_dec CHR '' ''"
  by (simp_all add: is_dec_def)

lemma is_dec_not_space: "is_dec c \<Longrightarrow> \<not> is_space c"
  by (auto simp: is_dec_def is_space_def)

lemma number_prefix_digits:
  assumes "list_all is_dec ds" and "ds \<noteq> []"
  shows "number_prefix ds = digits_val ds"
proof (cases ds)
  case (Cons c cs)
  then have "c \<noteq> CHR ''-'' \<and> c \<noteq> CHR ''+''" using assms not_dec by auto
  moreover have "takeWhile is_dec (c # cs) = c # cs"
    using takeWhile_digits [OF assms(1)] Cons by simp
  ultimately show ?thesis unfolding Cons number_prefix.simps by simp
qed (use assms in simp)

lemma number_prefix_int: "number_prefix (int_chars i) = i"
  by (simp add: int_chars_def number_prefix_digits dec_chars_digits dec_chars_nonempty
      takeWhile_digits digits_val_dec)

lemma int_chars_set: "c \<in> set (int_chars i) \<Longrightarrow> c = CHR ''-'' \<or> is_dec c"
  using dec_chars_digits [of "nat i"] dec_chars_digits [of "nat (- i)"]
  by (auto simp: int_chars_def list_all_iff split: if_splits)

lemma int_chars_nonempty: "int_chars i \<noteq> []"
  by (simp add: int_chars_def dec_chars_nonempty)

lemma int_chars_no_space: "list_all (Not \<circ> is_space) (int_chars i)"
  using int_chars_set is_dec_not_space by (fastforce simp: list_all_iff is_space_def)

lemma dropWhile_space:
  assumes "list_all (Not \<circ> is_space) w" and "w \<noteq> []"
  shows "dropWhile is_space (CHR '' '' # w) = w"
  using assms by (cases w) (simp_all add: is_space_def)

lemma extract_int_written:
  "- (2 ^ 31) \<le> n \<Longrightarrow> n < 2 ^ 31 \<Longrightarrow> extract_int (CHR '' '' # int_chars n) = Some n"
  by (simp add: extract_int_def dropWhile_space [OF int_chars_no_space int_chars_nonempty]
      int_chars_nonempty number_prefix_int clamp_int_def del: dropWhile.simps)

lemma extract_word_written:
  assumes "list_all (Not \<circ> is_space) w" and "w \<noteq> []"
  shows "extract_word (CHR '' '' # w) = Some w"
proof -
  have "takeWhile (Not \<circ> is_space) w = w"
    using assms(1) by (simp add: takeWhile_eq_all_conv list_all_iff)
  then show ?thesis
    using assms by (simp add: extract_word_def dropWhile_space [OF assms] del: dropWhile.simps)
qed

lemma extract_bool_written: "extract_bool (CHR '' '' # (if b then ''1'' else ''0'')) = Some b"
  by (simp add: extract_bool_def is_space_def is_dec_def digits_val_def)

lemma option_key_chars:
  "k \<in> set option_keys \<Longrightarrow> k \<noteq> [] \<and> CHR ''='' \<notin> set k \<and> CHR '' '' \<notin> set k \<and> \<not> is_dec (last k)
     \<and> last k \<noteq> CHR ''-''"
  by (simp add: option_keys_def is_dec_def) (elim disjE; simp)

lemma setting_key_chars:
  "setting_key s \<in> set option_keys"
proof (cases s)
  case (IntSetting k n)
  then show ?thesis by (cases k) (simp_all add: option_keys_def)
next
  case (WordSetting k w)
  then show ?thesis by (cases k) (simp_all add: option_keys_def)
qed (simp_all add: option_keys_def)

lemma value_has_no_key:
  assumes "valid_setting s" and "k \<in> set option_keys"
  shows "\<not> contains k (setting_value s)"
proof -
  have number: "\<not> contains k v" if "\<And>c. c \<in> set v \<Longrightarrow> c = CHR ''-'' \<or> is_dec c" for v
  proof
    assume "contains k v"
    then obtain pre post where "v = pre @ k @ post" by (auto simp: contains_iff)
    then have "last k \<in> set v" using option_key_chars [OF assms(2)] by simp
    with that option_key_chars [OF assms(2)] show False by blast
  qed
  show ?thesis
  proof (cases s)
    case (IntSetting i n)
    then show ?thesis using number int_chars_set by simp
  next
    case (BindSetting b)
    have "\<not> contains k ''0''" by (rule number) (simp add: is_dec_def)
    moreover have "\<not> contains k ''1''" by (rule number) (simp add: is_dec_def)
    ultimately show ?thesis using BindSetting by simp
  qed (use assms in \<open>auto simp: plain_word_def list_all_iff\<close>)
qed

lemma contains_written:
  assumes "valid_setting s" and k: "k \<in> set option_keys"
  shows "contains k (write_setting s) \<longleftrightarrow> contains k (setting_key s)"
proof -
  have split1: "contains k (xs @ CHR ''='' # ys) \<longleftrightarrow> contains k xs \<or> contains k ys" for xs ys
    using option_key_chars [OF k] by (simp add: contains_separator)
  have split2: "contains k (xs @ CHR '' '' # ys) \<longleftrightarrow> contains k xs \<or> contains k ys" for xs ys
    using option_key_chars [OF k] by (simp add: contains_separator)
  have "\<not> contains k []" using option_key_chars [OF k] by (simp add: contains_Nil)
  moreover have "write_setting s = (setting_key s @ CHR '' '' # []) @ CHR ''='' # ([] @ CHR '' '' # setting_value s)"
    by (simp add: write_setting_def)
  ultimately show ?thesis
    using value_has_no_key [OF assms] by (simp only: split1 split2) blast
qed

lemma value_of_written: "value_of (write_setting s) = CHR '' '' # setting_value s"
proof -
  have "CHR ''='' \<notin> set (setting_key s @ '' '')"
    using option_key_chars [OF setting_key_chars [of s]] by simp
  from value_of_line [OF this] show ?thesis by (simp add: write_setting_def)
qed

lemmas contains_literal = contains_Cons contains_Nil

lemma option_key_members:
  "''app_name'' \<in> set option_keys" "''pid_file'' \<in> set option_keys"
  "''gear_server_port'' \<in> set option_keys" "''gear_server_host'' \<in> set option_keys"
  "''gear_server_backlog'' \<in> set option_keys" "''gear_network_device'' \<in> set option_keys"
  "''bind_network_device'' \<in> set option_keys"
  "''gear_server_rcv_timeout_sec'' \<in> set option_keys"
  "''gear_server_rcv_timeout_usec'' \<in> set option_keys"
  "''gear_server_snd_timeout_sec'' \<in> set option_keys"
  "''gear_server_snd_timeout_usec'' \<in> set option_keys"
  "''gear_server_max_connections'' \<in> set option_keys"
  "''work_retry_count'' \<in> set option_keys" "''obey_work_retry_count'' \<in> set option_keys"
  "''mysql_server'' \<in> set option_keys" "''mysql_initialconnections'' \<in> set option_keys"
  "''mysql_maxconnections'' \<in> set option_keys"
  by (simp_all add: option_keys_def)

lemma load_line_written:
  assumes "valid_setting s"
  shows "load_line (write_setting s) g = apply_setting s g"
proof -
  note written = option_key_members [THEN contains_written [OF assms]]
  show ?thesis
  proof (cases s)
    case (IntSetting k n)
    with assms have "extract_int (CHR '' '' # int_chars n) = Some n"
      by (simp add: extract_int_written)
    with IntSetting show ?thesis unfolding load_line_def written value_of_written
      by (cases k) (simp_all add: contains_literal assign_def)
  next
    case (WordSetting k w)
    with assms have "extract_word (CHR '' '' # w) = Some w"
      by (simp add: extract_word_written plain_word_def)
    with WordSetting show ?thesis unfolding load_line_def written value_of_written
      by (cases k) (simp_all add: contains_literal assign_def Let_def)
  next
    case (BindSetting b)
    have "extract_bool '' 1'' = Some True" "extract_bool '' 0'' = Some False"
      using extract_bool_written [of True] extract_bool_written [of False] by simp_all
    with BindSetting show ?thesis unfolding load_line_def written value_of_written
      by (cases b) (simp_all add: contains_literal assign_def)
  next
    case (ServerSetting c)
    with assms have "extract_word (CHR '' '' # c) = Some c"
      by (simp add: extract_word_written plain_word_def)
    with ServerSetting show ?thesis unfolding load_line_def written value_of_written
      by (simp add: contains_literal Let_def)
  qed
qed

lemma lines_of_Nil: "lines_of [] = []"
  by (simp add: lines_of.simps [of "[]"])

lemma lines_of_line: "newline \<notin> set l \<Longrightarrow> lines_of (l @ newline # rest) = l # lines_of rest"
proof -
  assume "newline \<notin> set l"
  then have "\<And>c. c \<in> set l \<Longrightarrow> c \<noteq> newline" by blast
  then show ?thesis
    by (subst lines_of.simps) (simp add: takeWhile_append2 dropWhile_append2)
qed

lemma setting_no_newline:
  assumes "valid_setting s"
  shows "newline \<notin> set (write_setting s)"
proof -
  have "newline \<notin> set k" if "k \<in> set option_keys" for k
    using that by (simp add: option_keys_def newline_def) (elim disjE; simp)
  moreover have "newline \<notin> set w" if "list_all (Not \<circ> is_space) w" for w
    using that by (auto simp: list_all_iff newline_def is_space_def)
  then have "newline \<notin> set (setting_value s)"
    using assms int_chars_no_space by (cases s) (auto simp: plain_word_def newline_def)
  ultimately show ?thesis
    using setting_key_chars [of s] by (simp add: write_setting_def newline_def)
qed

lemma lines_of_config:
  "list_all valid_setting ss \<Longrightarrow> lines_of (write_config ss) = map write_setting ss"
  by (induction ss) (simp_all add: write_config_def lines_of_Nil lines_of_line setting_no_newline)

lemma fold_written:
  "list_all valid_setting ss \<Longrightarrow>
   fold load_line (map write_setting ss) g = fold apply_setting ss g"
  by (induction ss arbitrary: g) (simp_all add: load_line_written)

text \<open>
  C30: a configuration file written as a list of valid settings, one \<open>key = value\<close> line
  each, loads as exactly these settings applied in the order of the lines, over a configuration
  whose server list is emptied first. Values may be any 32 bit number and any word that holds
  no white space and none of the option names.
\<close>

theorem config_file_roundtrip:
  assumes "list_all valid_setting ss"
  shows "load_config (Some (write_config ss)) g =
           (1, fold apply_setting ss (g\<lparr>conf := (conf g)\<lparr>mysql_server := []\<rparr>\<rparr>))"
  by (simp add: load_config_def lines_of_config [OF assms] fold_written [OF assms])

definition sample_settings :: "setting list" where
  "sample_settings =
     [WordSetting AppName ''geard'', IntSetting Port 1371, BindSetting False,
      ServerSetting ''mysql://u:p@h/db'', IntSetting RetryCount (- 1)]"

definition sample_globals :: globals where
  "sample_globals = \<lparr>conf = default_config, APP_NAME = ''MysqlGear'', PID_FILE = []\<rparr>"

lemma sample_settings_valid: "list_all valid_setting sample_settings"
  by (simp add: sample_settings_def plain_word_def option_keys_def is_space_def contains_literal)

theorem config_file_roundtrip_witness:
  "gear_server_port (conf (snd (load_config (Some (write_config sample_settings)) sample_globals)))
     = 1371
   \<and> map connection_string (mysql_server
        (conf (snd (load_config (Some (write_config sample_settings)) sample_globals))))
     = [''mysql://u:p@h/db'']"
  unfolding config_file_roundtrip [OF sample_settings_valid]
  by (simp add: sample_settings_def)

lemma obey_shadowed: "contains ''obey_work_retry_count'' l \<Longrightarrow> contains ''work_retry_count'' l"
  by (erule contains_trans [rotated]) (simp add: contains_literal)

lemma assign_other:
  "(\<And>x c. f (upd x c) = f c) \<Longrightarrow> f (conf (assign v upd g)) = f (conf g)"
  by (simp add: assign_def split: option.split)

lemma load_line_obey:
  "obey_work_retry_count (conf (load_line l g)) = obey_work_retry_count (conf g)"
  using obey_shadowed [of l]
  by (simp add: load_line_def Let_def assign_other [where f = obey_work_retry_count])

lemma fold_load_line_obey:
  "obey_work_retry_count (conf (fold load_line ls g)) = obey_work_retry_count (conf g)"
  by (induction ls arbitrary: g) (simp_all add: load_line_obey)

text \<open>
  C31: no configuration file changes \<open>obey_work_retry_count\<close>: every line that holds the
  option's name also holds \<open>work_retry_count\<close>, whose test comes first. So the retry limit
  keeps its default, off.
\<close>

theorem obey_retry_never_set:
  "obey_work_retry_count (conf (snd (load_config file g))) = obey_work_retry_count (conf g)"
  by (simp add: load_config_def fold_load_line_obey)

text \<open>
  Loading a file that cannot be opened reports success (the value 1) and loses the database
  servers that were configured: nothing else changes.
\<close>

lemma load_missing_file:
  "load_config None g = (1, g\<lparr>conf := (conf g)\<lparr>mysql_server := []\<rparr>\<rparr>)"
  by (simp add: load_config_def)

end
