(* ===== verification/Outside.thy ===== *)
theory Outside
  imports Prelude
begin

text \<open>
  What lies outside the program on its database side: libzdb (a third party library whose
  archive the build unpacks), the system clock, \<open>usleep\<close> and \<open>syslog\<close>. libzdb and the clock
  are a parameter of the model, the record \<open>outside\<close>, whose operations act on a state of an
  unknown type \<open>'z\<close>; the components take the record as an argument and thread the state.
  Nothing is assumed of the operations here.
\<close>

section \<open>Exceptions\<close>

text \<open>
  \<open>zdb::sql_exception\<close> with its text, or any other exception derived from \<open>std::exception\<close>. libzdb and
  the standard library throw no exception of another kind, so \<open>catch (const std::exception &)\<close> catches
  all of them.
\<close>

datatype exn = SqlException "byte list" | OtherException

section \<open>libzdb and the clock\<close>

text \<open>
  A pool and a connection are handles. \<open>con_close\<close> is the destructor of \<open>zdb::Connection\<close>, and
  \<open>con_null\<close> the comparison of a connection with \<open>nullptr\<close>.
\<close>

record 'z outside =
  pool_new :: "string \<Rightarrow> 'z \<Rightarrow> (exn + nat) \<times> 'z"
  pool_set_abort_handler :: "nat \<Rightarrow> 'z \<Rightarrow> 'z"
  pool_set_initial :: "nat \<Rightarrow> int \<Rightarrow> 'z \<Rightarrow> 'z"
  pool_set_max :: "nat \<Rightarrow> int \<Rightarrow> 'z \<Rightarrow> 'z"
  pool_get_initial :: "nat \<Rightarrow> 'z \<Rightarrow> int"
  pool_get_max :: "nat \<Rightarrow> 'z \<Rightarrow> int"
  pool_active :: "nat \<Rightarrow> 'z \<Rightarrow> int"
  pool_start :: "nat \<Rightarrow> 'z \<Rightarrow> exn option \<times> 'z"
  pool_stop :: "nat \<Rightarrow> 'z \<Rightarrow> exn option \<times> 'z"
  pool_delete :: "nat \<Rightarrow> 'z \<Rightarrow> exn option \<times> 'z"
  pool_get_connection :: "nat \<Rightarrow> 'z \<Rightarrow> (exn + nat) \<times> 'z"
  pool_return_connection :: "nat \<Rightarrow> nat \<Rightarrow> 'z \<Rightarrow> exn option \<times> 'z"
  con_null :: "nat \<Rightarrow> bool"
  con_ping :: "nat \<Rightarrow> 'z \<Rightarrow> (exn + bool) \<times> 'z"
  con_execute :: "nat \<Rightarrow> byte list \<Rightarrow> 'z \<Rightarrow> exn option \<times> 'z"
  con_close :: "nat \<Rightarrow> 'z \<Rightarrow> 'z"
  clock_seconds :: "'z \<Rightarrow> u64 \<times> 'z"
  sleep_usec :: "nat \<Rightarrow> 'z \<Rightarrow> 'z"

section \<open>The system log\<close>

text \<open>A call of \<open>syslog\<close>: its format string and the arguments printed into it.\<close>

datatype log_arg = CharsArg string | BytesArg "byte list" | IntArg int

type_synonym log_entry = "string \<times> log_arg list"

record 'z world =
  ext :: 'z
  syslog :: "log_entry list"

definition call :: "('z \<Rightarrow> 'a \<times> 'z) \<Rightarrow> 'z world \<Rightarrow> 'a \<times> 'z world" where
  "call f w = (case f (ext w) of (r, z) \<Rightarrow> (r, w\<lparr>ext := z\<rparr>))"

definition run_ext :: "('z \<Rightarrow> 'z) \<Rightarrow> 'z world \<Rightarrow> 'z world" where
  "run_ext f w = w\<lparr>ext := f (ext w)\<rparr>"

definition write_log :: "string \<Rightarrow> log_arg list \<Rightarrow> 'z world \<Rightarrow> 'z world" where
  "write_log fmt args w = w\<lparr>syslog := syslog w @ [(fmt, args)]\<rparr>"

lemma syslog_call: "call f w = (r, w') \<Longrightarrow> syslog w' = syslog w"
  by (auto simp: call_def split: prod.splits)

lemma syslog_run_ext [simp]: "syslog (run_ext f w) = syslog w"
  by (simp add: run_ext_def)

lemma ext_write_log [simp]: "ext (write_log fmt args w) = ext w"
  by (simp add: write_log_def)

lemma syslog_write_log [simp]: "syslog (write_log fmt args w) = syslog w @ [(fmt, args)]"
  by (simp add: write_log_def)

end
