(* ===== verification/LibzdbHandler.thy ===== *)
theory LibzdbHandler
  imports Config Outside
begin

text \<open>
  \<^verbatim>\<open>src/src/utils/libzdb/LibzdbHandler.h\<close> and \<^verbatim>\<open>LibzdbHandler.cpp\<close>: the handler of the
  database connection pool. It chooses one of the configured servers, starts a pool on it and
  keeps, in the configuration, when a server last failed.

  The handler's state is \<open>libzdb_handler\<close>. The configuration is the object the handler's
  pointer refers to (\<open>None\<close>: the pointer is null); the pool is a handle of libzdb.
\<close>

section \<open>The state\<close>

record libzdb_handler =
  lh_config :: "config option"
  dbserverindex :: "nat option" \<comment> \<open>\<open>None\<close>: not assigned since the constructor\<close>
  conpool :: "nat option" \<comment> \<open>\<open>None\<close>: nullptr\<close>

definition lh_new :: "config option \<Rightarrow> libzdb_handler" where
  "lh_new c = \<lparr>lh_config = c, dbserverindex = None, conpool = None\<rparr>"

definition hasConnectionPool :: "libzdb_handler \<Rightarrow> bool" where
  "hasConnectionPool h \<longleftrightarrow> conpool h \<noteq> None"

section \<open>Reading and setting the limits\<close>

definition getActiveDatabaseConnections :: "'z outside \<Rightarrow> libzdb_handler \<Rightarrow> 'z world \<Rightarrow> int" where
  "getActiveDatabaseConnections z h w =
     (case conpool h of None \<Rightarrow> 0 | Some p \<Rightarrow> pool_active z p (ext w))"

definition getMaxDatabaseConnections :: "'z outside \<Rightarrow> libzdb_handler \<Rightarrow> 'z world \<Rightarrow> int" where
  "getMaxDatabaseConnections z h w =
     (case conpool h of None \<Rightarrow> 0 | Some p \<Rightarrow> pool_get_max z p (ext w))"

definition setMaxDatabaseConnections ::
  "'z outside \<Rightarrow> int \<Rightarrow> libzdb_handler \<Rightarrow> 'z world \<Rightarrow> bool \<times> 'z world" where
  "setMaxDatabaseConnections z n h w =
     (case conpool h of
        None \<Rightarrow> (False, w)
      | Some p \<Rightarrow>
          if pool_get_initial z p (ext w) < n then (True, run_ext (pool_set_max z p n) w)
          else (False, w))"

section \<open>Connections\<close>

text \<open>\<open>ping\<close> swallows every exception; the connection is closed when it leaves the scope.\<close>

definition ping :: "'z outside \<Rightarrow> libzdb_handler \<Rightarrow> 'z world \<Rightarrow> bool \<times> 'z world" where
  "ping z h w =
     (case conpool h of
        None \<Rightarrow> (False, w)
      | Some p \<Rightarrow>
          (case call (pool_get_connection z p) w of
             (Inl _, w) \<Rightarrow> (False, w)
           | (Inr c, w) \<Rightarrow>
               (case call (con_ping z c) w of
                  (Inl _, w) \<Rightarrow> (False, run_ext (con_close z c) w)
                | (Inr b, w) \<Rightarrow>
                    (case call (pool_return_connection z p c) w of
                       (_, w) \<Rightarrow> (b, run_ext (con_close z c) w)))))"

text \<open>\<open>None\<close>: \<open>LibzdbHandlerNoConPoolException\<close>.\<close>

definition getConnection :: "'z outside \<Rightarrow> libzdb_handler \<Rightarrow> 'z world \<Rightarrow> nat option \<times> 'z world" where
  "getConnection z h w =
     (case conpool h of
        None \<Rightarrow> (None, w)
      | Some p \<Rightarrow>
          (case call (pool_get_connection z p) w of
             (Inl _, w) \<Rightarrow> (None, w)
           | (Inr c, w) \<Rightarrow> (Some c, w)))"

definition returnConnection :: "'z outside \<Rightarrow> nat \<Rightarrow> libzdb_handler \<Rightarrow> 'z world \<Rightarrow> 'z world" where
  "returnConnection z c h w =
     (case conpool h of
        None \<Rightarrow> w
      | Some p \<Rightarrow> (case call (pool_return_connection z p c) w of (_, w) \<Rightarrow> w))"

definition disconnect ::
  "'z outside \<Rightarrow> libzdb_handler \<Rightarrow> 'z world \<Rightarrow> libzdb_handler \<times> 'z world" where
  "disconnect z h w =
     (case conpool h of
        None \<Rightarrow> (h, w)
      | Some p \<Rightarrow>
          (let w = write_log ''calling stop on conpool'' [] w in
           (h\<lparr>conpool := None\<rparr>,
            (case call (pool_stop z p) w of
               (Some _, w) \<Rightarrow> w
             | (None, w) \<Rightarrow>
                 (let w = write_log ''deleting conpool'' [] w in
                  (case call (pool_delete z p) w of (_, w) \<Rightarrow> w))))))"

text \<open>What libzdb calls, as its abort handler, on a fatal error; the argument is a C string.\<close>

definition zdbErrorHandler :: "byte list \<Rightarrow> 'z world \<Rightarrow> 'z world" where
  "zdbErrorHandler error w = write_log ''zdb Error %s'' [BytesArg error] w"

section \<open>Choosing a server\<close>

definition mark_failed :: "u64 \<Rightarrow> nat \<Rightarrow> config \<Rightarrow> config" where
  "mark_failed now i c =
     c\<lparr>mysql_server := (mysql_server c)[i := (mysql_server c ! i)\<lparr>last_error := now\<rparr>]\<rparr>"

text \<open>The guard is \<open>0 >= index\<close> on an unsigned index.\<close>

definition setConnectionFaulty ::
  "'z outside \<Rightarrow> nat \<Rightarrow> config \<Rightarrow> 'z world \<Rightarrow> config \<times> 'z world" where
  "setConnectionFaulty z i c w =
     (if 0 \<ge> i \<and> i < length (mysql_server c)
      then (case call (clock_seconds z) w of (now, w) \<Rightarrow> (mark_failed now i c, w))
      else (c, w))"

text \<open>\<open>0 == last_error || 30 < now - last_error\<close> on 64 bit unsigned numbers.\<close>

definition viable :: "u64 \<Rightarrow> mysql_server_entry \<Rightarrow> bool" where
  "viable now s \<longleftrightarrow> last_error s = 0 \<or> 30 < now - last_error s"

fun viable_from :: "u64 \<Rightarrow> nat \<Rightarrow> mysql_server_entry list \<Rightarrow> nat option" where
  "viable_from now i [] = None"
| "viable_from now i (s # ss) = (if viable now s then Some i else viable_from now (i + 1) ss)"

definition setViableConnectionConfigIndex ::
  "'z outside \<Rightarrow> config \<Rightarrow> libzdb_handler \<Rightarrow> 'z world \<Rightarrow> bool \<times> libzdb_handler \<times> 'z world" where
  "setViableConnectionConfigIndex z c h w =
     (case call (clock_seconds z) w of
        (now, w) \<Rightarrow>
          (case viable_from now 0 (mysql_server c) of
             None \<Rightarrow> (False, h, w)
           | Some i \<Rightarrow> (True, h\<lparr>dbserverindex := Some i\<rparr>, w)))"

section \<open>connect\<close>

text \<open>The handler of \<open>catch (zdb::sql_exception)\<close>; any other exception leaves \<open>connect\<close>.\<close>

definition connect_failed ::
  "'z outside \<Rightarrow> exn \<Rightarrow> config \<Rightarrow> libzdb_handler \<Rightarrow> 'z world \<Rightarrow>
   ub + (exn option \<times> libzdb_handler \<times> 'z world)" where
  "connect_failed z e c h w =
     (case e of
        OtherException \<Rightarrow> Inr (Some e, h, w)
      | SqlException what \<Rightarrow>
          (case dbserverindex h of
             None \<Rightarrow> Inl Uninitialised
           | Some i \<Rightarrow>
               (case (if i < length (mysql_server c)
                      then (case call (clock_seconds z) w of (now, w) \<Rightarrow> (mark_failed now i c, w))
                      else (c, w)) of
                  (c, w) \<Rightarrow>
                    Inr (None, h\<lparr>lh_config := Some c\<rparr>, write_log ''error: %s'' [BytesArg what] w))))"

text \<open>The \<open>try\<close> block.\<close>

definition connect_new ::
  "'z outside \<Rightarrow> config \<Rightarrow> libzdb_handler \<Rightarrow> 'z world \<Rightarrow>
   ub + (exn option \<times> libzdb_handler \<times> 'z world)" where
  "connect_new z c h w =
     (case setViableConnectionConfigIndex z c h w of
        (False, h, w) \<Rightarrow>
          Inr (None, h, run_ext (sleep_usec z 10000000)
                          (write_log ''got no viable database connection config'' [] w))
      | (True, h, w) \<Rightarrow>
          (case dbserverindex h of
             None \<Rightarrow> Inl Uninitialised
           | Some i \<Rightarrow>
               if i < length (mysql_server c) then
                 (case call (pool_new z (connection_string (mysql_server c ! i))) w of
                    (Inl e, w) \<Rightarrow> connect_failed z e c h w
                  | (Inr p, w) \<Rightarrow>
                      (let h = h\<lparr>conpool := Some p\<rparr>;
                           w = run_ext (pool_set_abort_handler z p) w;
                           w = run_ext (pool_set_initial z p (mysql_initialconnections c)) w;
                           w = run_ext (pool_set_max z p (mysql_maxconnections c)) w
                       in (case call (pool_start z p) w of
                             (Some e, w) \<Rightarrow> connect_failed z e c h w
                           | (None, w) \<Rightarrow>
                               (case ping z h w of
                                  (_, w) \<Rightarrow>
                                    Inr (None, h, write_log ''onpool started using: %s''
                                           [CharsArg (connection_string (mysql_server c ! i))] w)))))
               else Inr (None, h, w)))"

definition connect ::
  "'z outside \<Rightarrow> libzdb_handler \<Rightarrow> 'z world \<Rightarrow>
   ub + (exn option \<times> libzdb_handler \<times> 'z world)" where
  "connect z h w =
     (case lh_config h of
        None \<Rightarrow> Inr (None, h, w)
      | Some c \<Rightarrow>
          (case ping z h w of
             (True, w) \<Rightarrow> Inr (None, h, w)
           | (False, w) \<Rightarrow>
               (case (case conpool h of
                        None \<Rightarrow> Inr (c, w)
                      | Some _ \<Rightarrow>
                          (case dbserverindex h of
                             None \<Rightarrow> Inl Uninitialised
                           | Some i \<Rightarrow> Inr (setConnectionFaulty z i c w))) of
                  Inl e \<Rightarrow> Inl e
                | Inr (c, w) \<Rightarrow>
                    (case disconnect z (h\<lparr>lh_config := Some c\<rparr>) w of
                       (h, w) \<Rightarrow> connect_new z c h w))))"

section \<open>The choice of a server\<close>

lemma viable_from_None: "viable_from now i ss = None \<longleftrightarrow> (\<forall>s\<in>set ss. \<not> viable now s)"
  by (induction ss arbitrary: i) auto

lemma viable_from_Some:
  "viable_from now i ss = Some k \<Longrightarrow>
   i \<le> k \<and> k - i < length ss \<and> viable now (ss ! (k - i)) \<and> (\<forall>j < k - i. \<not> viable now (ss ! j))"
proof (induction ss arbitrary: i)
  case Nil
  then show ?case by simp
next
  case (Cons s ss)
  show ?case
  proof (cases "viable now s")
    case True
    with Cons.prems show ?thesis by simp
  next
    case False
    with Cons.prems have "viable_from now (i + 1) ss = Some k" by simp
    from Cons.IH [OF this] have IH: "i + 1 \<le> k" "k - (i + 1) < length ss"
      "viable now (ss ! (k - (i + 1)))" "\<forall>j < k - (i + 1). \<not> viable now (ss ! j)" by auto
    then have k: "k - i = Suc (k - (i + 1))" by simp
    have "\<not> viable now ((s # ss) ! j)" if "j < k - i" for j
      using that IH(4) False k by (cases j) auto
    with IH k show ?thesis by simp
  qed
qed

text \<open>
  The specification: a server may be used when it has not failed or failed more than 30
  seconds ago. The unsigned subtraction agrees with it as long as no failure lies in the future.
\<close>

definition eligible :: "u64 \<Rightarrow> mysql_server_entry \<Rightarrow> bool" where
  "eligible now s \<longleftrightarrow> last_error s = 0 \<or> uint (last_error s) + 30 < uint now"

lemma viable_eligible:
  assumes "last_error s \<le> now"
  shows "viable now s = eligible now s"
proof -
  have "uint (now - last_error s) = uint now - uint (last_error s)"
    using assms by (simp add: uint_minus_simple_alt word_le_def)
  then show ?thesis by (auto simp: viable_def eligible_def word_less_def)
qed

definition least_eligible :: "u64 \<Rightarrow> mysql_server_entry list \<Rightarrow> nat \<Rightarrow> bool" where
  "least_eligible now ss i \<longleftrightarrow>
     i < length ss \<and> eligible now (ss ! i) \<and> (\<forall>j < i. \<not> eligible now (ss ! j))"

definition past_errors :: "u64 \<Rightarrow> mysql_server_entry list \<Rightarrow> bool" where
  "past_errors now ss \<longleftrightarrow> (\<forall>s\<in>set ss. last_error s \<le> now)"

lemma viable_from_cases:
  assumes "past_errors now ss"
  obtains (none) "viable_from now 0 ss = None" "\<forall>s\<in>set ss. \<not> eligible now s"
  | (found) i where "viable_from now 0 ss = Some i" "least_eligible now ss i"
proof (cases "viable_from now 0 ss")
  case None
  with assms show ?thesis
    by (intro none) (auto simp: viable_from_None viable_eligible past_errors_def)
next
  case (Some i)
  from viable_from_Some [OF this]
  have "i < length ss" "viable now (ss ! i)" "\<forall>j < i. \<not> viable now (ss ! j)" by auto
  moreover have "viable now (ss ! j) = eligible now (ss ! j)" if "j < length ss" for j
    using that assms by (simp add: viable_eligible past_errors_def)
  ultimately have "least_eligible now ss i" by (auto simp: least_eligible_def)
  with Some show ?thesis by (rule found)
qed

lemma viable_from_least:
  assumes "past_errors now ss" and "least_eligible now ss i"
  shows "viable_from now 0 ss = Some i"
proof (rule viable_from_cases [OF assms(1)])
  assume "\<forall>s\<in>set ss. \<not> eligible now s"
  with assms(2) show ?thesis by (auto simp: least_eligible_def)
next
  fix k assume k: "viable_from now 0 ss = Some k" "least_eligible now ss k"
  with assms(2) have "k = i"
    unfolding least_eligible_def by (metis linorder_neqE_nat)
  with k show ?thesis by simp
qed

section \<open>The interface of the handler\<close>

text \<open>
  What the rest of the program uses of the handler, and the laws it may rely on: without a pool
  there is no connection and nothing happens, connections come and go without a word in the
  system log, and after \<open>disconnect\<close> there is no pool, whatever libzdb throws.
\<close>

locale connections =
  fixes has :: "'h \<Rightarrow> bool"
    and get :: "'h \<Rightarrow> 'w \<Rightarrow> nat option \<times> 'w"
    and give_back :: "nat \<Rightarrow> 'h \<Rightarrow> 'w \<Rightarrow> 'w"
    and close_all :: "'h \<Rightarrow> 'w \<Rightarrow> 'h \<times> 'w"
    and logged :: "'w \<Rightarrow> log_entry list"
  assumes get_without_pool: "\<not> has h \<Longrightarrow> get h w = (None, w)"
    and give_back_without_pool: "\<not> has h \<Longrightarrow> give_back c h w = w"
    and get_quiet: "get h w = (r, w') \<Longrightarrow> logged w' = logged w"
    and give_back_quiet: "logged (give_back c h w) = logged w"
    and close_all_clears: "close_all h w = (h', w') \<Longrightarrow> \<not> has h'"
    and close_all_without_pool: "\<not> has h \<Longrightarrow> close_all h w = (h, w)"
begin

lemma closed_gives_nothing: "close_all h w = (h', w') \<Longrightarrow> get h' v = (None, v)"
  by (rule get_without_pool) (rule close_all_clears)

lemma close_all_twice:
  "close_all h w = (h', w') \<Longrightarrow> close_all h' v = (h', v)"
  by (rule close_all_without_pool) (rule close_all_clears)

lemma use_is_quiet:
  "get h w = (Some c, w') \<Longrightarrow> logged (give_back c h w') = logged w"
  by (simp add: give_back_quiet get_quiet)

end

lemma disconnect_result:
  "disconnect z h w = (h', w') \<Longrightarrow> h' = h\<lparr>conpool := None\<rparr>"
  by (cases h) (auto simp: disconnect_def Let_def split: option.splits)

interpretation db: connections hasConnectionPool "getConnection z" "returnConnection z"
  "disconnect z" syslog for z :: "'z outside"
proof
  fix h :: libzdb_handler and w :: "'z world" and r w'
  assume "getConnection z h w = (r, w')"
  then show "syslog w' = syslog w"
    by (auto simp: getConnection_def dest!: syslog_call split: option.splits prod.splits sum.splits)
next
  fix c and h :: libzdb_handler and w :: "'z world"
  show "syslog (returnConnection z c h w) = syslog w"
    by (auto simp: returnConnection_def dest!: syslog_call split: option.splits prod.splits)
next
  fix h :: libzdb_handler and w :: "'z world" and h' w'
  assume "disconnect z h w = (h', w')"
  then show "\<not> hasConnectionPool h'" by (auto simp: hasConnectionPool_def dest: disconnect_result)
qed (auto simp: hasConnectionPool_def getConnection_def returnConnection_def disconnect_def)

section \<open>A laboratory for concrete runs\<close>

text \<open>
  A concrete \<open>outside\<close>: servers that are up or down, a clock that ticks at every reading, and
  the queries that were executed. It is used to apply theorems to concrete values.
\<close>

record lab =
  lab_time :: u64
  lab_down :: "string list"
  lab_pools :: "(string \<times> bool) list" \<comment> \<open>server and whether the pool was started\<close>
  lab_queries :: "byte list list"

definition lab_alive :: "nat \<Rightarrow> lab \<Rightarrow> bool" where
  "lab_alive p s \<longleftrightarrow> p < length (lab_pools s) \<and> snd (lab_pools s ! p)
     \<and> fst (lab_pools s ! p) \<notin> set (lab_down s)"

definition lab_start :: "nat \<Rightarrow> lab \<Rightarrow> exn option \<times> lab" where
  "lab_start p s =
     (if fst (lab_pools s ! p) \<in> set (lab_down s) then (Some (SqlException [100]), s)
      else (None, s\<lparr>lab_pools := (lab_pools s)[p := (fst (lab_pools s ! p), True)]\<rparr>))"

definition lab_outside :: "(byte list \<Rightarrow> exn option) \<Rightarrow> lab outside" where
  "lab_outside answer =
     \<lparr>pool_new = (\<lambda>url s. (Inr (length (lab_pools s)), s\<lparr>lab_pools := lab_pools s @ [(url, False)]\<rparr>)),
      pool_set_abort_handler = (\<lambda>p s. s),
      pool_set_initial = (\<lambda>p n s. s),
      pool_set_max = (\<lambda>p n s. s),
      pool_get_initial = (\<lambda>p s. 6),
      pool_get_max = (\<lambda>p s. 50),
      pool_active = (\<lambda>p s. 0),
      pool_start = lab_start,
      pool_stop = (\<lambda>p s. (None, s)),
      pool_delete = (\<lambda>p s. (None, s)),
      pool_get_connection = (\<lambda>p s. (if lab_alive p s then Inr p else Inl (SqlException [110]), s)),
      pool_return_connection = (\<lambda>p c s. (None, s)),
      con_null = (\<lambda>c. False),
      con_ping = (\<lambda>c s. (Inr (lab_alive c s), s)),
      con_execute = (\<lambda>c q s. (answer q, s\<lparr>lab_queries := lab_queries s @ [q]\<rparr>)),
      con_close = (\<lambda>c s. s),
      clock_seconds = (\<lambda>s. (lab_time s, s\<lparr>lab_time := lab_time s + 1\<rparr>)),
      sleep_usec = (\<lambda>n s. s\<lparr>lab_time := lab_time s + word_of_nat (n div 1000000)\<rparr>)\<rparr>"

definition lab_servers :: "mysql_server_entry list \<Rightarrow> config" where
  "lab_servers ss = default_config\<lparr>mysql_server := ss\<rparr>"

definition lab_world :: "u64 \<Rightarrow> string list \<Rightarrow> (string \<times> bool) list \<Rightarrow> lab world" where
  "lab_world t down pools =
     \<lparr>ext = \<lparr>lab_time = t, lab_down = down, lab_pools = pools, lab_queries = []\<rparr>, syslog = []\<rparr>"

lemmas lab_simps = lab_outside_def lab_alive_def lab_start_def lab_servers_def lab_world_def
  call_def run_ext_def write_log_def default_config_def

section \<open>The properties of the choice\<close>

text \<open>
  \<open>setViableConnectionConfigIndex\<close> chooses the first server of the configuration that has
  not failed in the last 30 seconds, and reports false, leaving the index alone, exactly when
  every server has. (As long as no recorded failure is later than the clock.)
\<close>

lemma server_choice:
  assumes "call (clock_seconds z) w = (now, w')"
    and "past_errors now (mysql_server c)"
  shows "(\<exists>i. least_eligible now (mysql_server c) i \<and>
            setViableConnectionConfigIndex z c h w = (True, h\<lparr>dbserverindex := Some i\<rparr>, w'))
       \<or> (setViableConnectionConfigIndex z c h w = (False, h, w') \<and>
            (\<forall>s\<in>set (mysql_server c). \<not> eligible now s))"
  using assms by (elim viable_from_cases) (auto simp: setViableConnectionConfigIndex_def)

section \<open>The invariant of the handler\<close>

text \<open>The index is assigned before the first pool exists.\<close>

definition lh_ok :: "libzdb_handler \<Rightarrow> bool" where
  "lh_ok h \<longleftrightarrow> (hasConnectionPool h \<longrightarrow> dbserverindex h \<noteq> None)"

text \<open>The configuration up to the times of failure.\<close>

definition without_errors :: "config \<Rightarrow> config" where
  "without_errors c = c\<lparr>mysql_server := map (\<lambda>s. s\<lparr>last_error := 0\<rparr>) (mysql_server c)\<rparr>"

definition good_connect ::
  "libzdb_handler \<Rightarrow> ub + (exn option \<times> libzdb_handler \<times> 'z world) \<Rightarrow> bool" where
  "good_connect h r \<longleftrightarrow>
     (case r of
        Inl _ \<Rightarrow> False
      | Inr (_, h', _) \<Rightarrow> lh_ok h' \<and>
          map_option without_errors (lh_config h') = map_option without_errors (lh_config h))"

lemma without_errors_mark_failed [simp]: "without_errors (mark_failed now i c) = without_errors c"
proof (cases "i < length (mysql_server c)")
  case True
  then have "map (\<lambda>s. s\<lparr>last_error := 0\<rparr>) ((mysql_server c)[i := (mysql_server c ! i)\<lparr>last_error := now\<rparr>])
    = map (\<lambda>s. s\<lparr>last_error := 0\<rparr>) (mysql_server c)"
    by (simp add: list_eq_iff_nth_eq nth_list_update)
  then show ?thesis by (simp add: without_errors_def mark_failed_def)
qed (simp add: mark_failed_def without_errors_def list_update_beyond)

lemma without_errors_faulty:
  "setConnectionFaulty z i c w = (c', w') \<Longrightarrow> without_errors c' = without_errors c"
  by (auto simp: setConnectionFaulty_def split: if_splits prod.splits)

lemma good_connect_cong:
  "map_option without_errors (lh_config h') = map_option without_errors (lh_config h) \<Longrightarrow>
   good_connect h' r = good_connect h r"
  by (simp add: good_connect_def split: sum.split prod.split)

lemma good_connect_failed:
  assumes "dbserverindex h \<noteq> None" and "lh_config h = Some c"
  shows "good_connect h (connect_failed z e c h w)"
  using assms
  by (auto simp: connect_failed_def good_connect_def lh_ok_def split: exn.split prod.split option.split)

lemma good_connect_new:
  assumes "lh_config h = Some c" and "lh_ok h"
  shows "good_connect h (connect_new z c h w)"
proof -
  have cong: "lh_config h' = lh_config h \<Longrightarrow> good_connect h' r = good_connect h r"
    for h' and r :: "ub + (exn option \<times> libzdb_handler \<times> 'a world)"
    by (rule good_connect_cong) simp
  have failed: "good_connect h (connect_failed z e c h' w')"
    if "dbserverindex h' \<noteq> None" "lh_config h' = lh_config h" for e h' w'
    using good_connect_failed [of h' c z e w'] that assms cong [of h'] by simp
  show ?thesis
    using assms
    by (auto simp: connect_new_def setViableConnectionConfigIndex_def Let_def
        intro!: failed split: prod.split sum.split option.split bool.split)
      (auto simp: good_connect_def lh_ok_def hasConnectionPool_def)
qed

lemma good_connect_connect:
  assumes "lh_ok h"
  shows "good_connect h (connect z h w)"
proof (cases "lh_config h")
  case None
  with assms show ?thesis by (simp add: connect_def good_connect_def)
next
  case (Some c)
  obtain b w1 where ping: "ping z h w = (b, w1)" by fastforce
  have new: "good_connect h (case disconnect z (h\<lparr>lh_config := Some c'\<rparr>) w2 of (h, w) \<Rightarrow> connect_new z c' h w)"
    if "without_errors c' = without_errors c" for c' w2
  proof -
    obtain h3 w3 where d: "disconnect z (h\<lparr>lh_config := Some c'\<rparr>) w2 = (h3, w3)" by fastforce
    then have "h3 = h\<lparr>lh_config := Some c', conpool := None\<rparr>" by (auto dest: disconnect_result)
    moreover from this have "good_connect h3 (connect_new z c' h3 w3)"
      by (intro good_connect_new) (simp_all add: lh_ok_def hasConnectionPool_def)
    moreover have "good_connect h3 r = good_connect h r" for r :: "ub + (exn option \<times> libzdb_handler \<times> 'a world)"
      using Some that calculation(1) by (intro good_connect_cong) simp
    ultimately show ?thesis using d by simp
  qed
  show ?thesis
  proof (cases "conpool h")
    case None
    with Some ping new [of c w1] assms show ?thesis
      by (cases b) (simp_all add: connect_def good_connect_def)
  next
    case p: (Some p)
    with assms obtain i where i: "dbserverindex h = Some i"
      by (auto simp: lh_ok_def hasConnectionPool_def)
    obtain c' w2 where faulty: "setConnectionFaulty z i c w1 = (c', w2)" by fastforce
    note new [OF without_errors_faulty [OF this], of w2]
    with Some ping p i faulty assms show ?thesis
      by (cases b) (simp_all add: connect_def good_connect_def)
  qed
qed

text \<open>
  C27: \<open>connect\<close> never reads the uninitialised server index, whatever libzdb answers: on a
  handler whose pool, if it has one, was started by \<open>connect\<close>, it returns a handler with the same
  property, and changes nothing of the configuration but the times of failure. The handler the
  constructor makes has the property.
\<close>

theorem connect_keeps_handler_ok:
  "lh_ok (lh_new c) \<and> (lh_ok h \<longrightarrow> good_connect h (connect z h w))"
  by (simp add: good_connect_connect lh_ok_def lh_new_def hasConnectionPool_def)

theorem connect_keeps_handler_ok_witness:
  "good_connect (lh_new (Some default_config))
     (connect (lab_outside (\<lambda>_. None)) (lh_new (Some default_config)) (lab_world 100 [] []))"
  using connect_keeps_handler_ok [of None "lh_new (Some default_config)"]
  by (simp add: lh_ok_def lh_new_def hasConnectionPool_def)

section \<open>What connect starts\<close>

text \<open>The world after the three setters, before \<open>start\<close>.\<close>

definition configure_pool :: "'z outside \<Rightarrow> nat \<Rightarrow> config \<Rightarrow> 'z world \<Rightarrow> 'z world" where
  "configure_pool z p c w =
     run_ext (pool_set_max z p (mysql_maxconnections c))
       (run_ext (pool_set_initial z p (mysql_initialconnections c))
         (run_ext (pool_set_abort_handler z p) w))"

lemma ping_None: "conpool h = None \<Longrightarrow> ping z h w = (False, w)"
  by (simp add: ping_def)

lemma disconnect_None: "conpool h = None \<Longrightarrow> disconnect z h w = (h, w)"
  by (simp add: disconnect_def)

lemma connect_without_pool:
  "lh_config h = Some c \<Longrightarrow> conpool h = None \<Longrightarrow> connect z h w = connect_new z c h w"
  by (cases h) (simp add: connect_def ping_None disconnect_None)

lemma connect_failed_pool:
  "connect_failed z e c h w = Inr (e', h', w') \<Longrightarrow>
   conpool h' = conpool h \<and> dbserverindex h' = dbserverindex h"
  by (auto simp: connect_failed_def split: exn.splits option.splits prod.splits)

lemma connect_new_index:
  assumes "connect_new z c h w = Inr (e, h', w')" and "conpool h = None" and "conpool h' \<noteq> None"
    and "call (clock_seconds z) w = (now, w1)"
  shows "\<exists>i p w2. viable_from now 0 (mysql_server c) = Some i \<and> dbserverindex h' = Some i
    \<and> call (pool_new z (connection_string (mysql_server c ! i))) w1 = (Inr p, w2) \<and> conpool h' = Some p"
proof (cases "viable_from now 0 (mysql_server c)")
  case None
  with assms show ?thesis
    by (auto simp: connect_new_def setViableConnectionConfigIndex_def)
next
  case (Some i)
  obtain r w2 where new: "call (pool_new z (connection_string (mysql_server c ! i))) w1 = (r, w2)"
    by fastforce
  show ?thesis
  proof (cases r)
    case (Inl e)
    with assms Some new show ?thesis
      by (auto simp: connect_new_def setViableConnectionConfigIndex_def
          dest!: connect_failed_pool split: if_splits)
  next
    case (Inr p)
    with assms Some new show ?thesis
      by (auto simp: connect_new_def setViableConnectionConfigIndex_def Let_def
          dest!: connect_failed_pool split: prod.splits option.splits if_splits)
  qed
qed

text \<open>
  C28: when \<open>connect\<close> is called without a pool and returns with one, the pool is one that libzdb has
  opened on the connection string of the first server of the configuration that has not failed in
  the last 30 seconds, and the handler remembers that server; so a server that was marked as failed
  is left alone for 30 seconds. It is assumed that no recorded failure lies in the future of
  the clock.
\<close>

theorem connect_starts_least_eligible:
  assumes "lh_config h = Some c" and "conpool h = None"
    and "call (clock_seconds z) w = (now, w1)" and "past_errors now (mysql_server c)"
    and "connect z h w = Inr (e, h', w')" and "hasConnectionPool h'"
  shows "\<exists>i p w2. dbserverindex h' = Some i \<and> least_eligible now (mysql_server c) i
    \<and> call (pool_new z (connection_string (mysql_server c ! i))) w1 = (Inr p, w2) \<and> conpool h' = Some p"
proof -
  have "connect_new z c h w = Inr (e, h', w')" "conpool h' \<noteq> None"
    using assms(5,6) connect_without_pool [OF assms(1,2), of z w] by (simp_all add: hasConnectionPool_def)
  from connect_new_index [OF this(1) assms(2) this(2) assms(3)] viable_from_cases [OF assms(4)]
  show ?thesis by fastforce
qed

definition two_servers :: "mysql_server_entry list" where
  "two_servers = [\<lparr>connection_string = ''a'', last_error = 95\<rparr>,
                  \<lparr>connection_string = ''b'', last_error = 60\<rparr>]"

lemma connect_lab:
  "connect (lab_outside (\<lambda>_. None)) (lh_new (Some (lab_servers two_servers))) (lab_world 100 [] [])
     = Inr (None, \<lparr>lh_config = Some (lab_servers two_servers), dbserverindex = Some 1,
                   conpool = Some 0\<rparr>,
            \<lparr>ext = \<lparr>lab_time = 101, lab_down = [], lab_pools = [(''b'', True)], lab_queries = []\<rparr>,
             syslog = [(''onpool started using: %s'', [CharsArg ''b''])]\<rparr>)"
  by (simp add: connect_without_pool connect_new_def setViableConnectionConfigIndex_def
      two_servers_def lh_new_def viable_def ping_def lab_simps)

theorem connect_starts_least_eligible_witness:
  "\<exists>i p w2. Some 1 = Some i \<and> least_eligible 100 two_servers i
     \<and> call (pool_new (lab_outside (\<lambda>_. None)) (connection_string (two_servers ! i))) (lab_world 101 [] [])
         = (Inr p, w2) \<and> Some 0 = Some p"
  using connect_starts_least_eligible [OF _ _ _ _ connect_lab, where c = "lab_servers two_servers"
      and now = 100 and ?w1.0 = "lab_world 101 [] []"]
  by (simp add: lh_new_def lab_simps past_errors_def two_servers_def hasConnectionPool_def)

text \<open>
  When the pool of the chosen server fails to start, \<open>connect\<close> absorbs the exception and
  marks the server with the time, but keeps the pool object: the handler then reports that it
  has a connection pool, although no connection was made.
\<close>

theorem failed_start_keeps_pool:
  assumes "lh_config h = Some c" and "conpool h = None"
    and "call (clock_seconds z) w = (now, w1)" and "past_errors now (mysql_server c)"
    and "least_eligible now (mysql_server c) i"
    and "call (pool_new z (connection_string (mysql_server c ! i))) w1 = (Inr p, w2)"
    and "call (pool_start z p) (configure_pool z p c w2) = (Some (SqlException what), w3)"
    and "call (clock_seconds z) w3 = (now', w4)"
  shows "\<exists>h' w'. connect z h w = Inr (None, h', w') \<and> hasConnectionPool h' \<and>
           lh_config h' = Some (mark_failed now' i c) \<and> dbserverindex h' = Some i"
proof -
  have "viable_from now 0 (mysql_server c) = Some i"
    using assms(4,5) by (rule viable_from_least)
  moreover have "i < length (mysql_server c)" using assms(5) by (simp add: least_eligible_def)
  ultimately show ?thesis
    using assms by (simp add: connect_without_pool connect_new_def setViableConnectionConfigIndex_def
        configure_pool_def connect_failed_def hasConnectionPool_def)
qed

theorem failed_start_keeps_pool_witness:
  "\<exists>h' w'. connect (lab_outside (\<lambda>_. None)) (lh_new (Some (lab_servers two_servers)))
             (lab_world 100 [''b''] []) = Inr (None, h', w') \<and> hasConnectionPool h' \<and>
           lh_config h' = Some (mark_failed 101 1 (lab_servers two_servers)) \<and>
           dbserverindex h' = Some 1"
  using failed_start_keeps_pool [where z = "lab_outside (\<lambda>_. None)"
      and h = "lh_new (Some (lab_servers two_servers))" and c = "lab_servers two_servers"
      and w = "lab_world 100 [''b''] []" and now = 100 and ?w1.0 = "lab_world 101 [''b''] []"
      and i = 1 and p = 0 and ?w2.0 = "lab_world 101 [''b''] [(''b'', False)]"
      and what = "[100]" and ?w3.0 = "lab_world 101 [''b''] [(''b'', False)]"
      and now' = 101 and ?w4.0 = "lab_world 102 [''b''] [(''b'', False)]"]
  by (simp add: lh_new_def lab_simps past_errors_def two_servers_def least_eligible_def
      eligible_def configure_pool_def)

text \<open>
  Losing the connection to a server is not recorded unless it is the first of the
  configuration: when the ping of a pool on server \<open>i > 0\<close> fails, \<open>connect\<close> leaves the
  configuration as it is, and when that server was the one to choose it starts it again at once.
\<close>

theorem lost_server_chosen_again:
  assumes "lh_config h = Some c" and "conpool h = Some p" and "dbserverindex h = Some i" and "0 < i"
    and "ping z h w = (False, w1)" and "disconnect z h w1 = (h2, w2)"
    and "call (clock_seconds z) w2 = (now, w3)" and "past_errors now (mysql_server c)"
    and "least_eligible now (mysql_server c) i"
    and "call (pool_new z (connection_string (mysql_server c ! i))) w3 = (Inr p', w4)"
    and "call (pool_start z p') (configure_pool z p' c w4) = (None, w5)"
  shows "\<exists>w'. connect z h w =
           Inr (None, \<lparr>lh_config = Some c, dbserverindex = Some i, conpool = Some p'\<rparr>, w')"
proof -
  have "viable_from now 0 (mysql_server c) = Some i"
    using assms(8,9) by (rule viable_from_least)
  moreover have "i < length (mysql_server c)" using assms(9) by (simp add: least_eligible_def)
  moreover have "h = \<lparr>lh_config = Some c, dbserverindex = Some i, conpool = Some p\<rparr>"
    using assms(1-3) by (cases h) simp
  moreover have "h2 = h\<lparr>conpool := None\<rparr>" using assms(6) by (rule disconnect_result)
  moreover have "setConnectionFaulty z i c w1 = (c, w1)"
    using assms(4) by (simp add: setConnectionFaulty_def)
  moreover obtain b w6 where
    "ping z \<lparr>lh_config = Some c, dbserverindex = Some i, conpool = Some p'\<rparr> w5 = (b, w6)"
    by fastforce
  ultimately show ?thesis
    using assms(4-) by (simp add: connect_def connect_new_def
        setViableConnectionConfigIndex_def configure_pool_def)
qed

definition lost_handler :: libzdb_handler where
  "lost_handler =
     \<lparr>lh_config = Some (lab_servers two_servers), dbserverindex = Some 1, conpool = Some 0\<rparr>"

definition lost_world :: "u64 \<Rightarrow> (string \<times> bool) list \<Rightarrow> lab world" where
  "lost_world t pools =
     (lab_world t [] pools)
       \<lparr>syslog := [(''calling stop on conpool'', []), (''deleting conpool'', [])]\<rparr>"

lemma lost_disconnect:
  "disconnect (lab_outside (\<lambda>_. None)) lost_handler (lab_world 100 [] [(''b'', False)])
     = (lost_handler\<lparr>conpool := None\<rparr>, lost_world 100 [(''b'', False)])"
  by (simp add: disconnect_def lost_handler_def lost_world_def lab_simps)

theorem lost_server_chosen_again_witness:
  "\<exists>w'. connect (lab_outside (\<lambda>_. None)) lost_handler (lab_world 100 [] [(''b'', False)]) =
      Inr (None, \<lparr>lh_config = Some (lab_servers two_servers), dbserverindex = Some 1,
                  conpool = Some 1\<rparr>, w')"
proof -
  have "ping (lab_outside (\<lambda>_. None)) lost_handler (lab_world 100 [] [(''b'', False)])
      = (False, lab_world 100 [] [(''b'', False)])"
    by (simp add: ping_def lost_handler_def lab_simps)
  from lost_server_chosen_again [OF _ _ _ _ this lost_disconnect, where i = 1 and now = 100
      and ?w3.0 = "lost_world 101 [(''b'', False)]" and p' = 1
      and ?w4.0 = "lost_world 101 [(''b'', False), (''b'', False)]"
      and ?w5.0 = "lost_world 101 [(''b'', False), (''b'', True)]"
      and c = "lab_servers two_servers"]
  show ?thesis
    by (simp add: lost_handler_def lost_world_def lab_simps past_errors_def two_servers_def least_eligible_def
        eligible_def configure_pool_def)
qed

end
