(* ===== verification/OutputHandler.thy ===== *)
theory OutputHandler
  imports LockedQueue GearTypes LibzdbHandler
begin

text \<open>
  \<^verbatim>\<open>src/src/output/OutputHandler.h\<close> and \<^verbatim>\<open>OutputHandler.cpp\<close>: the database side. The thread
  takes messages from the queue and hands each to the thread pool as a \<open>task\<close>, which runs
  the query on a connection of the \<open>LibzdbHandler\<close> and may put the message back.
\<close>

section \<open>task\<close>

text \<open>\<open>c_str()\<close> as the C functions behind libzdb and \<open>%s\<close> read it: up to the first NUL byte.\<close>

definition c_str :: "byte list \<Rightarrow> byte list" where
  "c_str bs = takeWhile (\<lambda>b. b \<noteq> 0) bs"

definition deadlock_text :: "byte list" where
  "deadlock_text = map of_char ''Deadlock found''"

definition message_args :: "queue_entry \<Rightarrow> log_arg list" where
  "message_args m = [BytesArg (c_str (query m)), IntArg (attempts m)]"

text \<open>What can be thrown inside \<open>task\<close>: \<open>LibzdbHandlerNoConPoolException\<close> or an exception of libzdb.\<close>

datatype task_exn = NoConPool | Zdb exn

text \<open>The innermost \<open>try\<close> with its handler, and \<open>returnConnection\<close> after it.\<close>

definition execute_message ::
  "'z outside \<Rightarrow> libzdb_handler \<Rightarrow> nat \<Rightarrow> queue_entry \<Rightarrow> queue_entry locked_queue \<Rightarrow> 'z world \<Rightarrow>
   task_exn option \<times> queue_entry locked_queue \<times> 'z world" where
  "execute_message z h con message q w =
     (case call (con_execute z con (c_str (query message))) w of
        (None, w) \<Rightarrow> (None, q, returnConnection z con h w)
      | (Some OtherException, w) \<Rightarrow> (Some (Zdb OtherException), q, w)
      | (Some (SqlException what), w) \<Rightarrow>
          (let w = write_log ''error: %s ,query: %s''
                     [BytesArg (c_str what), BytesArg (c_str (query message))] w;
               (message, q, w) =
                 (if contains deadlock_text (c_str what)
                  then (message, lq_push message q,
                        write_log ''rescheduling %s (%i)'' (message_args message) w)
                  else (message\<lparr>attempts := attempts message + 1\<rparr>, q, w))
           in (None, q, returnConnection z con h w)))"

text \<open>The inner \<open>try\<close>, without its handler. The connection is closed on every way out.\<close>

definition task_body ::
  "'z outside \<Rightarrow> libzdb_handler \<Rightarrow> queue_entry \<Rightarrow> queue_entry locked_queue \<Rightarrow> 'z world \<Rightarrow>
   task_exn option \<times> queue_entry locked_queue \<times> 'z world" where
  "task_body z h message q w =
     (case getConnection z h w of
        (None, w) \<Rightarrow> (Some NoConPool, q, w)
      | (Some con, w) \<Rightarrow>
          (case (if con_null z con
                 then (None, lq_push message q,
                       write_log ''could not get connection from pool, rescheduling %s (%i)''
                         (message_args message) w)
                 else execute_message z h con message q w) of
             (e, q, w) \<Rightarrow> (e, q, run_ext (con_close z con) w)))"

text \<open>
  The exception that leaves the task, if any, the queue and the world. \<open>NoConPool\<close> is caught
  by the inner handler, which does nothing; a \<open>sql_exception\<close> that reached the outer handler
  would put the message back.
\<close>

definition task ::
  "'z outside \<Rightarrow> libzdb_handler option \<Rightarrow> queue_entry \<Rightarrow> queue_entry locked_queue \<Rightarrow> 'z world \<Rightarrow>
   exn option \<times> queue_entry locked_queue \<times> 'z world" where
  "task z dbh message q w =
     (case call (clock_seconds z) w of
        (now, w) \<Rightarrow>
          (case dbh of
             None \<Rightarrow>
               (None, lq_push message q,
                write_log ''connection pool is not initialized, rescheduling %s (%i)''
                  (message_args message) w)
           | Some h \<Rightarrow>
               if hasConnectionPool h then
                 (case task_body z h message q w of
                    (None, q, w) \<Rightarrow> (None, q, w)
                  | (Some NoConPool, q, w) \<Rightarrow> (None, q, w)
                  | (Some (Zdb (SqlException what)), q, w) \<Rightarrow>
                      (None, lq_push message q,
                       write_log ''error: %s ,query: %s ,rescheduling (%i)''
                         (BytesArg (c_str what) # message_args message) w)
                  | (Some (Zdb OtherException), q, w) \<Rightarrow> (Some OtherException, q, w))
               else
                 (None, q,
                  write_log ''error: no connection pool ,query: %s ,rescheduling (%i)''
                    (message_args message) w)))"

section \<open>The thread\<close>

text \<open>
  \<open>setupPool\<close> waits for the tasks of the pool, which acts on the queue and the world through
  these tasks only, and connects. \<open>waited\<close> is what the world looks like after the wait; the
  messages that come into the queue meanwhile are arrivals of the next turn.
\<close>

definition setupPool ::
  "'z outside \<Rightarrow> ('z world \<Rightarrow> 'z world) \<Rightarrow> bool \<Rightarrow> libzdb_handler option \<Rightarrow> 'z world \<Rightarrow>
   ub + (exn option \<times> libzdb_handler option \<times> 'z world)" where
  "setupPool z waited has_pool dbh w =
     (let w = (if has_pool then waited w else w) in
      (case dbh of
         None \<Rightarrow> Inr (None, None, w)
       | Some h \<Rightarrow>
           (case connect z h w of
              Inl e \<Rightarrow> Inl e
            | Inr (e, h, w) \<Rightarrow> Inr (e, Some h, w))))"

definition deinitialize ::
  "'z outside \<Rightarrow> ('z world \<Rightarrow> 'z world) \<Rightarrow> bool \<Rightarrow> libzdb_handler option \<Rightarrow> 'z world \<Rightarrow>
   libzdb_handler option \<times> 'z world" where
  "deinitialize z waited has_pool dbh w =
     (let w = (if has_pool then waited w else w) in
      (case dbh of
         None \<Rightarrow> (None, w)
       | Some h \<Rightarrow> (case disconnect z h w of (h, w) \<Rightarrow> (Some h, w))))"

text \<open>
  What one iteration of the inner loop reads from the other threads: the running tasks, the
  maximal database connections, and the messages that arrive in the queue before and after the
  \<open>pop\<close>.
\<close>

record reading =
  rd_running :: u64
  rd_max :: int
  rd_before :: "queue_entry list"
  rd_after :: "queue_entry list"

definition retry_allowed :: "config \<Rightarrow> queue_entry \<Rightarrow> bool" where
  "retry_allowed c m \<longleftrightarrow> \<not> obey_work_retry_count c \<or> attempts m < work_retry_count c"

text \<open>
  \<open>while (!messages->empty())\<close>: the loop ends when the queue is empty (true), or is still
  running when the readings are used up (false). \<open>ts\<close> are the messages handed to the thread
  pool. The test compares a \<open>size_t\<close> with an \<open>int\<close>, which is converted to it.
\<close>

fun dispatch_messages ::
  "config \<Rightarrow> reading list \<Rightarrow> queue_entry locked_queue \<Rightarrow> queue_entry list \<Rightarrow>
   ub + (bool \<times> queue_entry locked_queue \<times> queue_entry list)" where
  "dispatch_messages c rs q ts =
     (if lq_empty q then Inr (True, q, ts)
      else case rs of
        [] \<Rightarrow> Inr (False, q, ts)
      | r # rs \<Rightarrow>
          (let q = fold lq_push (rd_before r) q in
           if rd_running r < word_of_int (rd_max r) then
             (case lq_pop q of
                Inl e \<Rightarrow> Inl e
              | Inr (message, q) \<Rightarrow>
                  dispatch_messages c rs (fold lq_push (rd_after r) q)
                    (if retry_allowed c message then ts @ [message] else ts))
           else dispatch_messages c rs (fold lq_push (rd_after r) q) ts))"

declare dispatch_messages.simps [simp del]

text \<open>The body of the outer loop after the test of \<open>stop_\<close>.\<close>

record 'z output_state =
  os_dbh :: "libzdb_handler option"
  os_queue :: "queue_entry locked_queue"
  os_tasks :: "queue_entry list" \<comment> \<open>handed to the thread pool, oldest first\<close>
  os_world :: "'z world"

definition main_body ::
  "'z outside \<Rightarrow> config \<Rightarrow> ('z world \<Rightarrow> 'z world) \<Rightarrow> bool \<Rightarrow> bool \<Rightarrow> reading list \<Rightarrow>
   'z output_state \<Rightarrow> ub + (bool \<times> 'z output_state)" where
  "main_body z c waited has_pool has_threads rs s =
     (if (case os_dbh s of None \<Rightarrow> True | Some h \<Rightarrow> \<not> hasConnectionPool h) then
        (case setupPool z waited has_pool (os_dbh s) (os_world s) of
           Inl e \<Rightarrow> Inl e
         | Inr (_, dbh, w) \<Rightarrow> Inr (True, s\<lparr>os_dbh := dbh, os_world := w\<rparr>))
      else if \<not> lq_empty (os_queue s) \<and> has_pool \<and> has_threads then
        (case dispatch_messages c rs (os_queue s) (os_tasks s) of
           Inl e \<Rightarrow> Inl e
         | Inr (b, q, ts) \<Rightarrow> Inr (b, s\<lparr>os_queue := q, os_tasks := ts\<rparr>))
      else Inr (True, s))"

text \<open>
  \<open>thread_main\<close>. A \<open>turn\<close> is one pass of the outer loop as the other threads let it happen:
  the value of \<open>stop_\<close>, the messages that arrived since the last pass, the readings of the
  inner loop, and the wait of \<open>setupPool\<close>. The timer of this class is never interrupted, so
  \<open>wait_for\<close> is true every time.
\<close>

record 'z turn =
  tn_stop :: bool
  tn_arrivals :: "queue_entry list"
  tn_readings :: "reading list"
  tn_waited :: "'z world \<Rightarrow> 'z world"

text \<open>True: the loop was left; false: it is still running when the turns are used up.\<close>

fun thread_loop ::
  "'z outside \<Rightarrow> config \<Rightarrow> bool \<Rightarrow> bool \<Rightarrow> 'z turn list \<Rightarrow> 'z output_state \<Rightarrow>
   ub + (bool \<times> 'z output_state)" where
  "thread_loop z c has_pool has_threads [] s = Inr (False, s)"
| "thread_loop z c has_pool has_threads (t # ts) s =
     (let s = s\<lparr>os_queue := fold lq_push (tn_arrivals t) (os_queue s)\<rparr> in
      if tn_stop t then Inr (True, s)
      else (case main_body z c (tn_waited t) has_pool has_threads (tn_readings t) s of
              Inl e \<Rightarrow> Inl e
            | Inr (False, s) \<Rightarrow> Inr (False, s)
            | Inr (True, s) \<Rightarrow> thread_loop z c has_pool has_threads ts s))"

text \<open>The first \<open>setupPool\<close> is outside the \<open>try\<close>: an exception there ends the program.\<close>

datatype thread_end = StillRunning | Ended | Terminated

definition thread_main ::
  "'z outside \<Rightarrow> config \<Rightarrow> bool \<Rightarrow> bool \<Rightarrow> ('z world \<Rightarrow> 'z world) \<Rightarrow> 'z turn list \<Rightarrow>
   ('z world \<Rightarrow> 'z world) \<Rightarrow> 'z output_state \<Rightarrow> ub + (thread_end \<times> 'z output_state)" where
  "thread_main z c has_pool has_threads waited1 ts waited2 s =
     (case setupPool z waited1 has_pool (os_dbh s) (os_world s) of
        Inl e \<Rightarrow> Inl e
      | Inr (Some _, dbh, w) \<Rightarrow> Inr (Terminated, s\<lparr>os_dbh := dbh, os_world := w\<rparr>)
      | Inr (None, dbh, w) \<Rightarrow>
          (case thread_loop z c has_pool has_threads ts (s\<lparr>os_dbh := dbh, os_world := w\<rparr>) of
             Inl e \<Rightarrow> Inl e
           | Inr (False, s) \<Rightarrow> Inr (StillRunning, s)
           | Inr (True, s) \<Rightarrow>
               (case deinitialize z waited2 has_pool (os_dbh s) (os_world s) of
                  (dbh, w) \<Rightarrow> Inr (Ended, s\<lparr>os_dbh := dbh, os_world := w\<rparr>))))"

section \<open>What a task does with its message\<close>

text \<open>The ways a task can go, as the world it starts in determines them.\<close>

datatype answer = NoPool | NoConnection | NullConnection | Executed | SqlError "byte list" | Crash

definition answer_of :: "'z outside \<Rightarrow> libzdb_handler \<Rightarrow> queue_entry \<Rightarrow> 'z world \<Rightarrow> answer" where
  "answer_of z h m w =
     (if \<not> hasConnectionPool h then NoPool
      else case getConnection z h (snd (call (clock_seconds z) w)) of
        (None, w) \<Rightarrow> NoConnection
      | (Some con, w) \<Rightarrow>
          if con_null z con then NullConnection
          else (case call (con_execute z con (c_str (query m))) w of
                  (None, _) \<Rightarrow> Executed
                | (Some (SqlException what), _) \<Rightarrow> SqlError (c_str what)
                | (Some OtherException, _) \<Rightarrow> Crash))"

text \<open>The messages a task puts back, and the lines it writes to the system log.\<close>

fun put_back :: "answer \<Rightarrow> queue_entry \<Rightarrow> queue_entry list" where
  "put_back NullConnection m = [m]"
| "put_back (SqlError what) m = (if contains deadlock_text what then [m] else [])"
| "put_back _ m = []"

fun log_lines :: "answer \<Rightarrow> queue_entry \<Rightarrow> log_entry list" where
  "log_lines NoPool m =
     [(''error: no connection pool ,query: %s ,rescheduling (%i)'', message_args m)]"
| "log_lines NullConnection m =
     [(''could not get connection from pool, rescheduling %s (%i)'', message_args m)]"
| "log_lines (SqlError what) m =
     (''error: %s ,query: %s'', [BytesArg what, BytesArg (c_str (query m))]) #
     (if contains deadlock_text what then [(''rescheduling %s (%i)'', message_args m)] else [])"
| "log_lines _ m = []"

lemma queue_lq_push [simp]: "queue (lq_push m q) = queue q @ [m]"
  by (simp add: lq_push_def)

lemma task_answer:
  assumes "task z (Some h) m q w = (e, q', w')"
  shows "queue q' = queue q @ put_back (answer_of z h m w) m
    \<and> syslog w' = syslog w @ log_lines (answer_of z h m w) m
    \<and> e = (if answer_of z h m w = Crash then Some OtherException else None)"
proof -
  obtain now w1 where clock: "call (clock_seconds z) w = (now, w1)" by fastforce
  then have s1: "syslog w1 = syslog w" by (rule syslog_call)
  show ?thesis
  proof (cases "hasConnectionPool h")
    case False
    with assms clock s1 show ?thesis by (auto simp: task_def answer_of_def)
  next
    case True
    obtain r w2 where get: "getConnection z h w1 = (r, w2)" by fastforce
    then have s2: "syslog w2 = syslog w" using s1 db.get_quiet by metis
    show ?thesis
    proof (cases r)
      case None
      with assms clock True get s2 show ?thesis
        by (auto simp: task_def task_body_def answer_of_def)
    next
      case (Some con)
      obtain x w3 where ex: "call (con_execute z con (c_str (query m))) w2 = (x, w3)" by fastforce
      then have s3: "syslog w3 = syslog w" using s2 syslog_call by metis
      note run = assms clock True get s2 s3 Some ex
      show ?thesis
      proof (cases "con_null z con")
        case True
        with run show ?thesis by (auto simp: task_def task_body_def answer_of_def)
      next
        case False
        with run show ?thesis
          by (cases x rule: option.exhaust [OF _ exn.exhaust])
            (auto simp: task_def task_body_def execute_message_def answer_of_def Let_def
              db.give_back_quiet split: option.splits exn.splits if_splits)
      qed
    qed
  qed
qed

text \<open>
  C26: what a task does with its message, for every answer of the database. The message
  goes back to the queue, unchanged, exactly when the database reports a deadlock (or gives a null
  connection); the queue is otherwise untouched. The system log gets exactly the lines of
  \<open>log_lines\<close>, and no libzdb exception but an unknown one leaves the task. In particular the
  outer handler, which reschedules on a \<open>sql_exception\<close>, never runs.
\<close>

theorem task_outcome:
  "case task z (Some h) m q w of (e, q', w') \<Rightarrow>
     queue q' = queue q @ put_back (answer_of z h m w) m
     \<and> syslog w' = syslog w @ log_lines (answer_of z h m w) m
     \<and> e = (if answer_of z h m w = Crash then Some OtherException else None)"
  using task_answer by (fastforce split: prod.split)

section \<open>Dispatching\<close>

definition arrivals :: "reading \<Rightarrow> queue_entry list" where
  "arrivals r = rd_before r @ rd_after r"

definition capacity :: "reading \<Rightarrow> bool" where
  "capacity r \<longleftrightarrow> rd_running r < word_of_int (rd_max r)"

lemma fold_lq_push: "fold lq_push vs q = \<lparr>queue = queue q @ vs\<rparr>"
  by (rule locked_queue.equality) (simp_all add: lq.content_fold_push)

lemma dispatch_step:
  assumes "queue q = m # ms"
  shows "dispatch_messages c (r # rs) q ts =
    (if capacity r then dispatch_messages c rs \<lparr>queue = ms @ arrivals r\<rparr>
       (if retry_allowed c m then ts @ [m] else ts)
     else dispatch_messages c rs \<lparr>queue = queue q @ arrivals r\<rparr> ts)"
proof -
  have "\<not> lq_empty q" using assms by (simp add: lq.empty_iff)
  then show ?thesis
    using assms by (simp add: dispatch_messages.simps [of c "r # rs"] Let_def capacity_def arrivals_def
        lq_pop_def fold_lq_push)
qed

text \<open>
  The number of passes the inner loop makes on a queue of length \<open>n\<close>: a pass that sees capacity takes
  one message off, every pass adds what arrives meanwhile, and the loop ends when nothing is left.
\<close>

fun passes :: "reading list \<Rightarrow> nat \<Rightarrow> nat" where
  "passes [] n = 0"
| "passes (r # rs) n =
     (if n = 0 then 0
      else Suc (passes rs ((if capacity r then n - 1 else n) + length (arrivals r))))"

lemma dispatch_passes:
  "\<exists>b q' popped. dispatch_messages c rs q ts = Inr (b, q', ts @ filter (retry_allowed c) popped)
     \<and> popped @ queue q' = queue q @ concat (map arrivals (take (passes rs (length (queue q))) rs))
     \<and> length popped = length (filter capacity (take (passes rs (length (queue q))) rs))
     \<and> (if b then queue q' = [] else queue q' \<noteq> [] \<and> rs = take (passes rs (length (queue q))) rs)"
proof (induction rs arbitrary: q ts)
  case Nil
  show ?case by (cases "queue q = []") (auto simp: dispatch_messages.simps [of c "[]"] lq.empty_iff)
next
  case (Cons r rs)
  show ?case
  proof (cases "queue q")
    case Nil
    then have "dispatch_messages c (r # rs) q ts = Inr (True, q, ts)"
      by (simp add: dispatch_messages.simps [of c "r # rs"] lq.empty_iff)
    with Nil show ?thesis by (intro exI [of _ True] exI [of _ q] exI [of _ "[]"]) simp
  next
    case (Cons m ms)
    note step = dispatch_step [OF Cons, of c r rs ts]
    show ?thesis
    proof (cases "capacity r")
      case True
      from Cons.IH [of "\<lparr>queue = ms @ arrivals r\<rparr>" "if retry_allowed c m then ts @ [m] else ts"]
      obtain b q' popped where
        "dispatch_messages c rs \<lparr>queue = ms @ arrivals r\<rparr> (if retry_allowed c m then ts @ [m] else ts)
           = Inr (b, q', (if retry_allowed c m then ts @ [m] else ts) @ filter (retry_allowed c) popped)"
        "popped @ queue q' = ms @ arrivals r @ concat (map arrivals (take (passes rs (length (ms @ arrivals r))) rs))"
        "length popped = length (filter capacity (take (passes rs (length (ms @ arrivals r))) rs))"
        "if b then queue q' = [] else queue q' \<noteq> [] \<and> rs = take (passes rs (length (ms @ arrivals r))) rs"
        by (auto split: if_split_asm)
      with step True Cons show ?thesis
        by (intro exI [of _ b] exI [of _ q'] exI [of _ "m # popped"])
          (simp split: if_split_asm)
    next
      case False
      from Cons.IH [of "\<lparr>queue = queue q @ arrivals r\<rparr>" ts]
      obtain b q' popped where
        "dispatch_messages c rs \<lparr>queue = queue q @ arrivals r\<rparr> ts = Inr (b, q', ts @ filter (retry_allowed c) popped)"
        "popped @ queue q' = queue q @ arrivals r @ concat (map arrivals (take (passes rs (length (queue q @ arrivals r))) rs))"
        "length popped = length (filter capacity (take (passes rs (length (queue q @ arrivals r))) rs))"
        "if b then queue q' = [] else queue q' \<noteq> [] \<and> rs = take (passes rs (length (queue q @ arrivals r))) rs"
        by (auto split: if_split_asm)
      with step False Cons show ?thesis
        by (intro exI [of _ b] exI [of _ q'] exI [of _ popped])
          (simp split: if_split_asm)
    qed
  qed
qed

lemma dispatch_result:
  "\<exists>b q' popped k. dispatch_messages c rs q ts = Inr (b, q', ts @ filter (retry_allowed c) popped)
     \<and> popped @ queue q' = queue q @ concat (map arrivals (take k rs))
     \<and> length popped = length (filter capacity (take k rs))
     \<and> (if b then queue q' = [] else queue q' \<noteq> [] \<and> rs = take k rs)"
  using dispatch_passes [of c rs q ts] by blast

text \<open>
  C13: the inner loop never pops an empty queue and never loses or reorders a message: what it
  popped, followed by what is still queued, is what was queued followed by what arrived during
  the \<open>k\<close> passes it made, in order. It hands to the thread pool exactly the popped messages
  that the retry limit allows, pops one message for each pass that saw capacity, and ends only
  with an empty queue: with messages queued and no capacity it spins.
\<close>

theorem dispatch_keeps_order:
  "\<exists>b q' popped k. dispatch_messages c rs q ts = Inr (b, q', ts @ filter (retry_allowed c) popped)
     \<and> popped @ queue q' = queue q @ concat (map arrivals (take k rs))
     \<and> length popped = length (filter capacity (take k rs))
     \<and> (if b then queue q' = [] else queue q' \<noteq> [] \<and> rs = take k rs)"
  by (rule dispatch_result)

section \<open>Running the tasks\<close>

text \<open>The tasks of a list, one after the other on the same handler.\<close>

fun run_tasks ::
  "'z outside \<Rightarrow> libzdb_handler option \<Rightarrow> queue_entry list \<Rightarrow> queue_entry locked_queue \<Rightarrow>
   'z world \<Rightarrow> queue_entry locked_queue \<times> 'z world" where
  "run_tasks z dbh [] q w = (q, w)"
| "run_tasks z dbh (m # ms) q w =
     (case task z dbh m q w of (_, q, w) \<Rightarrow> run_tasks z dbh ms q w)"

text \<open>A pool from which no connection can be had.\<close>

definition dead_pool :: "'z outside \<Rightarrow> nat \<Rightarrow> bool" where
  "dead_pool z p \<longleftrightarrow> (\<forall>v. isl (fst (pool_get_connection z p v)))"

lemma dead_pool_answer:
  "conpool h = Some p \<Longrightarrow> dead_pool z p \<Longrightarrow> answer_of z h m w = NoConnection"
proof -
  assume p: "conpool h = Some p" "dead_pool z p"
  then have "isl (fst (pool_get_connection z p v))" for v by (simp add: dead_pool_def)
  then have none: "fst (getConnection z h v) = None" for v :: "'a world"
  proof -
    obtain r s where r: "pool_get_connection z p (ext v) = (r, s)" by fastforce
    with \<open>\<And>v. isl (fst (pool_get_connection z p v))\<close> have "isl r" by (metis fst_conv)
    with p(1) r show ?thesis
      by (cases r) (simp_all add: getConnection_def call_def)
  qed
  obtain r v where "getConnection z h (snd (call (clock_seconds z) w)) = (r, v)" by fastforce
  with none [of "snd (call (clock_seconds z) w)"] p(1) show ?thesis
    by (simp add: answer_of_def hasConnectionPool_def)
qed

lemma dead_pool_tasks:
  assumes "conpool h = Some p" and "dead_pool z p" and "run_tasks z (Some h) ms q w = (q', w')"
  shows "q' = q \<and> syslog w' = syslog w"
  using assms(3)
proof (induction ms arbitrary: q w)
  case Nil
  then show ?case by simp
next
  case (Cons m ms)
  obtain e q1 w1 where run: "task z (Some h) m q w = (e, q1, w1)" by (metis prod_cases3)
  from task_answer [OF this] dead_pool_answer [OF assms(1,2)]
  have "q1 = q \<and> syslog w1 = syslog w" by simp
  moreover have "run_tasks z (Some h) ms q1 w1 = (q', w')" using Cons.prems run by simp
  ultimately show ?case using Cons.IH by metis
qed

lemma main_body_keeps_handler:
  assumes "os_dbh s = Some h" and "hasConnectionPool h"
    and "main_body z c waited has_pool has_threads rs s = Inr (b, s')"
  shows "os_dbh s' = Some h"
  using assms by (auto simp: main_body_def split: if_splits sum.splits)

lemma thread_loop_keeps_handler:
  assumes "os_dbh s = Some h" and "hasConnectionPool h"
    and "thread_loop z c has_pool has_threads turns s = Inr (b, s')"
  shows "os_dbh s' = Some h"
  using assms(1,3)
proof (induction turns arbitrary: s)
  case Nil
  then show ?case by simp
next
  case (Cons t ts)
  let ?s = "s\<lparr>os_queue := fold lq_push (tn_arrivals t) (os_queue s)\<rparr>"
  show ?case
  proof (cases "tn_stop t")
    case True
    with Cons.prems show ?thesis by (auto simp: Let_def)
  next
    case False
    with Cons.prems(2) obtain b1 s1 where
      body: "main_body z c (tn_waited t) has_pool has_threads (tn_readings t) ?s = Inr (b1, s1)"
      by (auto simp: Let_def split: sum.splits)
    have kept: "os_dbh s1 = Some h"
      by (rule main_body_keeps_handler [OF _ assms(2) body]) (simp add: Cons.prems(1))
    show ?thesis
    proof (cases b1)
      case True
      with Cons.prems(2) False body have "thread_loop z c has_pool has_threads ts s1 = Inr (b, s')"
        by (simp add: Let_def)
      with kept show ?thesis by (rule Cons.IH)
    next
      case b1: False
      with Cons.prems(2) False body kept show ?thesis by (simp add: Let_def)
    qed
  qed
qed

text \<open>
  C12: once the handler has a pool the thread never reconnects, and if no connection can be
  had from that pool (as after a failed start), every message that the loop hands on is lost:
  its task leaves the queue as it was and writes nothing to the system log.
\<close>

theorem dead_pool_loses_messages:
  assumes "os_dbh s = Some h" and "conpool h = Some p" and "dead_pool z p"
    and "thread_loop z c has_pool has_threads turns s = Inr (b, s')"
  shows "os_dbh s' = Some h \<and>
    (case run_tasks z (os_dbh s') (os_tasks s') q w of (q', w') \<Rightarrow> q' = q \<and> syslog w' = syslog w)"
proof -
  have "os_dbh s' = Some h"
    using assms by (intro thread_loop_keeps_handler [OF assms(1) _ assms(4)])
      (simp add: hasConnectionPool_def)
  then show ?thesis
    using dead_pool_tasks [OF assms(2,3)] by (auto split: prod.split)
qed

definition dead_handler :: libzdb_handler where
  "dead_handler =
     \<lparr>lh_config = Some (lab_servers two_servers), dbserverindex = Some 1, conpool = Some 0\<rparr>"

text \<open>libzdb with every server unreachable.\<close>

definition unreachable :: "lab outside" where
  "unreachable = (lab_outside (\<lambda>_. None))
     \<lparr>pool_get_connection := (\<lambda>p s. (Inl (SqlException [110]), s))\<rparr>"

definition one_message :: queue_entry where
  "one_message = new_entry\<lparr>query := [65, 66, 0, 67]\<rparr>"

definition free_reading :: reading where
  "free_reading = \<lparr>rd_running = 0, rd_max = 50, rd_before = [], rd_after = []\<rparr>"

definition idle_turn :: "'z turn" where
  "idle_turn = \<lparr>tn_stop = False, tn_arrivals = [one_message], tn_readings = [free_reading],
                tn_waited = id\<rparr>"

definition start_state :: "libzdb_handler \<Rightarrow> lab output_state" where
  "start_state h = \<lparr>os_dbh = Some h, os_queue = lq_new, os_tasks = [],
                    os_world = lab_world 100 [''b''] [(''b'', False)]\<rparr>"

lemma idle_turn_loop:
  "thread_loop unreachable (lab_servers two_servers) True True [idle_turn] (start_state dead_handler)
     = Inr (False, (start_state dead_handler)\<lparr>os_tasks := [one_message]\<rparr>)"
  by (simp add: idle_turn_def start_state_def dead_handler_def main_body_def hasConnectionPool_def
      fold_lq_push lq_push_def lq_new_def lq.empty_iff dispatch_messages.simps lq_pop_def free_reading_def
      retry_allowed_def lab_servers_def default_config_def Let_def)

theorem dead_pool_loses_messages_witness:
  "run_tasks unreachable (Some dead_handler) [one_message] lq_new (lab_world 100 [] []) =
     (lq_new, lab_world 101 [] [])"
proof -
  have "dead_pool unreachable 0" by (simp add: dead_pool_def unreachable_def)
  from dead_pool_loses_messages [OF _ _ this idle_turn_loop, of dead_handler lq_new
      "lab_world 100 [] []"]
  have "fst (run_tasks unreachable (Some dead_handler) [one_message] lq_new (lab_world 100 [] []))
      = lq_new"
    by (simp add: start_state_def dead_handler_def split: prod.split_asm)
  moreover have
    "snd (run_tasks unreachable (Some dead_handler) [one_message] lq_new (lab_world 100 [] []))
      = lab_world 101 [] []"
    by (simp add: task_def task_body_def getConnection_def dead_handler_def hasConnectionPool_def
        unreachable_def lab_simps)
  ultimately show ?thesis by (metis prod.collapse)
qed

section \<open>What reaches the database\<close>

text \<open>
  \<open>recorded z\<close> is libzdb \<open>z\<close> with a record of the query texts it was asked to execute.
\<close>

definition lift_call :: "('z \<Rightarrow> 'a \<times> 'z) \<Rightarrow> 'z \<times> 'r \<Rightarrow> 'a \<times> ('z \<times> 'r)" where
  "lift_call f s = (case f (fst s) of (a, z) \<Rightarrow> (a, (z, snd s)))"

definition lift_run :: "('z \<Rightarrow> 'z) \<Rightarrow> 'z \<times> 'r \<Rightarrow> 'z \<times> 'r" where
  "lift_run f s = (f (fst s), snd s)"

definition recorded :: "'z outside \<Rightarrow> ('z \<times> byte list list) outside" where
  "recorded z =
     \<lparr>pool_new = (\<lambda>url. lift_call (pool_new z url)),
      pool_set_abort_handler = (\<lambda>p. lift_run (pool_set_abort_handler z p)),
      pool_set_initial = (\<lambda>p n. lift_run (pool_set_initial z p n)),
      pool_set_max = (\<lambda>p n. lift_run (pool_set_max z p n)),
      pool_get_initial = (\<lambda>p s. pool_get_initial z p (fst s)),
      pool_get_max = (\<lambda>p s. pool_get_max z p (fst s)),
      pool_active = (\<lambda>p s. pool_active z p (fst s)),
      pool_start = (\<lambda>p. lift_call (pool_start z p)),
      pool_stop = (\<lambda>p. lift_call (pool_stop z p)),
      pool_delete = (\<lambda>p. lift_call (pool_delete z p)),
      pool_get_connection = (\<lambda>p. lift_call (pool_get_connection z p)),
      pool_return_connection = (\<lambda>p c. lift_call (pool_return_connection z p c)),
      con_null = con_null z,
      con_ping = (\<lambda>c. lift_call (con_ping z c)),
      con_execute = (\<lambda>c sql s. lift_call (con_execute z c sql) (fst s, snd s @ [sql])),
      con_close = (\<lambda>c. lift_run (con_close z c)),
      clock_seconds = lift_call (clock_seconds z),
      sleep_usec = (\<lambda>n. lift_run (sleep_usec z n))\<rparr>"

definition executed :: "('z \<times> byte list list) world \<Rightarrow> byte list list" where
  "executed w = snd (ext w)"

lemma executed_write_log [simp]: "executed (write_log fmt args w) = executed w"
  by (simp add: executed_def)

lemma executed_lift_run [simp]: "executed (run_ext (lift_run f) w) = executed w"
  by (simp add: executed_def run_ext_def lift_run_def)

lemma executed_lift_call: "call (lift_call f) w = (r, w') \<Longrightarrow> executed w' = executed w"
  by (auto simp: executed_def call_def lift_call_def split: prod.splits)

lemma executed_execute:
  "call (con_execute (recorded z) c sql) w = (r, w') \<Longrightarrow> executed w' = executed w @ [sql]"
  by (auto simp: executed_def call_def lift_call_def recorded_def split: prod.splits)

lemma executed_clock: "call (clock_seconds (recorded z)) w = (r, w') \<Longrightarrow> executed w' = executed w"
  by (rule executed_lift_call) (simp add: recorded_def)

lemma executed_getConnection:
  "getConnection (recorded z) h w = (r, w') \<Longrightarrow> executed w' = executed w"
  by (auto simp: getConnection_def recorded_def dest!: executed_lift_call
      split: option.splits prod.splits sum.splits)

lemma executed_returnConnection [simp]: "executed (returnConnection (recorded z) c h w) = executed w"
  by (auto simp: returnConnection_def recorded_def dest!: executed_lift_call
      split: option.splits prod.splits)

lemma executed_close [simp]: "executed (run_ext (con_close (recorded z) c) w) = executed w"
  by (simp add: recorded_def)

text \<open>The texts a message with a given answer brings to the database.\<close>

fun sent :: "answer \<Rightarrow> queue_entry \<Rightarrow> byte list list" where
  "sent Executed m = [c_str (query m)]"
| "sent (SqlError what) m = [c_str (query m)]"
| "sent Crash m = [c_str (query m)]"
| "sent _ m = []"

lemma task_sent:
  assumes "task (recorded z) (Some h) m q w = (e, q', w')"
  shows "executed w' = executed w @ sent (answer_of (recorded z) h m w) m"
proof -
  obtain now w1 where clock: "call (clock_seconds (recorded z)) w = (now, w1)" by fastforce
  then have s1: "executed w1 = executed w" by (rule executed_clock)
  show ?thesis
  proof (cases "hasConnectionPool h")
    case False
    with assms clock s1 show ?thesis by (auto simp: task_def answer_of_def)
  next
    case True
    obtain r w2 where get: "getConnection (recorded z) h w1 = (r, w2)" by fastforce
    then have s2: "executed w2 = executed w" using s1 executed_getConnection by metis
    show ?thesis
    proof (cases r)
      case None
      with assms clock True get s2 show ?thesis
        by (auto simp: task_def task_body_def answer_of_def)
    next
      case (Some con)
      obtain x w3 where
        ex: "call (con_execute (recorded z) con (c_str (query m))) w2 = (x, w3)" by fastforce
      then have s3: "executed w3 = executed w @ [c_str (query m)]"
        using s2 executed_execute by metis
      note run = assms clock True get s2 s3 Some ex
      show ?thesis
      proof (cases "con_null (recorded z) con")
        case True
        with run show ?thesis by (auto simp: task_def task_body_def answer_of_def)
      next
        case False
        with run show ?thesis
          by (cases x rule: option.exhaust [OF _ exn.exhaust])
            (auto simp: task_def task_body_def execute_message_def answer_of_def Let_def
              split: option.splits exn.splits if_splits)
      qed
    qed
  qed
qed

text \<open>The answers a list of tasks gets, one after the other.\<close>

fun answers :: "'z outside \<Rightarrow> libzdb_handler \<Rightarrow> queue_entry list \<Rightarrow> queue_entry locked_queue \<Rightarrow>
   'z world \<Rightarrow> answer list" where
  "answers z h [] q w = []"
| "answers z h (m # ms) q w =
     answer_of z h m w # (case task z (Some h) m q w of (_, q, w) \<Rightarrow> answers z h ms q w)"

text \<open>
  What a run of tasks does, for every libzdb: each message reaches the database at most once, in the
  order of the messages and as its own text up to the first NUL byte, and the messages that met a
  deadlock or were given a null connection are put back behind what the queue holds, in the same
  order.
\<close>

lemma run_tasks_result:
  assumes "run_tasks (recorded z) (Some h) ms q w = (q', w')"
  shows "executed w' = executed w @ concat (map2 sent (answers (recorded z) h ms q w) ms)
    \<and> queue q' = queue q @ concat (map2 put_back (answers (recorded z) h ms q w) ms)"
  using assms
proof (induction ms arbitrary: q w)
  case Nil
  then show ?case by simp
next
  case (Cons m ms)
  obtain e q1 w1 where run: "task (recorded z) (Some h) m q w = (e, q1, w1)" by (metis prod_cases3)
  with Cons.prems have "run_tasks (recorded z) (Some h) ms q1 w1 = (q', w')" by simp
  from Cons.IH [OF this] task_answer [OF run] task_sent [OF run] run show ?case by simp
qed

lemma c_str_idem: "c_str (c_str bs) = c_str bs"
  by (simp add: c_str_def)

text \<open>
  What follows a NUL byte in a query is never executed: towards libzdb and the system log, the
  task of a message does exactly what the task of the truncated message does. (The protocol
  carries a length and any bytes, and the message with the NUL byte is accepted and
  acknowledged like any other.)
\<close>

lemma query_cut_at_nul:
  "snd (snd (task z dbh m q w)) = snd (snd (task z dbh (m\<lparr>query := c_str (query m)\<rparr>) q w))"
  by (auto simp: task_def task_body_def execute_message_def message_args_def c_str_idem Let_def
      split: option.split prod.split exn.split task_exn.split)

section \<open>The retry limit\<close>

lemma contains_put_back: "set (put_back a m) \<subseteq> {m}"
  by (cases "(a, m)" rule: put_back.cases) auto

text \<open>One round: the loop hands out the messages, their tasks run.\<close>

definition retry_round ::
  "'z outside \<Rightarrow> config \<Rightarrow> libzdb_handler \<Rightarrow> reading list \<Rightarrow>
   queue_entry locked_queue \<times> 'z world \<Rightarrow> queue_entry locked_queue \<times> 'z world" where
  "retry_round z c h rs qw =
     (case dispatch_messages c rs (fst qw) [] of
        Inl _ \<Rightarrow> qw
      | Inr (_, q, ts) \<Rightarrow> run_tasks z (Some h) ts q (snd qw))"

text \<open>The database answers every query with a deadlock.\<close>

definition always_deadlock :: "'z outside \<Rightarrow> libzdb_handler \<Rightarrow> bool" where
  "always_deadlock z h \<longleftrightarrow>
     (\<forall>m w. \<exists>what. answer_of z h m w = SqlError what \<and> contains deadlock_text what)"

lemma deadlock_task:
  assumes "always_deadlock z h" and "task z (Some h) m q w = (e, q', w')"
  shows "queue q' = queue q @ [m]"
proof -
  from assms(1) obtain what where "answer_of z h m w = SqlError what" "contains deadlock_text what"
    unfolding always_deadlock_def by blast
  with task_answer [OF assms(2)] show ?thesis by simp
qed

lemma deadlock_round:
  assumes "always_deadlock (recorded z) h" and "retry_allowed c m" and "capacity r"
    and "arrivals r = []"
  shows "\<exists>w'. retry_round (recorded z) c h [r] (\<lparr>queue = [m]\<rparr>, w) = (\<lparr>queue = [m]\<rparr>, w')
           \<and> executed w' = executed w @ [c_str (query m)]"
proof -
  obtain e q' w' where run: "task (recorded z) (Some h) m \<lparr>queue = []\<rparr> w = (e, q', w')"
    by (metis prod_cases3)
  have "dispatch_messages c [] \<lparr>queue = []\<rparr> [m] = Inr (True, \<lparr>queue = []\<rparr>, [m])"
    by (simp add: dispatch_messages.simps lq.empty_iff)
  then have "dispatch_messages c [r] \<lparr>queue = [m]\<rparr> [] = Inr (True, \<lparr>queue = []\<rparr>, [m])"
    using assms(2-4) by (simp add: dispatch_step)
  moreover have "q' = \<lparr>queue = [m]\<rparr>"
    using deadlock_task [OF assms(1) run] by (intro locked_queue.equality) simp_all
  moreover obtain what where "answer_of (recorded z) h m w = SqlError what"
    using assms(1) unfolding always_deadlock_def by blast
  with task_sent [OF run] have "executed w' = executed w @ [c_str (query m)]" by simp
  ultimately show ?thesis using run by (simp add: retry_round_def)
qed

text \<open>
  C29: \<open>work_retry_count\<close> does not limit anything: a message whose query always ends in a
  deadlock is executed again in every round, \<open>n\<close> times in \<open>n\<close> rounds, for every \<open>n\<close>, and is
  still queued with its attempts at 0, even when \<open>obey_work_retry_count\<close> is on.
\<close>

theorem deadlock_retried_without_limit:
  assumes "always_deadlock (recorded z) h" and "0 < work_retry_count c" and "attempts m = 0"
    and "capacity r" and "arrivals r = []"
  shows "\<exists>w'. (retry_round (recorded z) c h [r] ^^ n) (\<lparr>queue = [m]\<rparr>, w) = (\<lparr>queue = [m]\<rparr>, w')
           \<and> executed w' = executed w @ replicate n (c_str (query m))"
proof (induction n)
  case 0
  show ?case by simp
next
  case (Suc n)
  then obtain w1 where
    w1: "(retry_round (recorded z) c h [r] ^^ n) (\<lparr>queue = [m]\<rparr>, w) = (\<lparr>queue = [m]\<rparr>, w1)"
      "executed w1 = executed w @ replicate n (c_str (query m))" by blast
  have "retry_allowed c m" using assms(2,3) by (simp add: retry_allowed_def)
  from deadlock_round [OF assms(1) this assms(4,5), of w1] w1 show ?case
    by (auto simp: replicate_append_same [symmetric])
qed

definition deadlocking :: "lab outside" where
  "deadlocking = (lab_outside (\<lambda>_. Some (SqlException deadlock_text)))
     \<lparr>pool_get_connection := (\<lambda>p s. (Inr p, s))\<rparr>"

lemma c_str_deadlock: "c_str deadlock_text = deadlock_text"
  by (simp add: c_str_def deadlock_text_def)

lemma always_deadlock_lab: "always_deadlock (recorded deadlocking) dead_handler"
  unfolding always_deadlock_def
  by (auto simp: answer_of_def dead_handler_def hasConnectionPool_def getConnection_def
      recorded_def deadlocking_def lab_outside_def call_def lift_call_def c_str_deadlock
      contains_prefix [where s = "[]", simplified] split: prod.splits)

lemma free_reading_capacity: "capacity free_reading" "arrivals free_reading = []"
  by (simp_all add: free_reading_def capacity_def arrivals_def)

lemma replicate_4: "replicate 4 x = [x, x, x, x]"
  by (simp add: numeral_eq_Suc)

theorem deadlock_retried_without_limit_witness:
  "\<exists>w'. (retry_round (recorded deadlocking) (default_config\<lparr>obey_work_retry_count := True\<rparr>)
           dead_handler [free_reading] ^^ 4)
         (\<lparr>queue = [one_message]\<rparr>, \<lparr>ext = (lab_time_update (\<lambda>_. 5) (ext (lab_world 0 [] [])), []),
                                    syslog = []\<rparr>)
       = (\<lparr>queue = [one_message]\<rparr>, w')
     \<and> executed w' = [[65, 66], [65, 66], [65, 66], [65, 66]]"
  using deadlock_retried_without_limit [OF always_deadlock_lab,
      of "default_config\<lparr>obey_work_retry_count := True\<rparr>" one_message free_reading 4
      "\<lparr>ext = (lab_time_update (\<lambda>_. 5) (ext (lab_world 0 [] [])), []), syslog = []\<rparr>"]
  by (simp add: free_reading_capacity)
    (simp add: default_config_def one_message_def new_entry_def executed_def c_str_def
      replicate_4)

end
