(* ===== verification/ThreadPool.thy ===== *)
theory ThreadPool
  imports Prelude "HOL-Library.Multiset"
begin

text \<open>
  The thread pool (\<^verbatim>\<open>src/src/utils/threadpool/thread_pool.hpp\<close>, class \<open>thread_pool\<close>) as the
  program uses it: \<open>push_task\<close>, the workers, the counters and \<open>wait_for_tasks\<close>; and the handler
  around it (\<^verbatim>\<open>ThreadpoolHandler.cpp\<close>).

  Several threads act on the pool at once, so its behaviour is a relation \<open>pool_step\<close>, one step
  for each access to a shared variable: the atomic counter \<open>tasks_total\<close>, the queue under its
  mutex, the flags. \<open>ui32\<close> is \<open>uint_fast32_t\<close>, 64 bits wide on the platform of the program.
\<close>

section \<open>The state\<close>

text \<open>Where a worker is in its loop. \<open>AtDecrement t\<close>: the task \<open>t\<close> is done, the counter not yet.\<close>

datatype 'a worker = AtTest | AtPaused | AtPop | InTask 'a | AtDecrement 'a | Exited

text \<open>
  \<open>pushing\<close> holds the tasks of the threads that are inside \<open>push_task\<close>, between the increment of
  the counter and the push on the queue. \<open>submitted\<close> and \<open>completed\<close> record the history.
\<close>

record 'a thread_pool =
  tasks_total :: u64
  tasks :: "'a list"
  paused :: bool
  running :: bool
  workers :: "'a worker list"
  pushing :: "'a list"
  submitted :: "'a multiset"
  completed :: "'a multiset"

definition pool_make :: "nat \<Rightarrow> 'a thread_pool" where
  "pool_make n =
     \<lparr>tasks_total = 0, tasks = [], paused = False, running = True,
      workers = replicate n AtTest, pushing = [], submitted = {#}, completed = {#}\<rparr>"

definition set_worker :: "nat \<Rightarrow> 'a worker \<Rightarrow> 'a thread_pool \<Rightarrow> 'a thread_pool" where
  "set_worker i w s = s\<lparr>workers := (workers s)[i := w]\<rparr>"

section \<open>The operations\<close>

text \<open>\<open>push_task\<close> in its two steps.\<close>

definition push_begin :: "'a \<Rightarrow> 'a thread_pool \<Rightarrow> 'a thread_pool" where
  "push_begin t s = s\<lparr>tasks_total := tasks_total s + 1, pushing := pushing s @ [t],
                       submitted := add_mset t (submitted s)\<rparr>"

definition push_end :: "nat \<Rightarrow> 'a thread_pool \<Rightarrow> 'a thread_pool" where
  "push_end k s = s\<lparr>tasks := tasks s @ [pushing s ! k],
                     pushing := take k (pushing s) @ drop (Suc k) (pushing s)\<rparr>"

text \<open>\<open>pop_task\<close>, under the mutex.\<close>

definition pop_task :: "'a thread_pool \<Rightarrow> ('a \<times> 'a thread_pool) option" where
  "pop_task s = (case tasks s of [] \<Rightarrow> None | t # ts \<Rightarrow> Some (t, s\<lparr>tasks := ts\<rparr>))"

text \<open>One step of worker \<open>i\<close>; an exited worker stays where it is.\<close>

definition worker_step :: "nat \<Rightarrow> 'a thread_pool \<Rightarrow> 'a thread_pool" where
  "worker_step i s =
     (case workers s ! i of
        AtTest \<Rightarrow> set_worker i (if running s then AtPaused else Exited) s
      | AtPaused \<Rightarrow> set_worker i (if \<not> paused s then AtPop else AtTest) s
      | AtPop \<Rightarrow>
          (case pop_task s of
             None \<Rightarrow> set_worker i AtTest s
           | Some (t, s) \<Rightarrow> set_worker i (InTask t) s)
      | InTask t \<Rightarrow> set_worker i (AtDecrement t) s
      | AtDecrement t \<Rightarrow>
          set_worker i AtTest
            (s\<lparr>tasks_total := tasks_total s - 1, completed := add_mset t (completed s)\<rparr>)
      | Exited \<Rightarrow> s)"

declare set_worker_def [pool_op] pop_task_def [pool_op] worker_step_def [pool_op]

definition get_tasks_queued :: "'a thread_pool \<Rightarrow> u64" where
  "get_tasks_queued s = word_of_nat (length (tasks s))"

definition get_tasks_total :: "'a thread_pool \<Rightarrow> u64" where
  "get_tasks_total s = tasks_total s"

definition get_thread_count :: "'a thread_pool \<Rightarrow> nat" where
  "get_thread_count s = length (workers s)"

text \<open>
  \<open>get_tasks_running\<close> reads the counter and the queue one after the other, in an order the
  language leaves open: \<open>s1\<close> is the pool when the counter is read, \<open>s2\<close> when the queue is.
\<close>

definition get_tasks_running :: "'a thread_pool \<Rightarrow> 'a thread_pool \<Rightarrow> u64" where
  "get_tasks_running s1 s2 = tasks_total s1 - get_tasks_queued s2"

text \<open>The test with which \<open>wait_for_tasks\<close> leaves its loop, when the pool is not paused and when it is.\<close>

definition wait_done :: "'a thread_pool \<Rightarrow> 'a thread_pool \<Rightarrow> bool" where
  "wait_done s1 s2 =
     (if \<not> paused s1 then tasks_total s1 = 0 else get_tasks_running s1 s2 = 0)"

text \<open>
  The last three steps are what \<open>reset\<close> and the destructor do to the shared variables: they set
  \<open>paused\<close> and \<open>running\<close>, and \<open>reset\<close> creates new threads when it has joined all old ones.
\<close>

inductive pool_step :: "'a thread_pool \<Rightarrow> 'a thread_pool \<Rightarrow> bool" where
  Push_begin: "pool_step s (push_begin t s)"
| Push_end: "k < length (pushing s) \<Longrightarrow> pool_step s (push_end k s)"
| Worker: "i < length (workers s) \<Longrightarrow> pool_step s (worker_step i s)"
| Pause: "pool_step s (s\<lparr>paused := b\<rparr>)"
| Running: "pool_step s (s\<lparr>running := b\<rparr>)"
| Recreate: "list_all (\<lambda>w. w = Exited) (workers s) \<Longrightarrow>
     pool_step s (s\<lparr>workers := replicate n AtTest\<rparr>)"

inductive_cases pool_stepE [elim]: "pool_step s s'"

section \<open>The counter\<close>

fun held :: "'a worker \<Rightarrow> 'a multiset" where
  "held (InTask t) = {#t#}"
| "held (AtDecrement t) = {#t#}"
| "held _ = {#}"

text \<open>The tasks that were submitted and are not yet counted as done.\<close>

definition in_workers :: "'a thread_pool \<Rightarrow> 'a multiset" where
  "in_workers s = sum_list (map held (workers s))"

definition in_pool :: "'a thread_pool \<Rightarrow> 'a multiset" where
  "in_pool s = mset (pushing s) + mset (tasks s) + in_workers s"

definition pool_inv :: "'a thread_pool \<Rightarrow> bool" where
  "pool_inv s \<longleftrightarrow> tasks_total s = word_of_nat (size (in_pool s))
     \<and> submitted s = in_pool s + completed s"

lemma sum_list_update_mset:
  fixes f :: "'b \<Rightarrow> 'a multiset"
  shows "i < length xs \<Longrightarrow>
   sum_list (map f (xs[i := x])) + f (xs ! i) = sum_list (map f xs) + f x"
  by (induction xs arbitrary: i) (auto split: nat.split simp: ac_simps)

lemma in_workers_set:
  assumes "i < length (workers s)"
  shows "in_workers (set_worker i w s) + held (workers s ! i) = in_workers s + held w"
  using sum_list_update_mset [OF assms, of held w] by (simp add: in_workers_def set_worker_def)

lemma mset_remove_nth:
  "k < length xs \<Longrightarrow> add_mset (xs ! k) (mset (take k xs) + mset (drop (Suc k) xs)) = mset xs"
  by (metis id_take_nth_drop mset_append mset.simps(2) union_mset_add_mset_right)

lemma in_pool_make: "in_pool (pool_make n) = {#}"
  by (induction n) (simp_all add: in_pool_def in_workers_def pool_make_def)

lemma pool_inv_make: "pool_inv (pool_make n)"
  by (simp add: pool_inv_def in_pool_make) (simp add: pool_make_def)

lemma set_worker_simps [simp]:
  "tasks_total (set_worker i w s) = tasks_total s" "tasks (set_worker i w s) = tasks s"
  "pushing (set_worker i w s) = pushing s" "submitted (set_worker i w s) = submitted s"
  "completed (set_worker i w s) = completed s"
  by (simp_all add: set_worker_def)

text \<open>A worker moves one task at most: off the queue, or to the completed ones.\<close>

lemma in_pool_set_same:
  assumes "i < length (workers s)" and "held w = held (workers s ! i)"
  shows "in_pool (set_worker i w s) = in_pool s"
  using in_workers_set [OF assms(1), of w] assms(2) by (simp add: in_pool_def)

lemma in_pool_pop:
  assumes "i < length (workers s)" and "workers s ! i = AtPop" and "tasks s = t # ts"
  shows "in_pool (set_worker i (InTask t) (s\<lparr>tasks := ts\<rparr>)) = in_pool s"
proof -
  have "in_workers (set_worker i (InTask t) (s\<lparr>tasks := ts\<rparr>)) = in_workers s + {#t#}"
    using in_workers_set [of i "s\<lparr>tasks := ts\<rparr>" "InTask t"] assms(1,2)
    by (simp add: in_workers_def)
  then show ?thesis using assms(3) by (simp add: in_pool_def)
qed

lemma in_pool_done:
  assumes "i < length (workers s)" and "workers s ! i = AtDecrement t"
  shows "in_pool s = add_mset t (in_pool (set_worker i AtTest s))"
proof -
  have "in_workers (set_worker i AtTest s) + {#t#} = in_workers s"
    using in_workers_set [OF assms(1), of AtTest] assms(2) by simp
  then show ?thesis by (simp add: in_pool_def ac_simps flip: add_mset_add_single)
qed

lemma in_pool_done_update:
  "in_pool (set_worker i w (s\<lparr>tasks_total := n, completed := m\<rparr>)) = in_pool (set_worker i w s)"
  by (simp add: in_pool_def in_workers_def set_worker_def)

lemma worker_step_inv:
  assumes "pool_inv s" and i: "i < length (workers s)"
  shows "pool_inv (worker_step i s)"
proof (cases "workers s ! i")
  case AtPop
  then show ?thesis
    using assms in_pool_set_same [OF i, of AtTest] in_pool_pop [OF i AtPop]
    by (cases "tasks s") (simp_all add: worker_step_def pop_task_def pool_inv_def)
next
  case (AtDecrement t)
  from in_pool_done [OF i this] assms AtDecrement show ?thesis
    by (simp add: worker_step_def pool_inv_def in_pool_done_update)
qed (use assms in \<open>simp_all add: worker_step_def pool_inv_def in_pool_set_same\<close>)

lemma in_pool_push_begin: "in_pool (push_begin t s) = add_mset t (in_pool s)"
  by (simp add: in_pool_def in_workers_def push_begin_def)

lemma in_pool_push_end: "k < length (pushing s) \<Longrightarrow> in_pool (push_end k s) = in_pool s"
  using mset_remove_nth [of k "pushing s"]
  by (simp add: in_pool_def in_workers_def push_end_def ac_simps)

lemma sum_list_no_tasks: "sum_list (replicate n {#}) = {#}"
  by (induction n) simp_all

lemma held_exited: "list_all (\<lambda>w. w = Exited) ws \<Longrightarrow> sum_list (map held ws) = {#}"
  by (induction ws) simp_all

lemma pool_step_inv:
  assumes "pool_step s s'" and "pool_inv s"
  shows "pool_inv s'"
  using assms
proof (induction rule: pool_step.induct)
  case (Push_begin s t)
  then show ?case
    by (simp add: pool_inv_def in_pool_push_begin) (simp add: push_begin_def)
next
  case (Push_end k s)
  then show ?case
    by (simp add: pool_inv_def in_pool_push_end) (simp add: push_end_def)
next
  case (Worker i s)
  then show ?case by (blast intro: worker_step_inv)
next
  case (Pause s b)
  then show ?case by (simp add: pool_inv_def in_pool_def in_workers_def)
next
  case (Running s b)
  then show ?case by (simp add: pool_inv_def in_pool_def in_workers_def)
next
  case (Recreate s n)
  have "sum_list (map held (workers s)) = {#}"
    using Recreate.hyps by (rule held_exited)
  then show ?case
    using Recreate.prems by (simp add: pool_inv_def in_pool_def in_workers_def sum_list_no_tasks)
qed

definition pool_reachable :: "nat \<Rightarrow> 'a thread_pool \<Rightarrow> bool" where
  "pool_reachable n s \<longleftrightarrow> pool_step\<^sup>*\<^sup>* (pool_make n) s"

interpretation pool: kept pool_step pool_inv
  by unfold_locales (rule pool_step_inv)

lemma reachable_inv: "pool_reachable n s \<Longrightarrow> pool_inv s"
  unfolding pool_reachable_def by (rule pool.always [OF _ pool_inv_make])

text \<open>
  C19: in every state the threads can reach, the counter is the number of tasks that are being
  pushed, wait in the queue, are executed or have just been (modulo \<open>2^64\<close>), and the tasks
  submitted so far are exactly these together with the completed ones: no task is lost or run twice.
\<close>

theorem pool_counts_its_tasks:
  assumes "pool_reachable n s"
  shows "tasks_total s = word_of_nat (size (in_pool s)) \<and> submitted s = in_pool s + completed s"
  using reachable_inv [OF assms] by (simp add: pool_inv_def)

definition sample_pool :: "nat thread_pool" where
  "sample_pool = push_end 0 (push_begin 7 (pool_make 1))"

lemma sample_reachable: "pool_reachable 1 sample_pool"
proof -
  have "pool_step\<^sup>*\<^sup>* (pool_make 1) (push_begin (7 :: nat) (pool_make 1))"
    by (blast intro: Push_begin)
  moreover have "pool_step (push_begin (7 :: nat) (pool_make 1)) sample_pool"
    unfolding sample_pool_def by (rule Push_end) (simp add: push_begin_def pool_make_def)
  ultimately show ?thesis
    unfolding pool_reachable_def by (rule rtranclp.rtrancl_into_rtrancl)
qed

lemma in_pool_sample: "in_pool sample_pool = {#7#}"
  by (simp add: sample_pool_def in_pool_def in_workers_def push_end_def push_begin_def
      pool_make_def)

theorem pool_counts_its_tasks_witness:
  "tasks_total sample_pool = 1 \<and> submitted sample_pool = {#7#} + completed sample_pool"
  using pool_counts_its_tasks [OF sample_reachable] by (simp add: in_pool_sample)

text \<open>
  When \<open>wait_for_tasks\<close> returns on a pool that is not paused, no task is left: none in the
  queue, none being pushed, none in a worker; every task submitted has been completed. (There are
  fewer than \<open>2^64\<close> tasks.)
\<close>

lemma wait_for_tasks_waits_for_all:
  assumes "pool_reachable n s" and "\<not> paused s" and "wait_done s s'" and "size (in_pool s) < 2 ^ 64"
  shows "tasks s = [] \<and> pushing s = [] \<and> submitted s = completed s"
proof -
  have "(word_of_nat (size (in_pool s)) :: u64) = 0"
    using assms reachable_inv [OF assms(1)] by (simp add: wait_done_def pool_inv_def)
  moreover have "unat (word_of_nat (size (in_pool s)) :: u64) = size (in_pool s)"
    using assms(4) by (simp add: unat_of_nat take_bit_nat_eq_self)
  ultimately have "size (in_pool s) = 0" by (metis unat_0)
  then show ?thesis
    using reachable_inv [OF assms(1)] by (simp add: in_pool_def pool_inv_def)
qed

definition sample_done :: "nat thread_pool" where
  "sample_done = (worker_step 0 ^^ 5) sample_pool"

lemma reachable_step: "pool_reachable n s \<Longrightarrow> pool_step s s' \<Longrightarrow> pool_reachable n s'"
  unfolding pool_reachable_def by (rule rtranclp.rtrancl_into_rtrancl)

lemma length_workers [simp]: "length (workers (worker_step i s)) = length (workers s)"
  by (simp add: pool_op split: worker.split list.split)

lemma reachable_worker_steps:
  "pool_reachable n s \<Longrightarrow> i < length (workers s) \<Longrightarrow> pool_reachable n ((worker_step i ^^ k) s)"
proof (induction k)
  case 0
  then show ?case by simp
next
  case (Suc k)
  have "length (workers ((worker_step i ^^ k) s)) = length (workers s)"
    by (induction k) simp_all
  with Suc show ?case by (simp add: reachable_step Worker)
qed

lemma sample_done_eq:
  "sample_done = \<lparr>tasks_total = 0, tasks = [], paused = False, running = True, workers = [AtTest],
     pushing = [], submitted = {#7#}, completed = {#7#}\<rparr>"
  by (simp add: sample_done_def numeral_eq_Suc sample_pool_def push_end_def push_begin_def
      pool_make_def pool_op)

section \<open>The tasks that have not run yet\<close>

fun in_task :: "'a worker \<Rightarrow> bool" where
  "in_task (InTask t) = True"
| "in_task _ = False"

fun ahead :: "'a worker \<Rightarrow> 'a multiset" where
  "ahead (InTask t) = {#t#}"
| "ahead _ = {#}"

text \<open>The tasks in the pool that no worker has run yet.\<close>

definition pending_tasks :: "'a thread_pool \<Rightarrow> 'a multiset" where
  "pending_tasks p = mset (pushing p) + mset (tasks p) + sum_list (map ahead (workers p))"

lemma pending_push_begin: "pending_tasks (push_begin t p) = add_mset t (pending_tasks p)"
  by (simp add: pending_tasks_def push_begin_def)

lemma pending_push_end: "k < length (pushing p) \<Longrightarrow> pending_tasks (push_end k p) = pending_tasks p"
  using mset_remove_nth [of k "pushing p"]
  by (simp add: pending_tasks_def push_end_def ac_simps)

lemma ahead_set_worker:
  assumes "i < length (workers p)"
  shows "sum_list (map ahead (workers (set_worker i w p))) + ahead (workers p ! i)
    = sum_list (map ahead (workers p)) + ahead w"
  using sum_list_update_mset [OF assms, of ahead w] by (simp add: set_worker_def)

lemma pending_worker_step:
  assumes i: "i < length (workers p)" and "\<not> in_task (workers p ! i)"
  shows "pending_tasks (worker_step i p) = pending_tasks p"
proof (cases "workers p ! i")
  case AtPop
  show ?thesis
  proof (cases "tasks p")
    case Nil
    then show ?thesis
      using ahead_set_worker [OF i, of AtTest] AtPop
      by (simp add: worker_step_def pop_task_def pending_tasks_def)
  next
    case (Cons t ts)
    have "sum_list (map ahead (workers (set_worker i (InTask t) (p\<lparr>tasks := ts\<rparr>))))
        = add_mset t (sum_list (map ahead (workers p)))"
      using ahead_set_worker [of i "p\<lparr>tasks := ts\<rparr>" "InTask t"] i AtPop by simp
    then show ?thesis
      using Cons AtPop by (simp add: worker_step_def pop_task_def pending_tasks_def)
  qed
next
  case (AtDecrement t)
  have "sum_list (map ahead (workers (set_worker i AtTest (p\<lparr>tasks_total := k, completed := d\<rparr>))))
      = sum_list (map ahead (workers p))" for k d
    using ahead_set_worker [of i "p\<lparr>tasks_total := k, completed := d\<rparr>" AtTest] i AtDecrement by simp
  then show ?thesis using AtDecrement by (simp add: worker_step_def pending_tasks_def)
qed (use assms ahead_set_worker [OF i] in
      \<open>auto simp: worker_step_def pending_tasks_def\<close>)

lemma pending_run_task:
  assumes i: "i < length (workers p)" and m: "workers p ! i = InTask m"
  shows "pending_tasks p = add_mset m (pending_tasks (worker_step i p))"
  using ahead_set_worker [OF i, of "AtDecrement m"] m
  by (simp add: worker_step_def pending_tasks_def ac_simps flip: add_mset_add_single)

text \<open>When the counter of the pool is zero, no task is left in it.\<close>

lemma nothing_pending: "in_pool p = {#} \<Longrightarrow> pending_tasks p = {#}"
proof -
  have "sum_list (map ahead ws) = {#}" if "sum_list (map held ws) = {#}" for ws :: "'a worker list"
    using that
  proof (induction ws)
    case (Cons w ws)
    then show ?case by (cases w) simp_all
  qed simp
  then show "in_pool p = {#} \<Longrightarrow> ?thesis"
    by (simp add: pending_tasks_def in_pool_def in_workers_def)
qed

lemma no_pending_tasks:
  assumes "pool_inv p" and "\<not> paused p" and "wait_done p p'" and "size (in_pool p) < 2 ^ 64"
  shows "pending_tasks p = {#}"
proof -
  have "(word_of_nat (size (in_pool p)) :: u64) = 0"
    using assms(1-3) by (simp add: wait_done_def pool_inv_def)
  moreover have "unat (word_of_nat (size (in_pool p)) :: u64) = size (in_pool p)"
    using assms(4) by (simp add: unat_of_nat take_bit_nat_eq_self)
  ultimately show ?thesis by (metis unat_0 size_eq_0_iff_empty nothing_pending)
qed

section \<open>What the count of running tasks counts\<close>

lemma size_in_pool: "size (in_pool s) = length (pushing s) + length (tasks s) + size (in_workers s)"
  by (simp add: in_pool_def)

text \<open>
  Read at one moment, \<open>get_tasks_running\<close> counts the tasks in the workers and, besides, the
  tasks of threads that are inside \<open>push_task\<close>.
\<close>

lemma running_count:
  assumes "pool_reachable n s"
  shows "get_tasks_running s s = word_of_nat (size (in_workers s) + length (pushing s))"
  using reachable_inv [OF assms]
  by (simp add: pool_inv_def get_tasks_running_def get_tasks_queued_def size_in_pool)

text \<open>
  The two reads of \<open>get_tasks_running\<close> are not one step. When a push comes between them the
  result is \<open>2^64 - 1\<close>, as the pool can reach such a pair of states.
\<close>

lemma running_count_wraps:
  "\<exists>s1 s2 :: nat thread_pool. pool_reachable 1 s1 \<and> pool_step\<^sup>*\<^sup>* s1 s2
     \<and> get_tasks_running s1 s2 = 2 ^ 64 - 1"
proof (intro exI conjI)
  show "pool_reachable 1 (pool_make 1 :: nat thread_pool)" by (simp add: pool_reachable_def)
  show "pool_step\<^sup>*\<^sup>* (pool_make 1) sample_pool"
    using sample_reachable by (simp add: pool_reachable_def)
  show "get_tasks_running (pool_make 1) sample_pool = 2 ^ 64 - 1"
    by (simp add: get_tasks_running_def get_tasks_queued_def sample_pool_def push_end_def
        push_begin_def pool_make_def)
qed

section \<open>ThreadpoolHandler\<close>

text \<open>
  The handler holds a pointer to a pool, null (\<open>None\<close>) until \<open>initialize\<close>. An \<open>int\<close> argument is
  converted to the 64 bit \<open>ui32\<close>; 0 stands for the number of hardware threads \<open>hw\<close>.
\<close>

definition thread_count_of :: "nat \<Rightarrow> u64 \<Rightarrow> nat" where
  "thread_count_of hw n = (if n \<noteq> 0 then unat n else hw)"

lemma thread_count_of_int:
  assumes "m + 1 < 2 ^ 64"
  shows "thread_count_of hw (word_of_int (int m + 1)) = m + 1"
proof -
  define k where "k = m + 1"
  have "(word_of_int (int m + 1) :: u64) = word_of_nat (m + 1)" by simp
  moreover have "unat (word_of_nat k :: u64) = k"
  proof -
    have "k < 2 ^ 64" using assms by (simp add: k_def)
    then show ?thesis by (simp add: unat_of_nat take_bit_nat_eq_self)
  qed
  then have "unat (word_of_nat (m + 1) :: u64) = m + 1" by (simp only: k_def)
  ultimately show ?thesis by (metis add_is_0 thread_count_of_def unat_0 zero_neq_one)
qed

definition th_initialize :: "nat \<Rightarrow> 'a thread_pool option" where
  "th_initialize hw = Some (pool_make (thread_count_of hw (word_of_nat hw)))"

definition th_initialize_n :: "nat \<Rightarrow> int \<Rightarrow> 'a thread_pool option" where
  "th_initialize_n hw n = Some (pool_make (thread_count_of hw (word_of_int n)))"

definition th_get_tasks_queued :: "'a thread_pool option \<Rightarrow> u64" where
  "th_get_tasks_queued p = (case p of Some s \<Rightarrow> get_tasks_queued s | None \<Rightarrow> 0)"

definition th_get_tasks_running :: "('a thread_pool \<times> 'a thread_pool) option \<Rightarrow> u64" where
  "th_get_tasks_running p = (case p of Some (s1, s2) \<Rightarrow> get_tasks_running s1 s2 | None \<Rightarrow> 0)"

definition th_get_tasks_total :: "'a thread_pool option \<Rightarrow> u64" where
  "th_get_tasks_total p = (case p of Some s \<Rightarrow> get_tasks_total s | None \<Rightarrow> 0)"

definition th_get_thread_count :: "'a thread_pool option \<Rightarrow> nat" where
  "th_get_thread_count p = (case p of Some s \<Rightarrow> get_thread_count s | None \<Rightarrow> 0)"

text \<open>\<open>wait_for_tasks\<close> of the handler is over at once when there is no pool.\<close>

definition th_wait_done :: "('a thread_pool \<times> 'a thread_pool) option \<Rightarrow> bool" where
  "th_wait_done p = (case p of Some (s1, s2) \<Rightarrow> wait_done s1 s2 | None \<Rightarrow> True)"

section \<open>A dispatcher that looks before it pushes\<close>

text \<open>
  The output thread pushes a task when it has read fewer than \<open>m\<close> running tasks. \<open>throttled m\<close>
  are the steps of a pool whose only pushing thread does so.
\<close>

inductive throttled :: "nat \<Rightarrow> 'a thread_pool \<Rightarrow> 'a thread_pool \<Rightarrow> bool" for m where
  Dispatch: "pushing s = [] \<Longrightarrow> get_tasks_running s s < word_of_nat m \<Longrightarrow>
     throttled m s (push_begin t s)"
| Dispatched: "pushing s = [t] \<Longrightarrow> throttled m s (push_end 0 s)"
| Work: "i < length (workers s) \<Longrightarrow> throttled m s (worker_step i s)"

lemma throttled_step: "throttled m s s' \<Longrightarrow> pool_step s s'"
  by (induction rule: throttled.induct) (auto intro: pool_step.intros)

text \<open>The steps of workers that look for a task.\<close>

inductive fetch_step :: "'a thread_pool \<Rightarrow> 'a thread_pool \<Rightarrow> bool" where
  "i < length (workers s) \<Longrightarrow> \<not> in_task (workers s ! i) \<Longrightarrow> fetch_step s (worker_step i s)"

lemma fetch_throttled: "fetch_step s s' \<Longrightarrow> throttled m s s'"
  by (induction rule: fetch_step.induct) (rule Work)

definition waiting_pool :: "nat \<Rightarrow> 'a list \<Rightarrow> 'a list \<Rightarrow> 'a thread_pool" where
  "waiting_pool n busy ts =
     \<lparr>tasks_total = word_of_nat (length busy + length ts), tasks = ts, paused = False, running = True,
      workers = map InTask busy @ replicate (n - length busy) AtTest, pushing = [],
      submitted = mset busy + mset ts, completed = {#}\<rparr>"

lemma waiting_pool_ready:
  assumes "0 < m" and "m < 2 ^ 64"
  shows "get_tasks_running (waiting_pool n [] ts) (waiting_pool n [] ts) < word_of_nat m"
proof -
  have "get_tasks_running (waiting_pool n [] ts) (waiting_pool n [] ts) = 0"
    by (simp add: get_tasks_running_def get_tasks_queued_def waiting_pool_def)
  moreover have "(0 :: u64) < word_of_nat m"
    using assms by (simp add: word_less_nat_alt unat_of_nat take_bit_nat_eq_self)
  ultimately show ?thesis by simp
qed

lemma waiting_pool_pushed: "push_end 0 (push_begin t (waiting_pool n [] ts)) = waiting_pool n [] (ts @ [t])"
  by (simp add: push_end_def push_begin_def waiting_pool_def)

lemma waiting_pool_push:
  assumes "0 < m" and "m < 2 ^ 64"
  shows "(throttled m)\<^sup>*\<^sup>* (waiting_pool n [] ts) (waiting_pool n [] (ts @ [t]))"
proof -
  let ?s = "waiting_pool n [] ts"
  have "throttled m ?s (push_begin t ?s)"
    using waiting_pool_ready [OF assms] by (intro Dispatch) (simp_all add: waiting_pool_def)
  moreover have "throttled m (push_begin t ?s) (push_end 0 (push_begin t ?s))"
    by (rule Dispatched [of _ t]) (simp add: push_begin_def waiting_pool_def)
  ultimately show ?thesis
    unfolding waiting_pool_pushed [symmetric] by (metis converse_rtranclp_into_rtranclp r_into_rtranclp)
qed

lemma waiting_pool_fill:
  assumes "0 < m" and "m < 2 ^ 64"
  shows "(throttled m)\<^sup>*\<^sup>* (waiting_pool n [] ts) (waiting_pool n [] (ts @ us))"
proof (induction us rule: rev_induct)
  case (snoc t us)
  then show ?case
    using waiting_pool_push [OF assms, of n "ts @ us" t] by simp
qed simp

lemma waiting_pool_take:
  assumes "length busy < n"
  shows "fetch_step\<^sup>*\<^sup>* (waiting_pool n busy (t # ts)) (waiting_pool n (busy @ [t]) ts)"
proof -
  let ?s = "waiting_pool n busy (t # ts)" and ?i = "length busy"
  obtain k where k: "n - length busy = Suc k" using assms by (cases "n - length busy") auto
  note unfolds = pool_op waiting_pool_def nth_append list_update_append
  have i: "?i < length (workers ?s)" using assms by (simp add: waiting_pool_def)
  have "fetch_step ?s (worker_step ?i ?s)"
    using i k by (intro fetch_step.intros) (simp_all add: unfolds)
  moreover have "fetch_step \<dots> (worker_step ?i (worker_step ?i ?s))"
    using i k by (intro fetch_step.intros) (simp_all add: unfolds)
  moreover have "fetch_step \<dots> (worker_step ?i (worker_step ?i (worker_step ?i ?s)))"
    using i k by (intro fetch_step.intros) (simp_all add: unfolds)
  moreover have "worker_step ?i (worker_step ?i (worker_step ?i ?s)) = waiting_pool n (busy @ [t]) ts"
    using k by (simp add: unfolds)
  ultimately show ?thesis by (metis converse_rtranclp_into_rtranclp r_into_rtranclp)
qed

lemma waiting_pool_all:
  "length busy + length ts \<le> n \<Longrightarrow>
   fetch_step\<^sup>*\<^sup>* (waiting_pool n busy ts) (waiting_pool n (busy @ ts) [])"
proof (induction ts arbitrary: busy)
  case (Cons t ts)
  then have "fetch_step\<^sup>*\<^sup>* (waiting_pool n busy (t # ts)) (waiting_pool n (busy @ [t]) ts)"
    by (intro waiting_pool_take) simp
  moreover have "fetch_step\<^sup>*\<^sup>* (waiting_pool n (busy @ [t]) ts) (waiting_pool n (busy @ t # ts) [])"
    using Cons.IH [of "busy @ [t]"] Cons.prems by simp
  ultimately show ?case by (rule rtranclp_trans)
qed simp

text \<open>
  The limit the output thread checks does not bound the tasks that run at once: in a pool of
  \<open>m + 1\<close> workers, the number \<open>main\<close> creates for \<open>m\<close> database connections, a dispatcher that pushes
  only when it sees fewer than \<open>m\<close> running tasks can have all \<open>m + 1\<close> workers inside a task,
  because tasks that still wait in the queue do not count as running.
\<close>

theorem throttle_overshoots:
  assumes "0 < m" and "m + 1 < 2 ^ 64" and "length ts = m + 1"
  shows "\<exists>p s. th_initialize_n hw (int m + 1) = Some p \<and> (throttled m)\<^sup>*\<^sup>* p s
    \<and> pool_reachable (m + 1) s \<and> workers s = map InTask ts"
proof -
  have m: "m < 2 ^ 64" using assms(2) by simp
  have all: "(throttled m)\<^sup>*\<^sup>* (pool_make (m + 1)) (waiting_pool (m + 1) ts [])"
  proof (rule rtranclp_trans)
    show "(throttled m)\<^sup>*\<^sup>* (pool_make (m + 1)) (waiting_pool (m + 1) [] ts)"
      using waiting_pool_fill [OF assms(1) m, of "m + 1" "[]" ts]
      by (simp add: waiting_pool_def pool_make_def)
    have "fetch_step\<^sup>*\<^sup>* (waiting_pool (m + 1) [] ts) (waiting_pool (m + 1) ts [])"
      using waiting_pool_all [of "[]" ts "m + 1"] assms(3) by simp
    then show "(throttled m)\<^sup>*\<^sup>* (waiting_pool (m + 1) [] ts) (waiting_pool (m + 1) ts [])"
      by (rule rtranclp_mono [THEN predicate2D, rotated]) (auto intro: fetch_throttled)
  qed
  then have "pool_reachable (m + 1) (waiting_pool (m + 1) ts [])"
    unfolding pool_reachable_def by (rule rtranclp_mono [THEN predicate2D, rotated])
      (auto intro: throttled_step)
  moreover have "th_initialize_n hw (int m + 1) = Some (pool_make (m + 1))"
    using thread_count_of_int [OF assms(2)] by (simp add: th_initialize_n_def)
  moreover have "workers (waiting_pool (m + 1) ts []) = map InTask ts"
    using assms(3) by (simp add: waiting_pool_def)
  ultimately show ?thesis using all by blast
qed

theorem throttle_overshoots_witness:
  "\<exists>p s. th_initialize_n 8 3 = Some p \<and> (throttled 2)\<^sup>*\<^sup>* p s \<and> pool_reachable 3 s
     \<and> workers s = [InTask ''a'', InTask ''b'', InTask ''c'']"
  using throttle_overshoots [of 2 "[''a'', ''b'', ''c'']" 8] by simp

end
