(* ===== verification/TcpServer.thy ===== *)
theory TcpServer
  imports Prelude
begin

text \<open>
  The listening socket, \<^verbatim>\<open>src/src/utils/tcpclientserver/Server.h\<close> and \<^verbatim>\<open>Server.cpp\<close>. The
  operating system is a parameter, the record \<open>sockets\<close>: each call acts on a state of an unknown
  type \<open>'n\<close> and returns what the system call returns. \<open>net\<close> adds a record of the descriptors that
  the server opened and closed.
\<close>

section \<open>The system calls\<close>

record 'n sockets =
  sk_socket :: "'n \<Rightarrow> int \<times> 'n"
  sk_reuseaddr :: "int \<Rightarrow> 'n \<Rightarrow> int \<times> 'n"
  sk_bindtodevice :: "int \<Rightarrow> string \<Rightarrow> 'n \<Rightarrow> int \<times> 'n"
  sk_bind :: "int \<Rightarrow> string \<Rightarrow> 16 word \<Rightarrow> 'n \<Rightarrow> int \<times> 'n"
  sk_listen :: "int \<Rightarrow> int \<Rightarrow> 'n \<Rightarrow> int \<times> 'n"
  sk_poll :: "int \<Rightarrow> 'n \<Rightarrow> (int \<times> bool) \<times> 'n" \<comment> \<open>the count, and whether POLLIN is set\<close>
  sk_error :: "int \<Rightarrow> 'n \<Rightarrow> int \<times> 'n" \<comment> \<open>SO_ERROR\<close>
  sk_accept :: "int \<Rightarrow> 'n \<Rightarrow> int \<times> 'n"
  sk_shutdown :: "int \<Rightarrow> 'n \<Rightarrow> 'n"
  sk_close :: "int \<Rightarrow> 'n \<Rightarrow> 'n"

datatype fd_event = Opened int | ClosedFd int | Accepted int

record 'n net =
  os :: 'n
  fds :: "fd_event list" \<comment> \<open>oldest first\<close>

definition sys :: "('n \<Rightarrow> 'a \<times> 'n) \<Rightarrow> 'n net \<Rightarrow> 'a \<times> 'n net" where
  "sys f n = (case f (os n) of (r, s) \<Rightarrow> (r, n\<lparr>os := s\<rparr>))"

definition note_fd :: "fd_event \<Rightarrow> 'n net \<Rightarrow> 'n net" where
  "note_fd e n = n\<lparr>fds := fds n @ [e]\<rparr>"

section \<open>The server\<close>

record server =
  serverSocket :: int
  pfds :: "int option" \<comment> \<open>the descriptor in the allocated \<open>pollfd\<close>; \<open>None\<close>: nullptr\<close>

definition server_new :: server where
  "server_new = \<lparr>serverSocket = -1, pfds = None\<rparr>"

text \<open>\<open>Server::shutdown\<close>\<close>

definition server_shutdown :: "'n sockets \<Rightarrow> server \<Rightarrow> 'n net \<Rightarrow> server \<times> 'n net" where
  "server_shutdown k v n =
     (let n = (if 0 < serverSocket v
               then note_fd (ClosedFd (serverSocket v))
                      (n\<lparr>os := sk_close k (serverSocket v) (sk_shutdown k (serverSocket v) (os n))\<rparr>)
               else n)
      in (\<lparr>serverSocket = -1, pfds = None\<rparr>, n))"

text \<open>\<open>Server::setup\<close>: 0 when the socket listens, 1 otherwise.\<close>

definition setup_failed :: "'n sockets \<Rightarrow> server \<Rightarrow> 'n net \<Rightarrow> int \<times> server \<times> 'n net" where
  "setup_failed k v n = (case server_shutdown k v n of (v, n) \<Rightarrow> (1, v, n))"

definition server_setup ::
  "'n sockets \<Rightarrow> string \<Rightarrow> string \<Rightarrow> 16 word \<Rightarrow> bool \<Rightarrow> int \<Rightarrow> server \<Rightarrow> 'n net \<Rightarrow>
   int \<times> server \<times> 'n net" where
  "server_setup k interface host port bind_to_interface backlog v n =
     (case server_shutdown k v n of
        (v, n) \<Rightarrow>
          (case sys (sk_socket k) n of
             (fd, n) \<Rightarrow>
               (let n = (if 0 \<le> fd then note_fd (Opened fd) n else n);
                    v = v\<lparr>serverSocket := fd\<rparr>
                in case sys (sk_reuseaddr k fd) n of
                     (r, n) \<Rightarrow>
                       if r < 0 then setup_failed k v n
                       else
                         (case (if bind_to_interface then sys (sk_bindtodevice k fd interface) n
                                else (0, n)) of
                            (r, n) \<Rightarrow>
                              if r < 0 then setup_failed k v n
                              else
                                (case sys (sk_bind k fd host port) n of
                                   (r, n) \<Rightarrow>
                                     if r = 0 then
                                       (case sys (sk_listen k fd backlog) n of
                                          (r, n) \<Rightarrow>
                                            if r = 0 then (0, v\<lparr>pfds := Some fd\<rparr>, n)
                                            else setup_failed k v n)
                                     else setup_failed k v n)))))"

text \<open>
  \<open>Server::accept\<close>: a new descriptor, 0 when there is none, -1 when the socket is not usable.
\<close>

definition server_accept :: "'n sockets \<Rightarrow> server \<Rightarrow> 'n net \<Rightarrow> int \<times> 'n net" where
  "server_accept k v n =
     (case pfds v of
        None \<Rightarrow> (-1, n)
      | Some fd \<Rightarrow>
          (case sys (sk_poll k fd) n of
             ((poll_count, pollin), n) \<Rightarrow>
               if poll_count = -1 then (-1, n)
               else
                 (case sys (sk_error k (serverSocket v)) n of
                    (error_code, n) \<Rightarrow>
                      if error_code \<noteq> 0 then (-1, n)
                      else if pollin \<and> fd = serverSocket v then
                        (case sys (sk_accept k (serverSocket v)) n of
                           (new_socket, n) \<Rightarrow>
                             if new_socket = -1 then (0, n)
                             else (new_socket, note_fd (Accepted new_socket) n))
                      else (0, n))))"

section \<open>Descriptors\<close>

text \<open>The descriptors that were opened and not closed.\<close>

definition live :: "fd_event list \<Rightarrow> int list" where
  "live es = foldl (\<lambda>l e. case e of Opened fd \<Rightarrow> l @ [fd] | ClosedFd fd \<Rightarrow> remove1 fd l
     | Accepted fd \<Rightarrow> l) [] es"

text \<open>The connections that \<open>::accept\<close> gave, oldest first. They belong to the client handlers.\<close>

fun accepted :: "fd_event list \<Rightarrow> int list" where
  "accepted [] = []"
| "accepted (Accepted fd # es) = fd # accepted es"
| "accepted (_ # es) = accepted es"

lemma accepted_append: "accepted (es @ fs) = accepted es @ accepted fs"
  by (induction es rule: accepted.induct) simp_all

text \<open>
  The invariant: the server holds exactly the descriptor it has opened and not closed, and a
  \<open>pollfd\<close> only for a listening socket of its own.
\<close>

definition server_ok :: "server \<Rightarrow> 'n net \<Rightarrow> bool" where
  "server_ok v n \<longleftrightarrow>
     live (fds n) = (if 0 < serverSocket v then [serverSocket v] else [])
     \<and> (pfds v = None \<or> pfds v = Some (serverSocket v))"

lemma live_snoc [simp]:
  "live (es @ [Opened fd]) = live es @ [fd]" "live (es @ [ClosedFd fd]) = remove1 fd (live es)"
  "live (es @ [Accepted fd]) = live es"
  by (simp_all add: live_def)

lemma fds_sys: "sys f n = (r, n') \<Longrightarrow> fds n' = fds n"
  by (auto simp: sys_def split: prod.splits)

lemma fds_note [simp]: "fds (note_fd e n) = fds n @ [e]"
  by (simp add: note_fd_def)

lemma shutdown_live:
  assumes "server_shutdown k v n = (v', n')"
    and "live (fds n) = (if 0 < serverSocket v then [serverSocket v] else [])"
  shows "v' = server_new \<and> live (fds n') = []"
  using assms by (auto simp: server_shutdown_def server_new_def split: if_splits)

lemma setup_failed_live:
  assumes "live (fds n) = (if 0 < serverSocket v then [serverSocket v] else [])"
  shows "\<exists>n'. setup_failed k v n = (1, server_new, n') \<and> live (fds n') = []"
proof -
  obtain v' n' where sd: "server_shutdown k v n = (v', n')" by fastforce
  from shutdown_live [OF this assms] sd show ?thesis by (simp add: setup_failed_def)
qed

text \<open>Descriptor 0 is taken: the code keeps no socket whose descriptor is 0.\<close>

definition no_fd_zero :: "'n sockets \<Rightarrow> bool" where
  "no_fd_zero k \<longleftrightarrow> (\<forall>s. fst (sk_socket k s) \<noteq> 0)"

lemma server_ok_new: "server_ok server_new \<lparr>os = s, fds = []\<rparr>"
  by (simp add: server_ok_def server_new_def live_def)

definition setup_good :: "int \<times> server \<times> 'n net \<Rightarrow> bool" where
  "setup_good x \<longleftrightarrow> (case x of (r, v, n) \<Rightarrow> server_ok v n \<and>
     (if r = 0 then pfds v = Some (serverSocket v) else r = 1 \<and> v = server_new))"

lemma setup_result:
  assumes "no_fd_zero k" and "server_ok v n"
  shows "setup_good (server_setup k interface host port bd backlog v n)"
proof -
  obtain v1 n1 where sd: "server_shutdown k v n = (v1, n1)" by fastforce
  have live1: "live (fds n1) = []" and v1: "v1 = server_new"
    using shutdown_live [OF sd] assms(2) by (simp_all add: server_ok_def)
  obtain fd n2 where so: "sys (sk_socket k) n1 = (fd, n2)" by fastforce
  have "fst (sk_socket k (os n1)) = fd" using so by (auto simp: sys_def split: prod.splits)
  then have fd0: "fd \<noteq> 0" using assms(1) by (auto simp: no_fd_zero_def)
  define n3 where "n3 = (if 0 \<le> fd then note_fd (Opened fd) n2 else n2)"
  define v3 where "v3 = \<lparr>serverSocket = fd, pfds = None\<rparr>"
  have live3: "live (fds n3) = (if 0 < fd then [fd] else [])"
    using fd0 live1 fds_sys [OF so] by (simp add: n3_def)
  have failed: "setup_good (setup_failed k v3 n')" if "fds n' = fds n3" for n'
  proof -
    have "\<exists>n''. setup_failed k v3 n' = (1, server_new, n'') \<and> live (fds n'') = []"
      using that live3 by (intro setup_failed_live) (simp add: v3_def)
    then show ?thesis by (auto simp: setup_good_def server_ok_def server_new_def)
  qed
  obtain r4 n4 where n4: "sys (sk_reuseaddr k fd) n3 = (r4, n4)" by fastforce
  obtain r5 n5 where n5: "(if bd then sys (sk_bindtodevice k fd interface) n4 else (0, n4)) = (r5, n5)"
    by fastforce
  obtain r6 n6 where n6: "sys (sk_bind k fd host port) n5 = (r6, n6)" by fastforce
  obtain r7 n7 where n7: "sys (sk_listen k fd backlog) n6 = (r7, n7)" by fastforce
  have same: "fds n4 = fds n3" "fds n5 = fds n3" "fds n6 = fds n3" "fds n7 = fds n3"
    using fds_sys [OF n4] n5 fds_sys [OF n6] fds_sys [OF n7] by (auto dest: fds_sys split: if_splits)
  have run: "server_setup k interface host port bd backlog v n =
     (if r4 < 0 then setup_failed k v3 n4
      else if r5 < 0 then setup_failed k v3 n5
      else if r6 \<noteq> 0 then setup_failed k v3 n6
      else if r7 \<noteq> 0 then setup_failed k v3 n7
      else (0, v3\<lparr>pfds := Some fd\<rparr>, n7))"
    unfolding server_setup_def sd prod.case so Let_def n3_def [symmetric] v1 n4 n5 n6 n7
    by (simp add: v3_def server_new_def n4 n5 n6 n7)
  have "setup_good (0, v3\<lparr>pfds := Some fd\<rparr>, n7)"
    using live3 same(4) by (simp add: setup_good_def server_ok_def v3_def)
  then show ?thesis unfolding run by (simp add: failed same)
qed

text \<open>
  \<open>setup\<close> leaves nothing behind. On a server that holds exactly its own socket, it returns 0
  with a socket that listens and is the only descriptor the server has open, or 1 with
  everything closed; every failing step on the way closes the socket it found. (No socket gets
  descriptor 0, which the server would not close.)
\<close>

theorem setup_leaks_nothing:
  assumes "no_fd_zero k" and "server_ok v n"
  shows "case server_setup k interface host port bind_to_interface backlog v n of
    (r, v', n') \<Rightarrow> server_ok v' n' \<and>
      (if r = 0 then pfds v' = Some (serverSocket v') else r = 1 \<and> v' = server_new)"
  using setup_result [OF assms] unfolding setup_good_def .

section \<open>A laboratory network\<close>

text \<open>
  A concrete system: descriptors count up, ports below 1024 cannot be bound, and the given
  connections wait to be accepted.
\<close>

record lab_net =
  next_fd :: int
  waiting :: int

definition lab_sockets :: "lab_net sockets" where
  "lab_sockets =
     \<lparr>sk_socket = (\<lambda>s. (3 + \<bar>next_fd s\<bar>, s\<lparr>next_fd := \<bar>next_fd s\<bar> + 1\<rparr>)),
      sk_reuseaddr = (\<lambda>fd s. (0, s)),
      sk_bindtodevice = (\<lambda>fd d s. (0, s)),
      sk_bind = (\<lambda>fd h port s. (if port < 1024 then -1 else 0, s)),
      sk_listen = (\<lambda>fd n s. (0, s)),
      sk_poll = (\<lambda>fd s. ((if 0 < waiting s then 1 else 0, 0 < waiting s), s)),
      sk_error = (\<lambda>fd s. (0, s)),
      sk_accept = (\<lambda>fd s. (3 + \<bar>next_fd s\<bar>, s\<lparr>next_fd := \<bar>next_fd s\<bar> + 1, waiting := waiting s - 1\<rparr>)),
      sk_shutdown = (\<lambda>fd s. s),
      sk_close = (\<lambda>fd s. s)\<rparr>"

definition lab_net0 :: "int \<Rightarrow> lab_net net" where
  "lab_net0 clients = \<lparr>os = \<lparr>next_fd = 0, waiting = clients\<rparr>, fds = []\<rparr>"

lemma lab_sockets_no_zero: "no_fd_zero lab_sockets"
proof -
  have "3 + \<bar>i\<bar> \<noteq> 0" for i :: int by arith
  then show ?thesis by (simp add: no_fd_zero_def lab_sockets_def)
qed

theorem setup_leaks_nothing_witness:
  "live (fds (snd (snd (server_setup lab_sockets ''eth0'' ''127.0.0.1'' 80 False 500 server_new
      (lab_net0 0))))) = []
   \<and> live (fds (snd (snd (server_setup lab_sockets ''eth0'' ''127.0.0.1'' 1370 False 500 server_new
      (lab_net0 0))))) = [3]"
proof -
  have ok: "server_ok server_new (lab_net0 0)" by (simp add: lab_net0_def server_ok_new)
  have "server_setup lab_sockets ''eth0'' ''127.0.0.1'' 80 False 500 server_new (lab_net0 0)
      = (1, server_new, \<lparr>os = \<lparr>next_fd = 1, waiting = 0\<rparr>, fds = [Opened 3, ClosedFd 3]\<rparr>)"
    and "server_setup lab_sockets ''eth0'' ''127.0.0.1'' 1370 False 500 server_new (lab_net0 0)
      = (0, \<lparr>serverSocket = 3, pfds = Some 3\<rparr>, \<lparr>os = \<lparr>next_fd = 1, waiting = 0\<rparr>, fds = [Opened 3]\<rparr>)"
    by (simp_all add: server_setup_def setup_failed_def server_shutdown_def sys_def note_fd_def
        lab_sockets_def server_new_def lab_net0_def)
  with setup_leaks_nothing [OF lab_sockets_no_zero ok, of "''eth0''" "''127.0.0.1''" 80 False 500]
    setup_leaks_nothing [OF lab_sockets_no_zero ok, of "''eth0''" "''127.0.0.1''" 1370 False 500]
  show ?thesis by (simp add: server_ok_def server_new_def)
qed

end
