(* ===== verification/TcpClient.thy ===== *)
theory TcpClient
  imports TcpServer
begin

text \<open>
  The client socket, \<^verbatim>\<open>src/src/utils/tcpclientserver/Client.cpp\<close> and \<^verbatim>\<open>tcpStructs.h\<close>. The
  system calls are the parameter \<open>client_calls\<close>; \<open>net\<close> records the descriptors.
\<close>

section \<open>The system calls\<close>

datatype keep_option = SO_KEEPALIVE | TCP_KEEPCNT | TCP_KEEPIDLE | TCP_KEEPINTVL

text \<open>
  \<open>struct ifreq\<close>: the name of a device and the address that an \<open>ioctl\<close> fills in
  (\<open>ifr_hwaddr\<close> and \<open>ifr_addr\<close> are members of one union).
\<close>

record ifreq =
  ifr_name :: "byte list" \<comment> \<open>\<open>IFNAMSIZ\<close> = 16 bytes\<close>
  sa_family :: "16 word"
  sa_data :: "byte list" \<comment> \<open>14 bytes\<close>

record 'n client_calls =
  cc_socket :: "'n \<Rightarrow> int \<times> 'n"
  cc_reuseaddr :: "int \<Rightarrow> 'n \<Rightarrow> int \<times> 'n"
  cc_setsockopt :: "int \<Rightarrow> keep_option \<Rightarrow> int \<Rightarrow> 'n \<Rightarrow> int \<times> 'n"
  cc_connect :: "int \<Rightarrow> string \<Rightarrow> 16 word \<Rightarrow> 'n \<Rightarrow> int \<times> 'n"
  cc_error :: "int \<Rightarrow> 'n \<Rightarrow> int \<times> 'n"
  cc_recv :: "int \<Rightarrow> nat \<Rightarrow> 'n \<Rightarrow> (int \<times> byte list) \<times> 'n"
  cc_send :: "int \<Rightarrow> byte list \<Rightarrow> 'n \<Rightarrow> int \<times> 'n"
  cc_shutdown :: "int \<Rightarrow> 'n \<Rightarrow> 'n"
  cc_close :: "int \<Rightarrow> 'n \<Rightarrow> 'n"
  cc_dgram :: "'n \<Rightarrow> int \<times> 'n" \<comment> \<open>\<open>socket(AF_INET, SOCK_DGRAM, 0)\<close>\<close>
  cc_hwaddr :: "int \<Rightarrow> ifreq \<Rightarrow> 'n \<Rightarrow> ifreq \<times> 'n" \<comment> \<open>\<open>ioctl\<close> with \<open>SIOCGIFHWADDR\<close>\<close>

record keep_config =
  keepidle :: int
  keepcnt :: int
  keepintvl :: int

record tcp_client =
  host :: string
  port :: "16 word"
  socket_desc :: int
  is_connected :: bool

definition client_new :: "string \<Rightarrow> 16 word \<Rightarrow> tcp_client" where
  "client_new h p = \<lparr>host = h, port = p, socket_desc = 0, is_connected = False\<rparr>"

section \<open>The operations\<close>

definition client_shutdown :: "'n client_calls \<Rightarrow> tcp_client \<Rightarrow> 'n net \<Rightarrow> tcp_client \<times> 'n net" where
  "client_shutdown k c n =
     (c\<lparr>socket_desc := -1, is_connected := False\<rparr>,
      if 0 < socket_desc c
      then note_fd (ClosedFd (socket_desc c))
             (n\<lparr>os := cc_close k (socket_desc c) (cc_shutdown k (socket_desc c) (os n))\<rparr>)
      else n)"

definition set_tcp_keepalive :: "'n client_calls \<Rightarrow> int \<Rightarrow> 'n net \<Rightarrow> int \<times> 'n net" where
  "set_tcp_keepalive k fd n = sys (cc_setsockopt k fd SO_KEEPALIVE 1) n"

text \<open>Each option is set only if the ones before it were.\<close>

definition set_tcp_keepalive_cfg ::
  "'n client_calls \<Rightarrow> int \<Rightarrow> keep_config \<Rightarrow> 'n net \<Rightarrow> int \<times> 'n net" where
  "set_tcp_keepalive_cfg k fd cfg n =
     (case set_tcp_keepalive k fd n of
        (rc, n) \<Rightarrow>
          if rc \<noteq> 0 then (rc, n)
          else (case sys (cc_setsockopt k fd TCP_KEEPCNT (keepcnt cfg)) n of
            (rc, n) \<Rightarrow>
              if rc \<noteq> 0 then (rc, n)
              else (case sys (cc_setsockopt k fd TCP_KEEPIDLE (keepidle cfg)) n of
                (rc, n) \<Rightarrow>
                  if rc \<noteq> 0 then (rc, n)
                  else (case sys (cc_setsockopt k fd TCP_KEEPINTVL (keepintvl cfg)) n of
                    (rc, n) \<Rightarrow> if rc \<noteq> 0 then (rc, n) else (0, n)))))"

definition client_connect ::
  "'n client_calls \<Rightarrow> tcp_client \<Rightarrow> 'n net \<Rightarrow> bool \<times> tcp_client \<times> 'n net" where
  "client_connect k c n =
     (case client_shutdown k c n of
        (c, n) \<Rightarrow>
          (case sys (cc_socket k) n of
             (fd, n) \<Rightarrow>
               (let n = (if 0 \<le> fd then note_fd (Opened fd) n else n);
                    c = c\<lparr>socket_desc := fd\<rparr>
                in if fd \<noteq> -1 then
                     (case sys (cc_reuseaddr k fd) n of
                        (_, n) \<Rightarrow>
                          (case set_tcp_keepalive_cfg k fd \<lparr>keepidle = 30, keepcnt = 5, keepintvl = 5\<rparr> n of
                             (_, n) \<Rightarrow>
                               (case sys (cc_connect k fd (host c) (port c)) n of
                                  (conr, n) \<Rightarrow>
                                    (let c = c\<lparr>is_connected := (conr = 0)\<rparr>
                                     in (is_connected c, c, n)))))
                   else (is_connected c, c, n))))"

definition client_recv ::
  "'n client_calls \<Rightarrow> nat \<Rightarrow> tcp_client \<Rightarrow> 'n net \<Rightarrow> (int \<times> byte list) \<times> tcp_client \<times> 'n net" where
  "client_recv k len c n =
     (if is_connected c then
        (case sys (cc_recv k (socket_desc c) len) n of
           ((r, bs), n) \<Rightarrow> ((r, bs), (if r < 0 then c\<lparr>is_connected := False\<rparr> else c), n))
      else ((-1, []), c, n))"

definition client_send ::
  "'n client_calls \<Rightarrow> byte list \<Rightarrow> tcp_client \<Rightarrow> 'n net \<Rightarrow> int \<times> tcp_client \<times> 'n net" where
  "client_send k message c n =
     (if is_connected c then
        (case sys (cc_error k (socket_desc c)) n of
           (error_code, n) \<Rightarrow>
             if error_code \<noteq> 0 then (error_code, c\<lparr>is_connected := False\<rparr>, n)
             else (case sys (cc_send k (socket_desc c) message) n of
                     (r, n) \<Rightarrow> (r, (if r < 0 then c\<lparr>is_connected := False\<rparr> else c), n)))
      else (-1, c, n))"

text \<open>
  \<open>strncpy(dst, src, n)\<close> into a new array: \<open>src\<close> up to its NUL, cut at \<open>n\<close> bytes or padded
  with NULs to \<open>n\<close>.
\<close>

definition strncpy :: "byte list \<Rightarrow> nat \<Rightarrow> byte list" where
  "strncpy src n = take n (takeWhile (\<lambda>b. b \<noteq> 0) src @ replicate n 0)"

definition IFNAMSIZ :: nat where
  "IFNAMSIZ = 16"

definition AF_INET :: "16 word" where
  "AF_INET = 2"

text \<open>
  \<open>getMacAddress\<close>: \<open>dest\<close> is the array of the caller, \<open>None\<close> a copy that leaves it. The results of
  \<open>socket\<close>, \<open>ioctl\<close> and \<open>close\<close> are not looked at.
\<close>

definition getMacAddress ::
  "'n client_calls \<Rightarrow> byte list \<Rightarrow> byte list \<Rightarrow> 'n net \<Rightarrow> byte list option \<times> 'n net" where
  "getMacAddress k dev dest n =
     (case sys (cc_dgram k) n of
        (fd, n) \<Rightarrow>
          (let n = (if 0 \<le> fd then note_fd (Opened fd) n else n);
               ifr = \<lparr>ifr_name = strncpy dev (IFNAMSIZ - 1) @ [0], sa_family = AF_INET,
                      sa_data = replicate 14 0\<rparr>
           in case sys (cc_hwaddr k fd ifr) n of
                (ifr, n) \<Rightarrow>
                  (let n = n\<lparr>os := cc_close k fd (os n)\<rparr>;
                       n = (if 0 \<le> fd then note_fd (ClosedFd fd) n else n)
                   in (memcpy dest 0 (sa_data ifr) 6, n))))"

section \<open>The address of a device\<close>

lemma strncpy_length [simp]: "length (strncpy src n) = n"
  by (simp add: strncpy_def)

text \<open>
  It writes the first six bytes of an array that has them, and nothing else of it. A device the
  system does not know, for which \<open>ioctl\<close> leaves the request as it is, cannot be told from one with
  the address zero.
\<close>

lemma getMacAddress_writes:
  assumes "getMacAddress k dev dest n = (Some d, n')"
  shows "length d = length dest \<and> drop 6 d = drop 6 dest"
  using assms
  by (auto simp: getMacAddress_def Let_def memcpy_def min_def split: prod.splits if_splits)

lemma getMacAddress_unknown:
  assumes "\<forall>fd ifr s. cc_hwaddr k fd ifr s = (ifr, s)" and "6 \<le> length dest"
  shows "fst (getMacAddress k dev dest n) = Some (replicate 6 0 @ drop 6 dest)"
  using assms by (simp add: getMacAddress_def Let_def sys_def memcpy_def split: prod.split)

section \<open>The invariant of a client\<close>

text \<open>
  A connected client has a socket, and the client holds exactly the descriptor it has opened and
  not closed.
\<close>

definition client_ok :: "tcp_client \<Rightarrow> 'n net \<Rightarrow> bool" where
  "client_ok c n \<longleftrightarrow> (is_connected c \<longrightarrow> 0 < socket_desc c)
     \<and> live (fds n) = (if 0 < socket_desc c then [socket_desc c] else [])"

text \<open>\<open>socket\<close> gives -1 or a descriptor other than 0.\<close>

definition sane_socket :: "'n client_calls \<Rightarrow> bool" where
  "sane_socket k \<longleftrightarrow> (\<forall>s. fst (cc_socket k s) = -1 \<or> 0 < fst (cc_socket k s))"

lemma client_shutdown_ok:
  "client_shutdown k c n = (c', n') \<Longrightarrow> client_ok c n \<Longrightarrow>
   socket_desc c' = -1 \<and> \<not> is_connected c' \<and> live (fds n') = []"
  by (auto simp: client_shutdown_def client_ok_def)

lemma fds_keepalive: "set_tcp_keepalive_cfg k fd cfg n = (r, n') \<Longrightarrow> fds n' = fds n"
  by (auto simp: set_tcp_keepalive_cfg_def set_tcp_keepalive_def dest!: fds_sys
      split: prod.splits if_splits)

lemma client_connect_ok:
  assumes "client_ok c n" and "sane_socket k" and "client_connect k c n = (r, c', n')"
  shows "client_ok c' n' \<and> (r \<longleftrightarrow> is_connected c')"
proof -
  obtain c1 n1 where 1: "client_shutdown k c n = (c1, n1)" by fastforce
  note closed = client_shutdown_ok [OF 1 assms(1)]
  obtain fd n2 where 2: "sys (cc_socket k) n1 = (fd, n2)" by fastforce
  have "fst (cc_socket k (os n1)) = fd" using 2 by (auto simp: sys_def split: prod.splits)
  then have fd: "fd = -1 \<or> 0 < fd" using assms(2) unfolding sane_socket_def by metis
  define n3 where "n3 = (if 0 \<le> fd then note_fd (Opened fd) n2 else n2)"
  have live3: "live (fds n3) = (if 0 < fd then [fd] else [])"
    using closed fd fds_sys [OF 2] by (auto simp: n3_def)
  obtain r4 n4 where 4: "sys (cc_reuseaddr k fd) n3 = (r4, n4)" by fastforce
  obtain r5 n5 where
    5: "set_tcp_keepalive_cfg k fd \<lparr>keepidle = 30, keepcnt = 5, keepintvl = 5\<rparr> n4 = (r5, n5)"
    by fastforce
  obtain r6 n6 where 6: "sys (cc_connect k fd (host c1) (port c1)) n5 = (r6, n6)" by fastforce
  have "fds n6 = fds n3" using fds_sys [OF 4] fds_keepalive [OF 5] fds_sys [OF 6] by simp
  moreover have "client_connect k c n =
      (if fd \<noteq> -1 then (r6 = 0, c1\<lparr>socket_desc := fd, is_connected := (r6 = 0)\<rparr>, n6)
       else (is_connected c1, c1\<lparr>socket_desc := fd\<rparr>, n3))"
    unfolding client_connect_def 1 prod.case 2 Let_def n3_def [symmetric] 4 5
    by (simp add: 6)
  ultimately show ?thesis
    using assms(3) closed fd live3 by (auto simp: client_ok_def split: if_splits)
qed

lemma client_recv_ok: "client_ok c n \<Longrightarrow> client_recv k m c n = (r, c', n') \<Longrightarrow> client_ok c' n'"
  by (auto simp: client_recv_def client_ok_def dest!: fds_sys split: if_splits prod.splits)

lemma client_send_ok: "client_ok c n \<Longrightarrow> client_send k m c n = (r, c', n') \<Longrightarrow> client_ok c' n'"
  by (auto simp: client_send_def client_ok_def dest!: fds_sys split: if_splits prod.splits)

text \<open>The temporary socket of \<open>getMacAddress\<close> is closed again, whatever its calls return.\<close>

lemma getMacAddress_ok: "client_ok c n \<Longrightarrow> getMacAddress k dev dest n = (r, n') \<Longrightarrow> client_ok c n'"
proof -
  assume ok: "client_ok c n" and run: "getMacAddress k dev dest n = (r, n')"
  have "fds n' = fds n \<or> (\<exists>fd. fds n' = (fds n @ [Opened fd]) @ [ClosedFd fd])"
    using run by (auto simp: getMacAddress_def Let_def sys_def note_fd_def split: prod.splits if_splits)
  with ok show ?thesis by (auto simp only: client_ok_def live_snoc) (auto split: if_splits)
qed

datatype client_op = Connect | Shutdown | Recv nat | Send "byte list" | Get_mac "byte list" "byte list"

fun client_do :: "'n client_calls \<Rightarrow> client_op \<Rightarrow> tcp_client \<times> 'n net \<Rightarrow> tcp_client \<times> 'n net" where
  "client_do k Connect (c, n) = snd (client_connect k c n)"
| "client_do k (Get_mac dev dest) (c, n) = (c, snd (getMacAddress k dev dest n))"
| "client_do k Shutdown (c, n) = client_shutdown k c n"
| "client_do k (Recv m) (c, n) = snd (client_recv k m c n)"
| "client_do k (Send bs) (c, n) = snd (client_send k bs c n)"

lemma client_do_ok:
  assumes "client_ok (fst s) (snd s)" and "sane_socket k"
  shows "client_ok (fst (client_do k op s)) (snd (client_do k op s))"
proof -
  obtain c n where s: "s = (c, n)" by fastforce
  show ?thesis
  proof (cases op)
    case Connect
    obtain r c' n' where run: "client_connect k c n = (r, c', n')" by (metis prod_cases3)
    with client_connect_ok [OF _ assms(2) run] s assms(1) Connect show ?thesis by simp
  next
    case Shutdown
    obtain c' n' where run: "client_shutdown k c n = (c', n')" by fastforce
    with client_shutdown_ok [OF run] s assms(1) Shutdown show ?thesis by (simp add: client_ok_def)
  next
    case (Recv m)
    obtain r c' n' where run: "client_recv k m c n = (r, c', n')" by (metis prod_cases3)
    with client_recv_ok [OF _ run] s assms(1) Recv show ?thesis by simp
  next
    case (Send bs)
    obtain r c' n' where run: "client_send k bs c n = (r, c', n')" by (metis prod_cases3)
    with client_send_ok [OF _ run] s assms(1) Send show ?thesis by simp
  next
    case (Get_mac dev dest)
    obtain r n' where "getMacAddress k dev dest n = (r, n')" by fastforce
    with getMacAddress_ok [OF _ this] s assms(1) Get_mac show ?thesis by simp
  qed
qed

text \<open>
  C37: whatever a program does with a client and whatever the system calls return, the client
  never leaks a descriptor: after any sequence of operations it has exactly its own socket
  open, if it has one; it says it is connected only when it has; and after a \<open>shutdown\<close> it has none.
\<close>

theorem client_never_leaks:
  assumes "sane_socket k"
  shows "case fold (client_do k) ops (client_new h p, \<lparr>os = s, fds = []\<rparr>) of (c, n) \<Rightarrow>
    (is_connected c \<longrightarrow> 0 < socket_desc c)
    \<and> live (fds n) = (if 0 < socket_desc c then [socket_desc c] else [])
    \<and> live (fds (snd (client_shutdown k c n))) = []"
proof -
  have "client_ok (fst (fold (client_do k) ops x)) (snd (fold (client_do k) ops x))"
    if "client_ok (fst x) (snd x)" for x
    using that by (induction ops arbitrary: x) (simp_all add: client_do_ok [OF _ assms])
  moreover have "client_ok (client_new h p) \<lparr>os = s, fds = []\<rparr>"
    by (simp add: client_ok_def client_new_def live_def)
  moreover obtain c n where run: "fold (client_do k) ops (client_new h p, \<lparr>os = s, fds = []\<rparr>) = (c, n)"
    by fastforce
  ultimately have ok: "client_ok c n" by (metis fst_conv snd_conv)
  obtain c' n' where "client_shutdown k c n = (c', n')" by fastforce
  with client_shutdown_ok [OF this ok] ok run show ?thesis by (simp add: client_ok_def)
qed

definition lab_client :: "int client_calls" where
  "lab_client =
     \<lparr>cc_socket = (\<lambda>s. (3 + \<bar>s\<bar>, \<bar>s\<bar> + 1)), cc_reuseaddr = (\<lambda>fd s. (0, s)),
      cc_setsockopt = (\<lambda>fd x v s. (0, s)), cc_connect = (\<lambda>fd h p s. (0, s)),
      cc_error = (\<lambda>fd s. (if fd = 3 then 104 else 0, s)), cc_recv = (\<lambda>fd m s. ((0, []), s)),
      cc_send = (\<lambda>fd bs s. (int (length bs), s)), cc_shutdown = (\<lambda>fd s. s), cc_close = (\<lambda>fd s. s),
      cc_dgram = (\<lambda>s. (3 + \<bar>s\<bar>, \<bar>s\<bar> + 1)),
      cc_hwaddr = (\<lambda>fd r s. (r\<lparr>sa_data := [2, 0, 0, 1, 2, 3] @ replicate 8 0\<rparr>, s))\<rparr>"

lemma lab_client_sane: "sane_socket lab_client"
proof -
  have "0 < 3 + \<bar>i\<bar>" for i :: int by arith
  then show ?thesis by (simp add: sane_socket_def lab_client_def)
qed

theorem client_never_leaks_witness:
  "live (fds (snd (fold (client_do lab_client) [Connect, Send [65], Get_mac [108, 111] [0, 0, 0, 0, 0, 0], Connect, Send [66]]
      (client_new ''127.0.0.1'' 1370, \<lparr>os = 0, fds = []\<rparr>)))) = [5]"
proof -
  let ?r = "fold (client_do lab_client) [Connect, Send [65], Get_mac [108, 111] [0, 0, 0, 0, 0, 0], Connect, Send [66]]
      (client_new ''127.0.0.1'' 1370, \<lparr>os = 0, fds = []\<rparr>)"
  have "socket_desc (fst ?r) = 5"
    by (simp add: client_connect_def client_shutdown_def client_send_def client_new_def sys_def
        lab_client_def note_fd_def set_tcp_keepalive_cfg_def set_tcp_keepalive_def Let_def
        getMacAddress_def)
  with client_never_leaks [OF lab_client_sane, of "[Connect, Send [65], Get_mac [108, 111] [0, 0, 0, 0, 0, 0], Connect, Send [66]]"
      "''127.0.0.1''" 1370 0]
  show ?thesis by (cases ?r) simp
qed

end
