(* ===== verification/GearServer.thy ===== *)
theory GearServer
  imports TcpServer TimedWaiter Config
begin

text \<open>
  \<^verbatim>\<open>src/src/input/inputs/GearServer.cpp\<close>: the thread that accepts connections and hands each
  to a pool of client handlers, and \<^verbatim>\<open>src/src/input/InputHandler.cpp\<close>, which owns it.
\<close>

section \<open>The server thread\<close>

text \<open>The timeouts set on an accepted socket.\<close>

record client =
  cl_socket :: int
  cl_rcv_timeout :: "int \<times> int" \<comment> \<open>seconds, microseconds\<close>
  cl_snd_timeout :: "int \<times> int"

record 'n gear_server =
  gs_stop :: bool
  gs_timer :: timed_waiter
  gs_server :: server
  gs_net :: "'n net"
  gs_clients :: "client list" \<comment> \<open>tasks pushed on the client pool, oldest first\<close>

definition gs_new :: "'n net \<Rightarrow> 'n gear_server" where
  "gs_new n = \<lparr>gs_stop = False, gs_timer = tw_new, gs_server = server_new, gs_net = n,
               gs_clients = []\<rparr>"

text \<open>\<open>GearServer::initialize\<close> ignores the result of \<open>setup\<close>; the port is cut to 16 bits.\<close>

definition gs_initialize :: "'n sockets \<Rightarrow> config \<Rightarrow> 'n gear_server \<Rightarrow> 'n gear_server" where
  "gs_initialize k c g =
     (case server_setup k (gear_network_device c) (gear_server_host c)
             (word_of_int (gear_server_port c)) (gear_bind_network_device c)
             (gear_server_backlog c) (gs_server g) (gs_net g) of
        (_, v, n) \<Rightarrow> g\<lparr>gs_server := v, gs_net := n\<rparr>)"

definition gs_request_stop :: "'n gear_server \<Rightarrow> 'n gear_server" where
  "gs_request_stop g = g\<lparr>gs_stop := True, gs_timer := interrupt (gs_timer g)\<rparr>"

definition client_of :: "config \<Rightarrow> int \<Rightarrow> client" where
  "client_of c fd =
     \<lparr>cl_socket = fd,
      cl_rcv_timeout = (gear_server_rcv_timeout_sec c, gear_server_rcv_timeout_usec c),
      cl_snd_timeout = (gear_server_snd_timeout_sec c, gear_server_snd_timeout_usec c)\<rparr>"

text \<open>The loop body after the test of \<open>stop_\<close>. \<open>c0\<close> is the configuration when the thread started.\<close>

definition gs_body :: "'n sockets \<Rightarrow> config \<Rightarrow> config \<Rightarrow> 'n gear_server \<Rightarrow> 'n gear_server" where
  "gs_body k c0 c g =
     (case server_accept k (gs_server g) (gs_net g) of
        (socket, n) \<Rightarrow>
          (let g = g\<lparr>gs_net := n\<rparr> in
           if 0 < socket then g\<lparr>gs_clients := gs_clients g @ [client_of c0 socket]\<rparr>
           else if socket < 0 then gs_initialize k c g
           else g))"

text \<open>
  The loop of \<open>thread_main\<close>. Each turn is given by the stop requests that other threads make
  before and during the wait, and the configuration as it is then. True: the loop has ended.
\<close>

fun gs_loop ::
  "'n sockets \<Rightarrow> config \<Rightarrow> (bool \<times> bool \<times> config) list \<Rightarrow> 'n gear_server \<Rightarrow> bool \<times> 'n gear_server" where
  "gs_loop k c0 [] g = (False, g)"
| "gs_loop k c0 ((before, meanwhile, c) # ts) g =
     (let g = (if before then gs_request_stop g else g) in
      case wait_for (if meanwhile then 1 else 0) (gs_timer g) of
        (go_on, t) \<Rightarrow>
          (let g = g\<lparr>gs_timer := t, gs_stop := gs_stop g \<or> meanwhile\<rparr> in
           if \<not> go_on then (True, g)
           else if gs_stop g then (True, g)
           else gs_loop k c0 ts (gs_body k c0 c g)))"

section \<open>InputHandler\<close>

definition ih_initialize :: "'n sockets \<Rightarrow> config \<Rightarrow> 'n net \<Rightarrow> 'n gear_server option" where
  "ih_initialize k c n =
     (if gear_server_enable c then Some (gs_initialize k c (gs_new n)) else None)"

definition ih_deinitialize :: "'n gear_server option \<Rightarrow> 'n gear_server option" where
  "ih_deinitialize g = map_option gs_request_stop g"

section \<open>The invariant of the loop\<close>

text \<open>
  The server is in order, and the tasks handed to the pool are the accepted connections, in order,
  each with its timeouts.
\<close>

definition gs_ok :: "config \<Rightarrow> 'n gear_server \<Rightarrow> bool" where
  "gs_ok c0 g \<longleftrightarrow> server_ok (gs_server g) (gs_net g)
     \<and> gs_clients g = map (client_of c0) (accepted (fds (gs_net g)))
     \<and> (gs_stop g \<longleftrightarrow> tw_stop (gs_timer g))"

text \<open>\<open>::accept\<close> never gives descriptor 0, or another negative value than -1.\<close>

definition sane_accept :: "'n sockets \<Rightarrow> bool" where
  "sane_accept k \<longleftrightarrow> (\<forall>fd s. fst (sk_accept k fd s) = -1 \<or> 0 < fst (sk_accept k fd s))"

lemma accept_result:
  assumes "server_accept k v n = (r, n')" and "sane_accept k"
  shows "live (fds n') = live (fds n)
    \<and> accepted (fds n') = accepted (fds n) @ (if 0 < r then [r] else [])"
proof -
  obtain fd where pfds: "pfds v = Some fd \<or> pfds v = None" by (cases "pfds v") auto
  obtain count pollin n1 where n1: "sys (sk_poll k fd) n = ((count, pollin), n1)"
    by (metis prod.exhaust)
  obtain e n2 where n2: "sys (sk_error k (serverSocket v)) n1 = (e, n2)" by fastforce
  obtain s n3 where n3: "sys (sk_accept k (serverSocket v)) n2 = (s, n3)" by fastforce
  have "fst (sk_accept k (serverSocket v) (os n2)) = s"
    using n3 by (auto simp: sys_def split: prod.splits)
  then have "s = -1 \<or> 0 < s" using assms(2) unfolding sane_accept_def by metis
  moreover have "fds n1 = fds n" "fds n2 = fds n" "fds n3 = fds n"
    using fds_sys [OF n1] fds_sys [OF n2] fds_sys [OF n3] by simp_all
  ultimately show ?thesis
    using assms(1) pfds n1 n2 n3
    by (auto simp: server_accept_def accepted_append split: if_splits)
qed

lemma accepted_setup:
  "accepted (fds (snd (snd (server_setup k i h p b l v n)))) = accepted (fds n)"
proof -
  have sd: "accepted (fds (snd (server_shutdown k v n))) = accepted (fds n)" for v and n :: "'a net"
    by (simp add: server_shutdown_def accepted_append note_fd_def Let_def)
  have failed: "accepted (fds (snd (snd (setup_failed k v n)))) = accepted (fds n)" for v and n :: "'a net"
    using sd [of v n] by (simp add: setup_failed_def split: prod.split)
  obtain v1 n1 where 1: "server_shutdown k v n = (v1, n1)" by fastforce
  obtain fd n2 where 2: "sys (sk_socket k) n1 = (fd, n2)" by fastforce
  define n3 where "n3 = (if 0 \<le> fd then note_fd (Opened fd) n2 else n2)"
  obtain r4 n4 where 4: "sys (sk_reuseaddr k fd) n3 = (r4, n4)" by fastforce
  obtain r5 n5 where 5: "(if b then sys (sk_bindtodevice k fd i) n4 else (0, n4)) = (r5, n5)"
    by fastforce
  obtain r6 n6 where 6: "sys (sk_bind k fd h p) n5 = (r6, n6)" by fastforce
  obtain r7 n7 where 7: "sys (sk_listen k fd l) n6 = (r7, n7)" by fastforce
  have "accepted (fds n3) = accepted (fds n)"
    using sd [of v n] 1 fds_sys [OF 2] by (simp add: n3_def accepted_append)
  then have "accepted (fds n4) = accepted (fds n)" "accepted (fds n5) = accepted (fds n)"
    "accepted (fds n6) = accepted (fds n)" "accepted (fds n7) = accepted (fds n)"
    using fds_sys [OF 4] 5 fds_sys [OF 6] fds_sys [OF 7] by (auto dest: fds_sys split: if_splits)
  then show ?thesis
    using failed 1 2 4 5 6 7
    by (simp add: server_setup_def Let_def flip: n3_def)
qed

lemma gs_initialize_ok:
  assumes "gs_ok c0 g" and "no_fd_zero k"
  shows "gs_ok c0 (gs_initialize k c g)"
proof -
  let ?r = "server_setup k (gear_network_device c) (gear_server_host c)
    (word_of_int (gear_server_port c)) (gear_bind_network_device c) (gear_server_backlog c)
    (gs_server g) (gs_net g)"
  have "setup_good ?r" using setup_result [OF assms(2)] assms(1) by (simp add: gs_ok_def)
  moreover have "accepted (fds (snd (snd ?r))) = accepted (fds (gs_net g))" by (rule accepted_setup)
  ultimately show ?thesis
    using assms(1) by (auto simp: gs_initialize_def gs_ok_def setup_good_def split: prod.splits)
qed

lemma gs_body_ok:
  assumes "gs_ok c0 g" and "no_fd_zero k" and "sane_accept k"
  shows "gs_ok c0 (gs_body k c0 c g)"
proof -
  obtain s n where acc: "server_accept k (gs_server g) (gs_net g) = (s, n)" by fastforce
  note r = accept_result [OF acc assms(3)]
  show ?thesis
  proof (cases "0 < s")
    case True
    with acc r assms(1) show ?thesis by (simp add: gs_body_def gs_ok_def server_ok_def)
  next
    case False
    with r assms(1) have "gs_ok c0 (g\<lparr>gs_net := n\<rparr>)" by (simp add: gs_ok_def server_ok_def)
    with gs_initialize_ok [OF this assms(2)] acc False show ?thesis
      by (simp add: gs_body_def Let_def)
  qed
qed

lemma gs_loop_ok:
  assumes "gs_ok c0 g" and "no_fd_zero k" and "sane_accept k"
  shows "gs_ok c0 (snd (gs_loop k c0 ts g))"
  using assms(1)
proof (induction ts arbitrary: g)
  case Nil
  then show ?case by simp
next
  case (Cons t ts)
  obtain before meanwhile c where t: "t = (before, meanwhile, c)" by (cases t)
  define g1 where "g1 = (if before then gs_request_stop g else g)"
  obtain b tw where w: "wait_for (if meanwhile then 1 else 0) (gs_timer g1) = (b, tw)" by fastforce
  define g2 where "g2 = g1\<lparr>gs_timer := tw, gs_stop := gs_stop g1 \<or> meanwhile\<rparr>"
  have "gs_ok c0 g1"
    using Cons.prems by (auto simp: g1_def gs_ok_def gs_request_stop_def interrupt_def)
  then have g2: "gs_ok c0 g2"
    using wait_for_stop [of "if meanwhile then 1 else 0" "gs_timer g1"]
    by (auto simp: g2_def gs_ok_def w)
  then have "gs_ok c0 (gs_body k c0 c g2)" by (rule gs_body_ok [OF _ assms(2,3)])
  moreover have "gs_loop k c0 ((before, meanwhile, c) # ts) g =
      (if \<not> b \<or> gs_stop g2 then (True, g2) else gs_loop k c0 ts (gs_body k c0 c g2))"
    unfolding gs_loop.simps g1_def [symmetric] Let_def w prod.case g2_def [symmetric] by simp
  ultimately show ?case using Cons.IH t g2 by simp
qed

text \<open>
  C24: every connection that the system accepts is handed to the client pool exactly once, in
  the order of acceptance and with the configured timeouts, and at every time the server holds at most
  one listening socket: an error reopens it without leaking the old one. This holds after any
  number of turns, whatever the system calls return and whenever \<open>stop\<close> is called.
\<close>

theorem every_connection_served_once:
  assumes "no_fd_zero k" and "sane_accept k"
  shows "case gs_loop k c0 ts (gs_initialize k c0 (gs_new \<lparr>os = s, fds = []\<rparr>)) of (b, g) \<Rightarrow>
    gs_clients g = map (client_of c0) (accepted (fds (gs_net g)))
    \<and> live (fds (gs_net g)) =
        (if 0 < serverSocket (gs_server g) then [serverSocket (gs_server g)] else [])"
proof -
  have "gs_ok c0 (gs_new \<lparr>os = s, fds = []\<rparr>)"
    by (simp add: gs_ok_def gs_new_def server_ok_new tw_new_def)
  from gs_loop_ok [OF gs_initialize_ok [OF this assms(1), of c0] assms, of ts] show ?thesis
    by (simp add: gs_ok_def server_ok_def case_prod_beta)
qed

lemma lab_sockets_sane: "sane_accept lab_sockets"
proof -
  have "0 < 3 + \<bar>i\<bar>" for i :: int by arith
  then show ?thesis by (simp add: sane_accept_def lab_sockets_def)
qed

theorem every_connection_served_once_witness:
  "\<exists>g. gs_loop lab_sockets default_config
         [(False, False, default_config), (False, False, default_config), (False, True, default_config)]
         (gs_initialize lab_sockets default_config
            (gs_new \<lparr>os = \<lparr>next_fd = 0, waiting = 2\<rparr>, fds = []\<rparr>)) = (True, g)
     \<and> map cl_socket (gs_clients g) = [4, 5] \<and> live (fds (gs_net g)) = [3]"
proof -
  let ?r = "gs_loop lab_sockets default_config
         [(False, False, default_config), (False, False, default_config), (False, True, default_config)]
         (gs_initialize lab_sockets default_config
            (gs_new \<lparr>os = \<lparr>next_fd = 0, waiting = 2\<rparr>, fds = []\<rparr>))"
  have "fst ?r \<and> accepted (fds (gs_net (snd ?r))) = [4, 5] \<and> serverSocket (gs_server (snd ?r)) = 3"
    by (simp add: gs_initialize_def gs_new_def server_setup_def setup_failed_def
        server_shutdown_def sys_def note_fd_def lab_sockets_def server_new_def default_config_def
        wait_for_def interrupt_def tw_new_def gs_body_def server_accept_def Let_def)
  with every_connection_served_once [OF lab_sockets_no_zero lab_sockets_sane,
      of default_config "[(False, False, default_config), (False, False, default_config),
         (False, True, default_config)]" "\<lparr>next_fd = 0, waiting = 2\<rparr>"]
  show ?thesis by (cases ?r) (simp add: client_of_def)
qed

end
