(* ===== verification/Daemon.thy ===== *)
theory Daemon
  imports OutputHandler GearServer
begin

text \<open>
  The process around the components: \<open>daemonize\<close> and the signal handler
  (\<^verbatim>\<open>src/src/utils/daemonize/daemonize.cpp\<close>) and \<open>main\<close> (\<^verbatim>\<open>src/src/main.cpp\<close>).

  \<^verbatim>\<open>daemonize.h\<close> declares \<open>pid_fd\<close>, \<open>m_timer\<close> and \<open>conf_file_name\<close> \<open>static\<close>, so each of the two
  source files that include it has objects of its own: \<open>main_unit\<close> are those of \<^verbatim>\<open>main.cpp\<close>,
  \<open>daemon_unit\<close> those of \<^verbatim>\<open>daemonize.cpp\<close>.
\<close>

section \<open>The process\<close>

record statics =
  us_pid_fd :: int
  us_timer :: timed_waiter
  us_conf_file :: string

definition statics_new :: statics where
  "statics_new = \<lparr>us_pid_fd = -1, us_timer = tw_new, us_conf_file = []\<rparr>"

text \<open>
  A descriptor table is a list: position \<open>i\<close> is descriptor \<open>i\<close>, \<open>None\<close> when it is closed.
\<close>

record process =
  globs :: globals
  app_running :: int
  main_unit :: statics
  daemon_unit :: statics
  descriptors :: "string option list"
  umask_bits :: nat
  cwd :: string
  pid_files :: "string list" \<comment> \<open>lock files that exist\<close>
  int_handler :: bool \<comment> \<open>SIGINT is handled by \<open>handle_signal\<close>, not in the default way\<close>
  hup_handler :: bool \<comment> \<open>the same for SIGHUP\<close>

section \<open>Descriptors\<close>

text \<open>\<open>open\<close> and \<open>fopen\<close> take the lowest free descriptor.\<close>

fun open_file :: "string \<Rightarrow> string option list \<Rightarrow> nat \<times> string option list" where
  "open_file f [] = (0, [Some f])"
| "open_file f (None # ds) = (0, Some f # ds)"
| "open_file f (Some g # ds) = (case open_file f ds of (i, ds) \<Rightarrow> (Suc i, Some g # ds))"

text \<open>\<open>for (fd = sysconf(_SC_OPEN_MAX); fd > 0; fd--) close(fd)\<close>\<close>

fun close_down :: "nat \<Rightarrow> string option list \<Rightarrow> string option list" where
  "close_down 0 ds = ds"
| "close_down (Suc fd) ds = close_down fd (ds[Suc fd := None])"

section \<open>daemonize\<close>

text \<open>What the system calls of \<open>daemonize\<close> return.\<close>

record daemon_calls =
  dc_fork1 :: int
  dc_setsid :: int
  dc_fork2 :: int
  dc_chdir :: int
  dc_open_max :: nat
  dc_open_ok :: bool
  dc_lockf :: int

datatype outcome = ExitFailure | ExitSuccess | Runs process

definition dev_null :: string where
  "dev_null = ''/dev/null''"

definition daemonize :: "daemon_calls \<Rightarrow> process \<Rightarrow> outcome" where
  "daemonize k p =
     (if dc_fork1 k < 0 then ExitFailure
      else if 0 < dc_fork1 k then ExitSuccess
      else if dc_setsid k < 0 then ExitFailure
      else if dc_fork2 k < 0 then ExitFailure
      else if 0 < dc_fork2 k then ExitSuccess
      else
        (let p = p\<lparr>umask_bits := 0\<rparr> in
         if dc_chdir k \<noteq> 0 then ExitFailure
         else
           (let p = p\<lparr>cwd := ''/''\<rparr>;
                ds = close_down (dc_open_max k) (descriptors p);
                (stdin_fd, ds) = open_file dev_null ds;
                (stdout_fd, ds) = open_file dev_null ds;
                (stderr_fd, ds) = open_file dev_null ds
            in if \<not> dc_open_ok k then ExitFailure
               else
                 (case open_file (PID_FILE (globs p)) ds of
                    (fd, ds) \<Rightarrow>
                      (let p = p\<lparr>descriptors := ds,
                                 daemon_unit := (daemon_unit p)\<lparr>us_pid_fd := int fd\<rparr>,
                                 pid_files := PID_FILE (globs p) # pid_files p\<rparr>
                       in if dc_lockf k < 0 then ExitFailure
                          else Runs (p\<lparr>app_running := 1\<rparr>))))))"

section \<open>The signal handler\<close>

datatype sig = SIGINT | SIGHUP | SIGCHLD

definition close_fd :: "int \<Rightarrow> string option list \<Rightarrow> string option list" where
  "close_fd fd ds = ds[nat fd := None]"

text \<open>\<open>fs\<close> is the file system, as far as it can be read. The log lines are not kept.\<close>

definition handle_signal :: "(string \<Rightarrow> string option) \<Rightarrow> sig \<Rightarrow> process \<Rightarrow> process" where
  "handle_signal fs s p =
     (case s of
        SIGINT \<Rightarrow>
          (let p = (if us_pid_fd (daemon_unit p) \<noteq> -1
                    then p\<lparr>descriptors := close_fd (us_pid_fd (daemon_unit p)) (descriptors p)\<rparr>
                    else p);
               p = p\<lparr>pid_files := removeAll (PID_FILE (globs p)) (pid_files p)\<rparr>;
               p = p\<lparr>app_running := 0\<rparr>;
               p = p\<lparr>daemon_unit := (daemon_unit p)\<lparr>us_timer := interrupt (us_timer (daemon_unit p))\<rparr>\<rparr>
           in p\<lparr>int_handler := False\<rparr>)
      | SIGHUP \<Rightarrow> p\<lparr>globs := snd (load_config (fs (us_conf_file (daemon_unit p))) (globs p))\<rparr>
      | SIGCHLD \<Rightarrow> p)"

text \<open>
  How a signal reaches the process: through \<open>handle_signal\<close> where \<open>main\<close> has installed it, else in the
  default way, which ends the process (\<open>None\<close>) on SIGINT and SIGHUP and does nothing on SIGCHLD.
\<close>

definition deliver_signal :: "(string \<Rightarrow> string option) \<Rightarrow> sig \<Rightarrow> process \<Rightarrow> process option" where
  "deliver_signal fs s p =
     (case s of
        SIGINT \<Rightarrow> if int_handler p then Some (handle_signal fs SIGINT p) else None
      | SIGHUP \<Rightarrow> if hup_handler p then Some (handle_signal fs SIGHUP p) else None
      | SIGCHLD \<Rightarrow> Some p)"

fun deliver_signals :: "(string \<Rightarrow> string option) \<Rightarrow> sig list \<Rightarrow> process \<Rightarrow> process option" where
  "deliver_signals fs [] p = Some p"
| "deliver_signals fs (s # ss) p =
     (case deliver_signal fs s p of None \<Rightarrow> None | Some p \<Rightarrow> deliver_signals fs ss p)"

section \<open>main\<close>

datatype option_arg = OptC string | OptD | OptOther

text \<open>The \<open>getopt\<close> loop; \<open>None\<close>: the program exits with a failure.\<close>

fun parse_options ::
  "(string \<Rightarrow> string option) \<Rightarrow> option_arg list \<Rightarrow> bool \<Rightarrow> process \<Rightarrow> process option" where
  "parse_options fs [] config_loaded p = Some p"
| "parse_options fs (OptC f # args) config_loaded p =
     (let p = p\<lparr>main_unit := (main_unit p)\<lparr>us_conf_file := f\<rparr>\<rparr>;
          (r, g) = load_config (fs (us_conf_file (main_unit p))) (globs p)
      in parse_options fs args (r \<noteq> 0) (p\<lparr>globs := g\<rparr>))"
| "parse_options fs (OptD # args) config_loaded p =
     (if config_loaded
      then parse_options fs args config_loaded
             (p\<lparr>globs := (globs p)\<lparr>conf := (conf (globs p))\<lparr>rundaemonized := True\<rparr>\<rparr>\<rparr>)
      else None)"
| "parse_options fs (OptOther # args) config_loaded p = parse_options fs args config_loaded p"

text \<open>\<open>main\<close> up to the creation of the components.\<close>

definition main_start ::
  "(string \<Rightarrow> string option) \<Rightarrow> daemon_calls \<Rightarrow> option_arg list \<Rightarrow> process \<Rightarrow> outcome" where
  "main_start fs k args p =
     (case parse_options fs args False p of
        None \<Rightarrow> ExitFailure
      | Some p \<Rightarrow>
          if rundaemonized (conf (globs p)) then
            (case daemonize k p of
               Runs p \<Rightarrow> Runs (p\<lparr>int_handler := True, hup_handler := True\<rparr>)
             | x \<Rightarrow> x)
          else Runs (p\<lparr>app_running := 1\<rparr>))"

text \<open>
  The waiting loop: each turn waits ten seconds on the timer of \<^verbatim>\<open>main.cpp\<close>, during which the
  given signals arrive. True: the loop has ended; \<open>None\<close>: a signal has ended the process.
\<close>

fun main_wait ::
  "(string \<Rightarrow> string option) \<Rightarrow> sig list list \<Rightarrow> process \<Rightarrow> (bool \<times> process) option" where
  "main_wait fs [] p = Some (False, p)"
| "main_wait fs (ss # turns) p =
     (case deliver_signals fs ss p of
        None \<Rightarrow> None
      | Some p \<Rightarrow>
          (case wait_for 0 (us_timer (main_unit p)) of
             (go_on, t) \<Rightarrow>
               (let p = p\<lparr>main_unit := (main_unit p)\<lparr>us_timer := t\<rparr>\<rparr> in
                if \<not> go_on then Some (True, p)
                else if app_running p = 0 then Some (True, p)
                else main_wait fs turns p)))"

text \<open>
  What ends the loop from inside the program: \<open>shutdownApp\<close> interrupts the timer \<open>main\<close> waits on. Nothing
  calls it.
\<close>

definition shutdownApp :: "process \<Rightarrow> process" where
  "shutdownApp p =
     (let p = p\<lparr>app_running := 0\<rparr>
      in p\<lparr>main_unit := (main_unit p)\<lparr>us_timer := interrupt (us_timer (main_unit p))\<rparr>\<rparr>)"

text \<open>The last loop of \<open>main\<close> writes what is left in the queue to the system log.\<close>

function drain :: "queue_entry locked_queue \<Rightarrow> byte list list \<Rightarrow>
   ub + (queue_entry locked_queue \<times> byte list list)" where
  "drain q lines =
     (if lq_empty q then Inr (q, lines)
      else (case lq_pop q of
              Inl e \<Rightarrow> Inl e
            | Inr (msg, q') \<Rightarrow> drain q' (lines @ [c_str (query msg)])))"
  by pat_completeness auto
termination
  by (relation "measure (\<lambda>(q, lines). length (queue q))")
    (auto simp: lq_pop_def split: list.splits)

declare drain.simps [simp del]

section \<open>Reloading the configuration\<close>

lemma parse_options_daemon_unit:
  "parse_options fs args b p = Some p' \<Longrightarrow> daemon_unit p' = daemon_unit p"
  by (induction fs args b p rule: parse_options.induct)
    (auto simp: Let_def split: prod.splits if_splits)

lemma daemonize_Runs:
  assumes "daemonize k p = Runs p'"
  shows "us_conf_file (daemon_unit p') = us_conf_file (daemon_unit p) \<and> app_running p' = 1
    \<and> main_unit p' = main_unit p \<and> globs p' = globs p"
  using assms by (auto simp: daemonize_def Let_def split: if_splits prod.splits)

lemma main_start_daemon_unit:
  assumes "main_start fs k args p = Runs p'"
  shows "us_conf_file (daemon_unit p') = us_conf_file (daemon_unit p)
    \<and> (rundaemonized (conf (globs p')) \<longrightarrow> int_handler p' \<and> hup_handler p')"
  using assms
  by (auto simp: main_start_def dest!: parse_options_daemon_unit daemonize_Runs
      split: option.splits if_splits outcome.splits)

text \<open>
  C25: SIGHUP does not reload the configuration file given with \<open>-c\<close>. The handler reads the name
  from the copy of \<open>conf_file_name\<close> that belongs to \<^verbatim>\<open>daemonize.cpp\<close>, which is empty: so
  however the daemon was started, the signal empties the list of database servers, changes nothing else,
  and from then on \<open>connect\<close> finds no viable server. (No file has the empty name.)
\<close>

theorem reload_loses_servers:
  assumes "main_start fs k args p0 = Runs p" and "us_conf_file (daemon_unit p0) = []"
    and "rundaemonized (conf (globs p))" and "fs [] = None"
  shows "\<exists>p'. deliver_signal fs SIGHUP p = Some p'
    \<and> p' = p\<lparr>globs := (globs p)\<lparr>conf := (conf (globs p))\<lparr>mysql_server := []\<rparr>\<rparr>\<rparr>
    \<and> fst (setViableConnectionConfigIndex z (conf (globs p')) h w) = False"
proof -
  have "us_conf_file (daemon_unit p) = []" "hup_handler p"
    using assms(1-3) main_start_daemon_unit by metis+
  then show ?thesis
    using assms(4)
    by (simp add: deliver_signal_def handle_signal_def load_missing_file
        setViableConnectionConfigIndex_def split: prod.split)
qed

definition sample_calls :: daemon_calls where
  "sample_calls = \<lparr>dc_fork1 = 0, dc_setsid = 1, dc_fork2 = 0, dc_chdir = 0, dc_open_max = 1024,
                   dc_open_ok = True, dc_lockf = 0\<rparr>"

definition sample_process :: process where
  "sample_process = \<lparr>globs = sample_globals, app_running = 0, main_unit = statics_new,
     daemon_unit = statics_new, descriptors = [Some ''tty'', Some ''tty'', Some ''tty''],
     umask_bits = 18, cwd = ''/home'', pid_files = [], int_handler = False, hup_handler = False\<rparr>"

definition sample_fs :: "string \<Rightarrow> string option" where
  "sample_fs f = (if f = ''gear.conf'' then Some (write_config sample_settings) else None)"

definition sample_running :: process where
  "sample_running =
     (case main_start sample_fs sample_calls [OptC ''gear.conf'', OptD] sample_process of
        Runs p \<Rightarrow> p | _ \<Rightarrow> sample_process)"

lemma sample_start:
  "main_start sample_fs sample_calls [OptC ''gear.conf'', OptD] sample_process = Runs sample_running
   \<and> globs sample_running = (let g = fold apply_setting sample_settings
         (sample_globals\<lparr>conf := (conf sample_globals)\<lparr>mysql_server := []\<rparr>\<rparr>)
       in g\<lparr>conf := (conf g)\<lparr>rundaemonized := True\<rparr>\<rparr>)
   \<and> app_running sample_running = 1 \<and> us_timer (main_unit sample_running) = tw_new
   \<and> int_handler sample_running \<and> hup_handler sample_running"
proof -
  let ?g = "fold apply_setting sample_settings
    (sample_globals\<lparr>conf := (conf sample_globals)\<lparr>mysql_server := []\<rparr>\<rparr>)"
  let ?p = "sample_process\<lparr>main_unit := statics_new\<lparr>us_conf_file := ''gear.conf''\<rparr>,
    globs := ?g\<lparr>conf := (conf ?g)\<lparr>rundaemonized := True\<rparr>\<rparr>\<rparr>"
  have "load_config (Some (write_config sample_settings)) sample_globals = (1, ?g)"
    by (simp add: load_config_def lines_of_config sample_settings_valid fold_written)
  then have parse: "parse_options sample_fs [OptC ''gear.conf'', OptD] False sample_process = Some ?p"
    by (simp add: sample_fs_def sample_process_def)
  obtain p' where run: "daemonize sample_calls ?p = Runs p'"
    by (cases "daemonize sample_calls ?p")
      (auto simp: daemonize_def sample_calls_def Let_def split: if_splits prod.splits)
  then have "main_start sample_fs sample_calls [OptC ''gear.conf'', OptD] sample_process
      = Runs (p'\<lparr>int_handler := True, hup_handler := True\<rparr>)"
    by (simp add: main_start_def parse del: parse_options.simps)
  with daemonize_Runs [OF run] show ?thesis
    by (simp add: sample_running_def statics_new_def Let_def)
qed

theorem reload_loses_servers_witness:
  "\<exists>p'. deliver_signal sample_fs SIGHUP sample_running = Some p'
     \<and> map connection_string (mysql_server (conf (globs sample_running))) = [''mysql://u:p@h/db'']
     \<and> mysql_server (conf (globs p')) = []"
proof -
  have "us_conf_file (daemon_unit sample_process) = []" "sample_fs [] = None"
    "rundaemonized (conf (globs sample_running))"
    by (simp_all add: sample_process_def statics_new_def sample_fs_def sample_start Let_def)
  note lost = reload_loses_servers [OF conjunct1 [OF sample_start] this(1,3,2)]
  have "map connection_string (mysql_server (conf (globs sample_running))) = [''mysql://u:p@h/db'']"
    by (simp add: sample_start Let_def) (simp add: sample_settings_def)
  moreover obtain p' where "deliver_signal sample_fs SIGHUP sample_running = Some p'"
      "p' = sample_running\<lparr>globs := (globs sample_running)\<lparr>conf :=
              (conf (globs sample_running))\<lparr>mysql_server := []\<rparr>\<rparr>\<rparr>"
    using lost [of "lab_outside (\<lambda>_. None)" "lh_new None" "lab_world 0 [] []"] by blast
  ultimately show ?thesis by (intro exI [of _ p']) simp
qed

section \<open>The daemon's descriptors\<close>

lemma close_down_all:
  "length ds \<le> n \<Longrightarrow> close_down n (d # ds) = d # replicate (length ds) None"
proof -
  have "close_down n (d # ds) = d # map (\<lambda>i. if i < n then None else ds ! i) [0..<length ds]" for d
  proof (induction n arbitrary: ds)
    case 0
    show ?case by (simp add: map_nth)
  next
    case (Suc n)
    have "map (\<lambda>i. if i < n then None else ds[n := None] ! i) [0..<length ds] =
        map (\<lambda>i. if i < Suc n then None else ds ! i) [0..<length ds]"
      by (auto simp: nth_list_update)
    with Suc [of "ds[n := None]"] show ?case by simp
  qed
  moreover assume "length ds \<le> n"
  then have "map (\<lambda>i. if i < n then None else ds ! i) [0..<length ds] = replicate (length ds) None"
    by (intro nth_equalityI) simp_all
  ultimately show ?thesis by simp
qed

lemma open_file_free:
  "open_file f (map Some fs @ replicate n None) = (length fs, map Some (fs @ [f]) @ replicate (n - 1) None)"
  by (induction fs) (cases n; simp)+

text \<open>
  The daemon keeps the descriptor 0 it inherited. The loop that closes \<^emph>\<open>all open file
  descriptors\<close> stops before 0, so the three \<open>/dev/null\<close> streams that are to be stdin, stdout
  and stderr on 0, 1 and 2 get the descriptors 1, 2 and 3, and the lock file gets 4.
\<close>

theorem daemon_keeps_stdin:
  assumes "daemonize k p = Runs p'" and "descriptors p = Some f # ds" and "length ds \<le> dc_open_max k"
  shows "descriptors p' = map Some [f, dev_null, dev_null, dev_null, PID_FILE (globs p)]
           @ replicate (length ds - 4) None
    \<and> us_pid_fd (daemon_unit p') = 4"
proof -
  have start: "close_down (dc_open_max k) (descriptors p) = map Some [f] @ replicate (length ds) None"
    using close_down_all [OF assms(3)] assms(2) by simp
  note open1 = open_file_free [of dev_null "[f]" "length ds"]
  note open2 = open_file_free [of dev_null "[f, dev_null]" "length ds - 1"]
  note open3 = open_file_free [of dev_null "[f, dev_null, dev_null]" "length ds - 1 - 1"]
  note open4 = open_file_free [of "PID_FILE (globs p)" "[f, dev_null, dev_null, dev_null]"
      "length ds - 1 - 1 - 1"]
  show ?thesis
    using assms(1) start open1 open2 open3 open4
    by (auto simp: daemonize_def Let_def split: if_splits)
qed

theorem daemon_keeps_stdin_witness:
  "\<exists>p'. daemonize sample_calls sample_process = Runs p' \<and>
     descriptors p' = map Some [''tty'', dev_null, dev_null, dev_null, []] \<and>
     us_pid_fd (daemon_unit p') = 4"
proof -
  obtain p' where p': "daemonize sample_calls sample_process = Runs p'"
    by (cases "daemonize sample_calls sample_process")
      (auto simp: daemonize_def sample_calls_def Let_def split: if_splits prod.splits)
  have "descriptors sample_process = Some ''tty'' # [Some ''tty'', Some ''tty'']"
    "length [Some ''tty'', Some ''tty''] \<le> dc_open_max sample_calls"
    by (simp_all add: sample_process_def sample_calls_def)
  from daemon_keeps_stdin [OF p' this] p' show ?thesis
    by (simp add: sample_process_def sample_globals_def)
qed

section \<open>Stopping\<close>

text \<open>
  What the signals of one wait do to a process with the SIGHUP handler: a SIGINT beyond the one
  the handler is installed for ends it.
\<close>

lemma deliver_signals_result:
  assumes "hup_handler p"
  shows "if (if int_handler p then 1 else 0) < count_list ss SIGINT then deliver_signals fs ss p = None
    else \<exists>p'. deliver_signals fs ss p = Some p' \<and> main_unit p' = main_unit p \<and> hup_handler p'
      \<and> (if SIGINT \<in> set ss then app_running p' = 0
          else app_running p' = app_running p \<and> int_handler p' = int_handler p)"
  using assms
proof (induction ss arbitrary: p)
  case (Cons s ss)
  let ?p = "if s = SIGCHLD then p else handle_signal fs s p"
  have kept: "main_unit ?p = main_unit p" "hup_handler ?p"
    "app_running ?p = (if s = SIGINT then 0 else app_running p)"
    "int_handler ?p = (s \<noteq> SIGINT \<and> int_handler p)"
    using Cons.prems by (cases s; simp add: handle_signal_def Let_def)+
  show ?case
  proof (cases "s = SIGINT \<and> \<not> int_handler p")
    case True
    then show ?thesis by (simp add: deliver_signal_def)
  next
    case False
    then have "deliver_signal fs s p = Some ?p"
      using Cons.prems by (cases s) (simp_all add: deliver_signal_def)
    with Cons.IH [OF kept(2)] kept False show ?thesis by (auto split: if_splits)
  qed
qed simp

lemma shutdownApp_ends_loop:
  assumes "hup_handler p" and "SIGINT \<notin> set ss"
  shows "\<exists>p'. main_wait fs (ss # turns) (shutdownApp p) = Some (True, p')"
  using deliver_signals_result [of "shutdownApp p" ss fs] assms
  by (auto simp: shutdownApp_def wait_for_def interrupt_def count_list_0_iff Let_def split: if_splits)

lemma main_wait_quiet:
  assumes "app_running p \<noteq> 0" and "\<not> tw_stop (us_timer (main_unit p))"
    and "int_handler p" and "hup_handler p"
    and "\<forall>ss\<in>set turns. SIGINT \<notin> set ss"
  shows "\<exists>p'. app_running p' \<noteq> 0 \<and> \<not> tw_stop (us_timer (main_unit p')) \<and> int_handler p'
    \<and> hup_handler p' \<and> (\<forall>rest. main_wait fs (turns @ rest) p = main_wait fs rest p')"
  using assms
proof (induction turns arbitrary: p)
  case (Cons ss turns)
  then obtain p' where p': "deliver_signals fs ss p = Some p'" "main_unit p' = main_unit p"
    "hup_handler p'" "app_running p' = app_running p" "int_handler p'"
    using deliver_signals_result [OF Cons.prems(4), of ss fs] by (auto simp: count_list_0_iff)
  let ?p = "p'\<lparr>main_unit := (main_unit p')\<lparr>us_timer := us_timer (main_unit p')\<rparr>\<rparr>"
  have "main_wait fs ((ss # turns) @ rest) p = main_wait fs (turns @ rest) ?p" for rest
    using p' Cons.prems by (simp add: wait_for_def)
  moreover obtain p'' where "app_running p'' \<noteq> 0 \<and> \<not> tw_stop (us_timer (main_unit p''))
      \<and> int_handler p'' \<and> hup_handler p''
      \<and> (\<forall>rest. main_wait fs (turns @ rest) ?p = main_wait fs rest p'')"
    using Cons.IH [of ?p] Cons.prems p' by auto
  ultimately show ?case by metis
qed auto

lemma main_wait_sigint:
  assumes "app_running p \<noteq> 0" and "\<not> tw_stop (us_timer (main_unit p))"
    and "int_handler p" and "hup_handler p"
  shows "case dropWhile (\<lambda>ss. SIGINT \<notin> set ss) turns of
      [] \<Rightarrow> \<exists>p'. main_wait fs turns p = Some (False, p')
    | ss # later \<Rightarrow>
        if 1 < count_list ss SIGINT then main_wait fs turns p = None
        else \<exists>p'. main_wait fs turns p = Some (True, p') \<and> app_running p' = 0
               \<and> \<not> tw_stop (us_timer (main_unit p'))"
proof -
  let ?quiet = "takeWhile (\<lambda>ss. SIGINT \<notin> set ss) turns"
  have "\<forall>ss\<in>set ?quiet. SIGINT \<notin> set ss" by (auto dest: set_takeWhileD)
  from main_wait_quiet [OF assms this] obtain q where q: "app_running q \<noteq> 0"
    "\<not> tw_stop (us_timer (main_unit q))" "int_handler q" "hup_handler q"
    and run: "\<forall>rest. main_wait fs (?quiet @ rest) p = main_wait fs rest q" by blast
  have go: "main_wait fs turns p = main_wait fs (dropWhile (\<lambda>ss. SIGINT \<notin> set ss) turns) q"
    using run [rule_format, of "dropWhile (\<lambda>ss. SIGINT \<notin> set ss) turns"] by simp
  show ?thesis
  proof (cases "dropWhile (\<lambda>ss. SIGINT \<notin> set ss) turns")
    case (Cons ss later)
    then have "SIGINT \<in> set ss" by (metis hd_dropWhile list.distinct(1) list.sel(1))
    then show ?thesis
      using go Cons deliver_signals_result [OF q(4), of ss fs] q
      by (auto simp: wait_for_def split: if_splits)
  next
    case Nil
    then show ?thesis unfolding go Nil by simp
  qed
qed

text \<open>
  C38: \<open>main\<close> leaves its waiting loop in the turn in which the first SIGINT arrives, and never
  without one; but only when that turn's wait of ten seconds is over: the signal handler interrupts a
  timer of its own (the \<open>m_timer\<close> of \<^verbatim>\<open>daemonize.cpp\<close>), and the timer \<open>main\<close> waits on is never
  interrupted. As the handler also gives SIGINT back to the system, a second one during that wait
  ends the process at once, without the shutdown.
\<close>

theorem sigint_ends_main_loop:
  assumes "app_running p \<noteq> 0" and "\<not> tw_stop (us_timer (main_unit p))"
    and "int_handler p" and "hup_handler p"
  shows "case dropWhile (\<lambda>ss. SIGINT \<notin> set ss) turns of
      [] \<Rightarrow> \<exists>p'. main_wait fs turns p = Some (False, p')
    | ss # later \<Rightarrow>
        if 1 < count_list ss SIGINT then main_wait fs turns p = None
        else \<exists>p'. main_wait fs turns p = Some (True, p') \<and> app_running p' = 0
               \<and> \<not> tw_stop (us_timer (main_unit p'))"
  by (rule main_wait_sigint [OF assms])

theorem sigint_ends_main_loop_witness:
  "(\<exists>p'. main_wait sample_fs [[], [SIGHUP], [SIGCHLD, SIGINT]] sample_running = Some (True, p'))
     \<and> main_wait sample_fs [[], [SIGINT, SIGINT]] sample_running = None"
proof -
  have start: "app_running sample_running \<noteq> 0" "\<not> tw_stop (us_timer (main_unit sample_running))"
    "int_handler sample_running" "hup_handler sample_running"
    by (simp_all add: sample_start tw_new_def)
  show ?thesis
    using sigint_ends_main_loop [OF start, where fs = sample_fs and turns = "[[], [SIGHUP], [SIGCHLD, SIGINT]]"]
      sigint_ends_main_loop [OF start, where fs = sample_fs and turns = "[[], [SIGINT, SIGINT]]"]
    by (auto simp del: main_wait.simps)
qed

lemma parse_options_keeps:
  "parse_options fs args b p = Some p' \<Longrightarrow> int_handler p' = int_handler p
     \<and> hup_handler p' = hup_handler p \<and> us_timer (main_unit p') = us_timer (main_unit p)"
  by (induction fs args b p rule: parse_options.induct)
    (auto simp: Let_def split: prod.splits if_splits)

text \<open>
  A program in the foreground has no handler, and nothing else ends its waiting loop: it runs until a
  signal ends it in the default way, so its shutdown is never reached.
\<close>

lemma foreground_never_stops:
  assumes "main_start fs k args p0 = Runs p" and "\<not> rundaemonized (conf (globs p))"
    and "\<not> int_handler p0" and "\<not> hup_handler p0" and "\<not> tw_stop (us_timer (main_unit p0))"
  shows "main_wait fs turns p = (if \<exists>ss\<in>set turns. \<not> set ss \<subseteq> {SIGCHLD} then None else Some (False, p))"
proof -
  have p: "\<not> int_handler p" "\<not> hup_handler p" "\<not> tw_stop (us_timer (main_unit p))" "app_running p = 1"
    using assms
    by (auto simp: main_start_def dest!: parse_options_keeps daemonize_Runs
        split: option.splits if_splits outcome.splits)
  have "deliver_signals fs ss p = (if set ss \<subseteq> {SIGCHLD} then Some p else None)" for ss
  proof (induction ss)
    case (Cons s ss)
    then show ?case using p by (cases s) (simp_all add: deliver_signal_def)
  qed simp
  then show ?thesis
    using p by (induction turns) (auto simp: wait_for_def)
qed

lemma drain_result:
  "drain q lines = Inr (\<lparr>queue = []\<rparr>, lines @ map (c_str \<circ> query) (queue q))"
proof (induction q lines rule: drain.induct)
  case (1 q lines)
  show ?case
  proof (cases "queue q")
    case Nil
    then have "drain q lines = Inr (q, lines)" by (simp add: drain.simps [of q lines] lq.empty_iff)
    moreover have "q = \<lparr>queue = []\<rparr>" using Nil by (intro locked_queue.equality) simp_all
    ultimately show ?thesis by simp
  next
    case (Cons m ms)
    then have "\<not> lq_empty q" "lq_pop q = Inr (m, q\<lparr>queue := ms\<rparr>)"
      by (simp_all add: lq.empty_iff lq_pop_def)
    with 1 Cons show ?thesis by (simp add: drain.simps [of q lines])
  qed
qed

text \<open>
  What is left in the queue when the threads have ended is written to the system log, every
  query once and in order; the loop ends with an empty queue and never pops an empty one.
\<close>

lemma drain_logs_everything:
  "drain q [] = Inr (\<lparr>queue = []\<rparr>, map (c_str \<circ> query) (queue q))"
  by (simp add: drain_result)

end
