(* ===== verification/PoolControl.thy ===== *)
theory PoolControl
  imports ThreadPool StatusReply
begin

text \<open>
  The operations of the thread pool that act on its threads: the destructor and \<open>reset\<close>, which
  wait for the tasks, stop the threads and join them (\<^verbatim>\<open>thread_pool.hpp\<close>), each a program that
  runs beside the workers; then \<open>submit\<close> with its promise, and the synchronised stream with its one
  user, \<open>GearServer::monitor_tasks\<close>.
\<close>

section \<open>wait\_for\_tasks\<close>

text \<open>
  Where the waiting thread is: each read of a shared variable is a step. The two reads of
  \<open>get_tasks_running\<close> come in either order.
\<close>

datatype wait = At_paused | At_total | At_running | Counter_read u64 | Queue_read u64 | Wait_over

inductive wait_step :: "wait \<Rightarrow> 'a thread_pool \<Rightarrow> wait \<Rightarrow> bool" where
  Not_paused: "\<not> paused p \<Longrightarrow> wait_step At_paused p At_total"
| Is_paused: "paused p \<Longrightarrow> wait_step At_paused p At_running"
| Total: "wait_step At_total p (if tasks_total p = 0 then Wait_over else At_paused)"
| Counter_first: "wait_step At_running p (Counter_read (tasks_total p))"
| Queue_first: "wait_step At_running p (Queue_read (get_tasks_queued p))"
| Queue_second:
    "wait_step (Counter_read k) p (if k - get_tasks_queued p = 0 then Wait_over else At_paused)"
| Counter_second:
    "wait_step (Queue_read k) p (if tasks_total p - k = 0 then Wait_over else At_paused)"

inductive_cases wait_overE: "wait_step w p Wait_over"
inductive_simps wait_step_over: "wait_step Wait_over p w"

section \<open>Creating and joining threads\<close>

text \<open>
  \<open>create_threads\<close> starts the workers one by one; \<open>destroy_threads\<close> can go on from thread \<open>i\<close> when
  that one has ended.
\<close>

definition create_thread :: "'a thread_pool \<Rightarrow> 'a thread_pool" where
  "create_thread p = p\<lparr>workers := workers p @ [AtTest]\<rparr>"

definition can_join :: "nat \<Rightarrow> 'a thread_pool \<Rightarrow> bool" where
  "can_join i p \<longleftrightarrow> i < length (workers p) \<and> workers p ! i = Exited"

section \<open>The destructor\<close>

datatype destroy = D_wait wait | D_running | D_join nat | D_done

text \<open>
  \<open>~thread_pool\<close>: wait, clear \<open>running\<close>, join the threads one by one. The other steps are the
  workers', except those in \<open>hung\<close>: threads whose task never returns. Nobody pushes on an
  object that is being destroyed.
\<close>

inductive destroy_step ::
  "nat set \<Rightarrow> destroy \<times> 'a thread_pool \<Rightarrow> destroy \<times> 'a thread_pool \<Rightarrow> bool" for hung where
  D_Wait: "wait_step w p w' \<Longrightarrow> destroy_step hung (D_wait w, p) (D_wait w', p)"
| D_Waited: "destroy_step hung (D_wait Wait_over, p) (D_running, p)"
| D_Stop: "destroy_step hung (D_running, p) (D_join 0, p\<lparr>running := False\<rparr>)"
| D_Join: "can_join i p \<Longrightarrow> destroy_step hung (D_join i, p) (D_join (Suc i), p)"
| D_Joined: "i = length (workers p) \<Longrightarrow> destroy_step hung (D_join i, p) (D_done, p)"
| D_Worker: "i < length (workers p) \<Longrightarrow> i \<notin> hung \<Longrightarrow>
     destroy_step hung (d, p) (d, worker_step i p)"

inductive_cases destroy_stepE: "destroy_step hung (d, p) x"

text \<open>Facts about one step of a worker that the invariants need.\<close>

lemma worker_step_simps [simp]:
  "paused (worker_step i p) = paused p" "running (worker_step i p) = running p"
  "pushing (worker_step i p) = pushing p" "submitted (worker_step i p) = submitted p"
  by (auto simp: pool_op split: worker.split list.split)

lemma worker_step_other: "j \<noteq> i \<Longrightarrow> workers (worker_step i p) ! j = workers p ! j"
  by (auto simp: pool_op split: worker.split list.split)

lemma worker_step_exited: "workers p ! i = Exited \<Longrightarrow> worker_step i p = p"
  by (simp add: worker_step_def)

lemma worker_keeps_exited:
  "workers p ! j = Exited \<Longrightarrow> workers (worker_step i p) ! j = Exited"
  by (cases "j = i") (simp_all add: worker_step_exited worker_step_other)

lemma in_pool_worker_step:
  assumes "i < length (workers p)"
  shows "in_pool (worker_step i p) \<subseteq># in_pool p"
proof (cases "workers p ! i")
  case AtPop
  then show ?thesis
    using in_pool_set_same [OF assms, of AtTest] in_pool_pop [OF assms AtPop]
    by (cases "tasks p") (simp_all add: worker_step_def pop_task_def)
next
  case (AtDecrement t)
  then show ?thesis
    using in_pool_done [OF assms AtDecrement] by (simp add: worker_step_def in_pool_done_update)
qed (simp_all add: worker_step_def in_pool_set_same [OF assms])

lemma in_pool_exited:
  "list_all (\<lambda>w. w = Exited) (workers p) \<Longrightarrow> in_pool p = mset (pushing p) + mset (tasks p)"
  by (simp add: in_pool_def in_workers_def held_exited)

text \<open>When the counter is zero nothing is left, provided it has not wrapped.\<close>

lemma counter_zero:
  assumes "pool_inv p" and "tasks_total p = 0" and "size (submitted p) < 2 ^ 64"
  shows "in_pool p = {#}"
proof -
  have "size (in_pool p) < 2 ^ 64" using assms(1,3) by (simp add: pool_inv_def)
  then have "unat (word_of_nat (size (in_pool p)) :: u64) = size (in_pool p)"
    by (simp add: unat_of_nat take_bit_nat_eq_self)
  moreover have "(word_of_nat (size (in_pool p)) :: u64) = 0"
    using assms(1,2) by (simp add: pool_inv_def)
  ultimately show ?thesis by (metis unat_0 size_eq_0_iff_empty)
qed

subsection \<open>What the destructor leaves\<close>

fun destroy_ok :: "destroy \<Rightarrow> 'a thread_pool \<Rightarrow> bool" where
  "destroy_ok (D_wait w) p = (w = Wait_over \<and> \<not> paused p \<longrightarrow> in_pool p = {#})"
| "destroy_ok D_running p = (\<not> paused p \<longrightarrow> in_pool p = {#})"
| "destroy_ok (D_join i) p =
     ((\<not> paused p \<longrightarrow> in_pool p = {#}) \<and> i \<le> length (workers p) \<and> (\<forall>j<i. workers p ! j = Exited))"
| "destroy_ok D_done p =
     ((\<not> paused p \<longrightarrow> in_pool p = {#}) \<and> list_all (\<lambda>w. w = Exited) (workers p))"

definition waiting_ok :: "destroy \<Rightarrow> 'a thread_pool \<Rightarrow> bool" where
  "waiting_ok d p \<longleftrightarrow> (\<not> paused p \<longrightarrow>
     d \<noteq> D_wait At_running \<and> (\<forall>k. d \<noteq> D_wait (Counter_read k) \<and> d \<noteq> D_wait (Queue_read k)))"

definition destroy_inv ::
  "bool \<Rightarrow> 'a multiset \<Rightarrow> destroy \<times> 'a thread_pool \<Rightarrow> bool" where
  "destroy_inv b sub x \<longleftrightarrow>
     (case x of (d, p) \<Rightarrow> pool_inv p \<and> pushing p = [] \<and> submitted p = sub \<and> paused p = b
        \<and> destroy_ok d p \<and> waiting_ok d p)"

lemma destroy_worker_inv:
  assumes "i < length (workers p)" and "destroy_inv b sub (d, p)"
  shows "destroy_inv b sub (d, worker_step i p)"
proof -
  have none: "in_pool (worker_step i p) = {#}" if "in_pool p = {#}"
    using in_pool_worker_step [OF assms(1)] that by simp
  have "destroy_ok d p" using assms(2) by (simp add: destroy_inv_def)
  then have "destroy_ok d (worker_step i p)"
    using none by (cases d) (auto simp: worker_keeps_exited list_all_length)
  then show ?thesis
    using assms by (simp add: destroy_inv_def worker_step_inv waiting_ok_def)
qed

lemma destroy_wait_inv:
  assumes "wait_step w p w'" and "destroy_inv b sub (D_wait w, p)" and "size sub < 2 ^ 64"
  shows "destroy_inv b sub (D_wait w', p)"
proof -
  have inv: "pool_inv p" "size (submitted p) < 2 ^ 64" "waiting_ok (D_wait w) p"
    "destroy_ok (D_wait w) p" using assms(2,3) by (simp_all add: destroy_inv_def)
  have "destroy_ok (D_wait w') p \<and> waiting_ok (D_wait w') p"
    using assms(1)
  proof cases
    case Total
    with counter_zero [OF inv(1) _ inv(2)] show ?thesis by (simp add: waiting_ok_def)
  qed (use inv(3) in \<open>simp_all add: waiting_ok_def\<close>)
  with assms(2) show ?thesis by (simp add: destroy_inv_def)
qed

lemma destroy_step_inv:
  assumes "destroy_step hung x x'" and "destroy_inv b sub x" and "size sub < 2 ^ 64"
  shows "destroy_inv b sub x'"
  using assms(1,2)
proof (induction rule: destroy_step.induct)
  case (D_Wait w p w')
  then show ?case by (rule destroy_wait_inv [OF _ _ assms(3)])
next
  case (D_Stop p)
  then show ?case
    by (auto simp: destroy_inv_def pool_inv_def in_pool_def in_workers_def waiting_ok_def)
next
  case (D_Join i p)
  then show ?case by (auto simp: can_join_def destroy_inv_def waiting_ok_def less_Suc_eq)
next
  case (D_Worker i p d)
  then show ?case by (blast intro: destroy_worker_inv)
qed (auto simp: destroy_inv_def waiting_ok_def list_all_length)

definition destroys :: "bool \<Rightarrow> 'a multiset \<Rightarrow> destroy \<times> 'a thread_pool \<Rightarrow> bool" where
  "destroys b sub x \<longleftrightarrow> destroy_inv b sub x \<and> size sub < 2 ^ 64"

interpretation destroyer: kept "destroy_step hung" "destroys b sub" for hung b sub
  by unfold_locales (auto simp: destroys_def intro: destroy_step_inv)

lemma destroys_start:
  "pool_reachable n p \<Longrightarrow> pushing p = [] \<Longrightarrow> size (submitted p) < 2 ^ 64 \<Longrightarrow>
   destroys (paused p) (submitted p) (D_wait At_paused, p)"
  by (simp add: destroys_def destroy_inv_def reachable_inv waiting_ok_def)

text \<open>
  C20: the destructor of the pool keeps its promise. Whatever the interleaving with the workers, when it
  is done every thread has ended, and the tasks submitted are exactly those completed and those
  still in the queue; the queue is empty unless the pool was paused, in which case its tasks are
  never executed, as the comment says.
\<close>

theorem destructor_completes_tasks:
  assumes "pool_reachable n p" and "pushing p = []" and "size (submitted p) < 2 ^ 64"
    and "(destroy_step hung)\<^sup>*\<^sup>* (D_wait At_paused, p) (D_done, p')"
  shows "list_all (\<lambda>w. w = Exited) (workers p') \<and> submitted p = completed p' + mset (tasks p')
    \<and> (\<not> paused p \<longrightarrow> tasks p' = [])"
proof -
  have "destroys (paused p) (submitted p) (D_done, p')"
    using destroyer.always [OF assms(4) destroys_start [OF assms(1-3)]] .
  then have inv: "destroy_inv (paused p) (submitted p) (D_done, p')" by (simp add: destroys_def)
  then have "in_pool p' = mset (tasks p')"
    by (simp add: destroy_inv_def in_pool_exited)
  with inv show ?thesis by (auto simp: destroy_inv_def pool_inv_def ac_simps)
qed

lemma destroy_worker_steps:
  assumes "i < length (workers p)" and "i \<notin> hung"
  shows "(destroy_step hung)\<^sup>*\<^sup>* (d, p) (d, (worker_step i ^^ k) p)"
proof (induction k)
  case (Suc k)
  have "length (workers ((worker_step i ^^ k) p)) = length (workers p)"
    by (induction k) simp_all
  with assms have "destroy_step hung (d, (worker_step i ^^ k) p) (d, (worker_step i ^^ Suc k) p)"
    by (simp add: D_Worker)
  with Suc show ?case by (rule rtranclp.rtrancl_into_rtrancl)
qed simp

definition sample_gone :: "nat thread_pool" where
  "sample_gone = sample_done\<lparr>running := False, workers := [Exited]\<rparr>"

lemma sample_destroyed:
  "(destroy_step {})\<^sup>*\<^sup>* (D_wait At_paused, sample_pool) (D_done, sample_gone)"
proof -
  let ?q = "sample_done\<lparr>running := False\<rparr>"
  have 1: "(destroy_step {})\<^sup>*\<^sup>* (D_wait At_paused, sample_pool) (D_wait At_paused, sample_done)"
    unfolding sample_done_def by (rule destroy_worker_steps)
      (simp_all add: sample_pool_def push_end_def push_begin_def pool_make_def)
  have 2: "destroy_step {} (D_wait At_paused, sample_done) (D_wait At_total, sample_done)"
    by (rule D_Wait, rule Not_paused) (simp add: sample_done_eq)
  have 3: "destroy_step {} (D_wait At_total, sample_done) (D_wait Wait_over, sample_done)"
    using D_Wait [OF Total [of sample_done]] by (simp add: sample_done_eq)
  have 4: "destroy_step {} (D_join 0, ?q) (D_join 0, sample_gone)"
    using D_Worker [of 0 ?q "{}" "D_join 0"]
    by (simp add: sample_gone_def sample_done_eq worker_step_def set_worker_def)
  have 5: "destroy_step {} (D_join 0, sample_gone) (D_join (Suc 0), sample_gone)"
    by (rule D_Join) (simp add: sample_gone_def can_join_def)
  have 6: "destroy_step {} (D_join (Suc 0), sample_gone) (D_done, sample_gone)"
    by (rule D_Joined) (simp add: sample_gone_def)
  note rest = converse_rtranclp_into_rtranclp [where r = "destroy_step {}"]
  have "(destroy_step {})\<^sup>*\<^sup>* (D_wait At_paused, sample_done) (D_done, sample_gone)"
    by (rule rest [OF 2 rest [OF 3 rest [OF D_Waited rest [OF D_Stop rest [OF 4 rest [OF 5
      r_into_rtranclp [of "destroy_step {}", OF 6]]]]]]])
  with 1 show ?thesis by (rule rtranclp_trans)
qed

theorem destructor_completes_tasks_witness:
  "workers sample_gone = [Exited] \<and> submitted sample_pool = completed sample_gone
     \<and> completed sample_gone = {#7#}"
proof -
  have "pushing sample_pool = []" "submitted sample_pool = {#7#}" "\<not> paused sample_pool"
    by (simp_all add: sample_pool_def push_end_def push_begin_def pool_make_def)
  with destructor_completes_tasks [OF sample_reachable _ _ sample_destroyed] show ?thesis
    by (simp add: sample_gone_def sample_done_eq)
qed

section \<open>reset\<close>

datatype reset =
    R_read
  | R_pause bool \<comment> \<open>was_paused has been read\<close>
  | R_wait bool wait
  | R_running bool
  | R_join bool nat
  | R_threads bool
  | R_unpause bool
  | R_restart
  | R_create nat \<comment> \<open>as many threads have been created\<close>
  | R_done

text \<open>
  \<open>reset(_thread_count)\<close>, beside the workers and the threads that go on pushing tasks.
\<close>

inductive reset_step ::
  "nat \<Rightarrow> u64 \<Rightarrow> reset \<times> 'a thread_pool \<Rightarrow> reset \<times> 'a thread_pool \<Rightarrow> bool" for hw new_count where
  R_Read: "reset_step hw new_count (R_read, p) (R_pause (paused p), p)"
| R_Pause: "reset_step hw new_count (R_pause b, p) (R_wait b At_paused, p\<lparr>paused := True\<rparr>)"
| R_Wait: "wait_step w p w' \<Longrightarrow> reset_step hw new_count (R_wait b w, p) (R_wait b w', p)"
| R_Waited: "reset_step hw new_count (R_wait b Wait_over, p) (R_running b, p)"
| R_Stop: "reset_step hw new_count (R_running b, p) (R_join b 0, p\<lparr>running := False\<rparr>)"
| R_Join: "can_join i p \<Longrightarrow> reset_step hw new_count (R_join b i, p) (R_join b (Suc i), p)"
| R_Joined: "i = length (workers p) \<Longrightarrow> reset_step hw new_count (R_join b i, p) (R_threads b, p)"
| R_Threads: "reset_step hw new_count (R_threads b, p) (R_unpause b, p\<lparr>workers := []\<rparr>)"
| R_Unpause: "reset_step hw new_count (R_unpause b, p) (R_restart, p\<lparr>paused := b\<rparr>)"
| R_Restart: "reset_step hw new_count (R_restart, p) (R_create 0, p\<lparr>running := True\<rparr>)"
| R_Create: "k < thread_count_of hw new_count \<Longrightarrow>
     reset_step hw new_count (R_create k, p) (R_create (Suc k), create_thread p)"
| R_Created: "k = thread_count_of hw new_count \<Longrightarrow> reset_step hw new_count (R_create k, p) (R_done, p)"
| R_Push_begin: "reset_step hw new_count (r, p) (r, push_begin t p)"
| R_Push_end: "k < length (pushing p) \<Longrightarrow> reset_step hw new_count (r, p) (r, push_end k p)"
| R_Worker: "i < length (workers p) \<Longrightarrow> reset_step hw new_count (r, p) (r, worker_step i p)"

text \<open>What holds of the pool at each point of \<open>reset\<close>; \<open>b0\<close> is the flag it was called with.\<close>

fun reset_ok :: "bool \<Rightarrow> nat \<Rightarrow> reset \<Rightarrow> 'a thread_pool \<Rightarrow> bool" where
  "reset_ok b0 n R_read p = (paused p = b0)"
| "reset_ok b0 n (R_pause b) p = (b = b0)"
| "reset_ok b0 n (R_wait b w) p = (b = b0)"
| "reset_ok b0 n (R_running b) p = (b = b0)"
| "reset_ok b0 n (R_join b i) p =
     (b = b0 \<and> i \<le> length (workers p) \<and> (\<forall>j<i. workers p ! j = Exited))"
| "reset_ok b0 n (R_threads b) p = (b = b0 \<and> list_all (\<lambda>w. w = Exited) (workers p))"
| "reset_ok b0 n (R_unpause b) p = (b = b0 \<and> workers p = [])"
| "reset_ok b0 n R_restart p = (paused p = b0 \<and> workers p = [])"
| "reset_ok b0 n (R_create k) p = (paused p = b0 \<and> running p \<and> length (workers p) = k \<and> k \<le> n)"
| "reset_ok b0 n R_done p = (paused p = b0 \<and> running p \<and> length (workers p) = n)"

definition reset_inv ::
  "bool \<Rightarrow> nat \<Rightarrow> 'a multiset \<Rightarrow> reset \<times> 'a thread_pool \<Rightarrow> bool" where
  "reset_inv b0 n sub x \<longleftrightarrow>
     (case x of (r, p) \<Rightarrow> pool_inv p \<and> sub \<subseteq># submitted p \<and> reset_ok b0 n r p)"

lemma push_simps [simp]:
  "paused (push_begin t p) = paused p" "running (push_begin t p) = running p"
  "workers (push_begin t p) = workers p" "submitted (push_begin t p) = add_mset t (submitted p)"
  "paused (push_end k p) = paused p" "running (push_end k p) = running p"
  "workers (push_end k p) = workers p" "submitted (push_end k p) = submitted p"
  by (simp_all add: push_begin_def push_end_def)

text \<open>The pool's flags and idle threads do not count for its invariant.\<close>

lemma pool_inv_flags:
  "pool_inv (p\<lparr>paused := b\<rparr>) = pool_inv p" "pool_inv (p\<lparr>running := b\<rparr>) = pool_inv p"
  by (simp_all add: pool_inv_def in_pool_def in_workers_def)

lemma pool_inv_threads:
  "pool_inv (p\<lparr>workers := workers p @ [AtTest]\<rparr>) = pool_inv p"
  "list_all (\<lambda>w. w = Exited) (workers p) \<Longrightarrow> pool_inv (p\<lparr>workers := []\<rparr>) = pool_inv p"
  by (simp_all add: pool_inv_def in_pool_def in_workers_def held_exited)

lemma reset_ok_worker: "reset_ok b0 n r p \<Longrightarrow> reset_ok b0 n r (worker_step i p)"
  by (cases r) (auto simp: worker_keeps_exited list_all_length worker_step_exited
      simp flip: length_0_conv)

lemma reset_ok_push:
  "reset_ok b0 n r p \<Longrightarrow> reset_ok b0 n r (push_begin t p)"
  "reset_ok b0 n r p \<Longrightarrow> reset_ok b0 n r (push_end k p)"
  by (cases r; simp)+

lemma reset_step_inv:
  assumes "reset_step hw new_count x x'" and "reset_inv b0 (thread_count_of hw new_count) sub x"
  shows "reset_inv b0 (thread_count_of hw new_count) sub x'"
  using assms
proof (induction rule: reset_step.induct)
  case (R_Push_begin r p t)
  have "sub \<subseteq># add_mset t (submitted p)" if "sub \<subseteq># submitted p"
    using that by (metis add_mset_add_single mset_subset_eq_add_left subset_mset.order_trans)
  with R_Push_begin show ?case
    by (simp add: reset_inv_def pool_step_inv [OF Push_begin] reset_ok_push)
next
  case (R_Push_end k p r)
  then show ?case by (simp add: reset_inv_def pool_step_inv [OF Push_end] reset_ok_push)
next
  case (R_Worker i p r)
  then show ?case by (simp add: reset_inv_def worker_step_inv reset_ok_worker)
next
  case (R_Join i p b)
  then show ?case by (auto simp: reset_inv_def less_Suc_eq can_join_def)
qed (auto simp: reset_inv_def pool_inv_flags pool_inv_threads list_all_length create_thread_def)

interpretation resetter: kept "reset_step hw new_count" "reset_inv b0 (thread_count_of hw new_count) sub"
  for hw new_count b0 sub
  by unfold_locales (rule reset_step_inv)

text \<open>
  \<open>reset\<close> changes the threads and nothing else. Whatever the workers and the pushing threads do
  meanwhile, when it is done the pool has the new number of threads, runs, and is paused exactly if
  it was; no task is lost: those submitted, before and meanwhile, are the completed ones
  and those the new threads have still to run or are running.
\<close>

lemma reset_keeps_tasks:
  assumes "pool_reachable n p" and "(reset_step hw new_count)\<^sup>*\<^sup>* (R_read, p) (R_done, p')"
  shows "get_thread_count p' = thread_count_of hw new_count \<and> running p' \<and> paused p' = paused p
    \<and> submitted p \<subseteq># submitted p' \<and> submitted p' = in_pool p' + completed p'"
proof -
  have "reset_inv (paused p) (thread_count_of hw new_count) (submitted p) (R_read, p)"
    using reachable_inv [OF assms(1)] by (simp add: reset_inv_def)
  from resetter.always [OF assms(2) this] show ?thesis
    unfolding reset_inv_def prod.case reset_ok.simps pool_inv_def get_thread_count_def by blast
qed

text \<open>\<open>reset\<close> of the pool's handler, from its call to its return.\<close>

definition th_get_pool :: "'a thread_pool option \<Rightarrow> 'a thread_pool option" where
  "th_get_pool p = p"

inductive th_reset ::
  "nat \<Rightarrow> u64 \<Rightarrow> 'a thread_pool option \<Rightarrow> 'a thread_pool option \<Rightarrow> bool" for hw new_count where
  Th_none: "th_reset hw new_count None None"
| Th_some: "(reset_step hw new_count)\<^sup>*\<^sup>* (R_read, p) (R_done, p') \<Longrightarrow>
     th_reset hw new_count (Some p) (Some p')"

inductive_cases th_resetE: "th_reset hw new_count p p'"

lemma th_reset_threads:
  assumes "th_reset hw new_count p p'" and "\<And>s. p = Some s \<Longrightarrow> pool_reachable n s"
  shows "th_get_thread_count p' = (if p = None then 0 else thread_count_of hw new_count)"
  by (rule th_resetE [OF assms(1)])
    (auto simp: th_get_thread_count_def dest!: assms(2) reset_keeps_tasks)

section \<open>submit\<close>

text \<open>
  A promise can be satisfied once; a second attempt throws. What is thrown inside the wrapper
  of \<open>submit\<close> is the task's exception or that.
\<close>

datatype 'x thrown = Task_threw 'x | Already_satisfied

datatype ('x, 'r) promise = Unset | Value 'r | Failed "'x thrown"

definition set_value :: "'r \<Rightarrow> ('x, 'r) promise \<Rightarrow> 'x thrown + ('x, 'r) promise" where
  "set_value v p = (case p of Unset \<Rightarrow> Inr (Value v) | _ \<Rightarrow> Inl Already_satisfied)"

definition set_exception :: "'x thrown \<Rightarrow> ('x, 'r) promise \<Rightarrow> 'x thrown + ('x, 'r) promise" where
  "set_exception e p = (case p of Unset \<Rightarrow> Inr (Failed e) | _ \<Rightarrow> Inl Already_satisfied)"

text \<open>
  The task \<open>submit\<close> pushes: \<open>task\<close> on the state of the rest of the program, an exception as
  \<open>Inl\<close>. Both handlers catch everything, so nothing is thrown out of the wrapper.
\<close>

definition submit_task ::
  "('w \<Rightarrow> ('x + 'r) \<times> 'w) \<Rightarrow> ('x, 'r) promise \<Rightarrow> 'w \<Rightarrow> ('x, 'r) promise \<times> 'w" where
  "submit_task task task_promise w =
     (case task w of
        (r, w) \<Rightarrow>
          (case (case r of Inr v \<Rightarrow> set_value v task_promise | Inl x \<Rightarrow> Inl (Task_threw x)) of
             Inr p \<Rightarrow> (p, w)
           | Inl e \<Rightarrow>
               (case set_exception e task_promise of
                  Inr p \<Rightarrow> (p, w)
                | Inl _ \<Rightarrow> (task_promise, w))))"

text \<open>The overload for functions without a value.\<close>

definition submit_void_task ::
  "('w \<Rightarrow> ('x + unit) \<times> 'w) \<Rightarrow> ('x, bool) promise \<Rightarrow> 'w \<Rightarrow> ('x, bool) promise \<times> 'w" where
  "submit_void_task task task_promise w =
     (case task w of
        (r, w) \<Rightarrow>
          (case (case r of Inr _ \<Rightarrow> set_value True task_promise | Inl x \<Rightarrow> Inl (Task_threw x)) of
             Inr p \<Rightarrow> (p, w)
           | Inl e \<Rightarrow>
               (case set_exception e task_promise of
                  Inr p \<Rightarrow> (p, w)
                | Inl _ \<Rightarrow> (task_promise, w))))"

text \<open>The future of a fresh promise gets what the task returned or threw.\<close>

lemma submit_task_result:
  "submit_task task Unset w =
     (case task w of (Inr v, w') \<Rightarrow> (Value v, w') | (Inl x, w') \<Rightarrow> (Failed (Task_threw x), w'))"
  by (simp add: submit_task_def set_value_def set_exception_def split: prod.split sum.split)

lemma submit_void_task_result:
  "submit_void_task task Unset w =
     (case task w of (Inr _, w') \<Rightarrow> (Value True, w') | (Inl x, w') \<Rightarrow> (Failed (Task_threw x), w'))"
  by (simp add: submit_void_task_def set_value_def set_exception_def split: prod.split sum.split)

section \<open>synced\_stream\<close>

text \<open>The mutex makes each call one step on what the stream has received so far.\<close>

type_synonym stream_text = "byte list"

definition sync_print :: "byte list list \<Rightarrow> stream_text \<Rightarrow> stream_text" where
  "sync_print items out_stream = fold (\<lambda>item out. out @ item) items out_stream"

definition sync_println :: "byte list list \<Rightarrow> stream_text \<Rightarrow> stream_text" where
  "sync_println items out_stream = sync_print (items @ [[10]]) out_stream"

lemma sync_print_concat: "sync_print items out_stream = out_stream @ concat items"
  by (induction items arbitrary: out_stream) (simp_all add: sync_print_def)

lemma sync_println_concat: "sync_println items out_stream = out_stream @ concat items @ [10]"
  by (simp add: sync_println_def sync_print_concat)

text \<open>
  \<open>GearServer::monitor_tasks\<close>: the counters are read one after the other (in an order the language
  leaves open), so each comes from its own state of the pool.
\<close>

definition monitor_tasks ::
  "'a thread_pool \<Rightarrow> 'a thread_pool \<times> 'a thread_pool \<Rightarrow> 'a thread_pool \<Rightarrow> stream_text \<Rightarrow>
   stream_text" where
  "monitor_tasks p1 p23 p4 sync_out =
     sync_println
       [u64_text (get_tasks_total p1), map of_char '' tasks total, '',
        u64_text (get_tasks_running (fst p23) (snd p23)), map of_char '' tasks running, '',
        u64_text (get_tasks_queued p4), map of_char '' tasks queued.''] sync_out"

end
