(* ===== verification/Starvation.thy ===== *)
theory Starvation
  imports ClientSession PoolControl
begin

text \<open>
  The client handlers (\<^verbatim>\<open>src/src/input/inputs/GearStreamClientHandler.cpp\<close>) in the pool of
  \<open>GearServer::thread_main\<close> (\<^verbatim>\<open>src/src/input/inputs/GearServer.cpp\<close>): each accepted connection is a
  task of a pool with a fixed number of threads. A handler that never returns keeps its thread; when all
  threads are kept so, no other client is served any more.
\<close>

section \<open>Connections and handlers that hang\<close>

text \<open>A connection: what its handler reads outside it, and what each \<open>recv\<close> gives.\<close>

type_synonym connection = "env \<times> recv_result list"

definition hangs :: "connection \<Rightarrow> bool" where
  "hangs cn \<longleftrightarrow> handler_main (fst cn) (snd cn) = None"

section \<open>The pool of the client handlers\<close>

text \<open>
  The accept loop pushes tasks at any time; a worker takes all the steps of its loop, but the
  call of a handler that hangs does not end.
\<close>

inductive client_pool_step :: "connection thread_pool \<Rightarrow> connection thread_pool \<Rightarrow> bool" where
  Accept: "client_pool_step p (push_begin cn p)"
| Accepted: "k < length (pushing p) \<Longrightarrow> client_pool_step p (push_end k p)"
| Serve: "i < length (workers p) \<Longrightarrow>
     (case workers p ! i of InTask cn \<Rightarrow> \<not> hangs cn | _ \<Rightarrow> True) \<Longrightarrow>
     client_pool_step p (worker_step i p)"

inductive_cases client_pool_stepE [elim]: "client_pool_step p p'"

lemma client_pool_is_pool: "client_pool_step p p' \<Longrightarrow> pool_step p p'"
  by (auto intro: pool_step.intros)

lemma fetch_client: "fetch_step p p' \<Longrightarrow> client_pool_step p p'"
  by (auto elim!: fetch_step.cases intro!: Serve split: worker.split)

text \<open>All workers are in handlers that hang.\<close>

definition blocked :: "connection list \<Rightarrow> connection thread_pool \<Rightarrow> bool" where
  "blocked cns p \<longleftrightarrow> workers p = map InTask cns \<and> (\<forall>cn\<in>set cns. hangs cn) \<and> completed p = {#}"

lemma client_pool_blocked: "client_pool_step p p' \<Longrightarrow> blocked cns p \<Longrightarrow> blocked cns p'"
  by (auto simp: blocked_def push_begin_def push_end_def)

interpretation blocking: kept client_pool_step "blocked cns" for cns
  by unfold_locales (rule client_pool_blocked)

lemma accept_all:
  "client_pool_step\<^sup>*\<^sup>* (waiting_pool n [] cns) (waiting_pool n [] (cns @ cns'))"
proof (induction cns' rule: rev_induct)
  case (snoc cn cns')
  let ?p = "waiting_pool n [] (cns @ cns')"
  have "client_pool_step ?p (push_begin cn ?p)" by (rule Accept)
  moreover have "client_pool_step (push_begin cn ?p) (push_end 0 (push_begin cn ?p))"
    by (rule Accepted) (simp add: push_begin_def)
  ultimately show ?case
    using snoc unfolding waiting_pool_pushed by (metis append.assoc rtranclp.rtrancl_into_rtrancl)
qed simp

lemma hung_clients_block:
  assumes "\<forall>cn\<in>set cns. hangs cn"
  shows "\<exists>p. client_pool_step\<^sup>*\<^sup>* (pool_make (length cns)) p \<and> blocked cns p"
proof -
  have "client_pool_step\<^sup>*\<^sup>* (pool_make (length cns)) (waiting_pool (length cns) [] cns)"
    using accept_all [of "length cns" "[]" cns] by (simp add: waiting_pool_def pool_make_def)
  moreover have "fetch_step\<^sup>*\<^sup>* (waiting_pool (length cns) [] cns) (waiting_pool (length cns) cns [])"
    using waiting_pool_all [of "[]" cns "length cns"] by simp
  then have "client_pool_step\<^sup>*\<^sup>* (waiting_pool (length cns) [] cns) (waiting_pool (length cns) cns [])"
    by (rule rtranclp_mono [THEN predicate2D, rotated]) (auto intro: fetch_client)
  ultimately show ?thesis
    using assms by (intro exI [of _ "waiting_pool (length cns) cns []"])
      (auto simp: blocked_def waiting_pool_def)
qed

section \<open>A few clients stop the service\<close>

text \<open>
  A client that sends requests, then a control message with its header and one byte more.
\<close>

definition control_stream :: "byte list list \<Rightarrow> bool" where
  "control_stream cs \<longleftrightarrow> (\<forall>c\<in>set cs. c \<noteq> [] \<and> length c < 2048)
     \<and> (\<exists>rs t h b rest. concat cs = client_stream rs @ t # h @ b # rest
          \<and> (\<forall>r\<in>set rs. valid_request r)
          \<and> ((t = 0 \<and> length h = 10) \<or> (t = 2 \<and> length h = 4)))"

lemma control_stream_hangs: "control_stream cs \<Longrightarrow> hangs (e, map Received cs)"
  unfolding control_stream_def hangs_def using control_hang by auto

text \<open>
  C7: as many clients as the server has threads can stop its service for good. If each of them sends
  one \<open>N_CONNECT\<close> or \<open>N_CONTROL\<close> message and a byte more, the pool can reach a state from which, whatever
  connections are accepted later and whatever the threads do, no thread ever leaves the
  handler of these clients: every later connection is accepted and then waits for ever.
\<close>

theorem hanging_clients_stop_service:
  assumes "\<forall>(e, cs)\<in>set clients. control_stream cs"
  shows "\<exists>p. client_pool_step\<^sup>*\<^sup>* (pool_make (length clients)) p
    \<and> (\<forall>p'. client_pool_step\<^sup>*\<^sup>* p p' \<longrightarrow>
         workers p' = map (\<lambda>(e, cs). InTask (e, map Received cs)) clients \<and> completed p' = {#})"
proof -
  let ?cns = "map (\<lambda>(e, cs). (e, map Received cs)) clients"
  have "\<forall>cn\<in>set ?cns. hangs cn" using assms control_stream_hangs by auto
  from hung_clients_block [OF this] obtain p where
    p: "client_pool_step\<^sup>*\<^sup>* (pool_make (length clients)) p" "blocked ?cns p" by auto
  have "workers p' = map InTask ?cns \<and> completed p' = {#}" if "client_pool_step\<^sup>*\<^sup>* p p'" for p'
    using blocking.always [OF that p(2)] by (simp add: blocked_def)
  moreover have "map InTask ?cns = map (\<lambda>(e, cs). InTask (e, map Received cs)) clients"
    by (simp add: case_prod_unfold comp_def)
  ultimately show ?thesis using p(1) by auto
qed

lemma sample_control: "control_stream [[1, 2, 0, 0, 0, 0, 7]]"
proof -
  have "concat [[1, 2, 0, 0, 0, 0, 7]] = client_stream [] @ 2 # [0, 0, 0, 0] @ 7 # []"
    by (simp add: client_stream_def)
  then show ?thesis unfolding control_stream_def by fastforce
qed

theorem hanging_clients_stop_service_witness:
  "\<exists>p. client_pool_step\<^sup>*\<^sup>* (pool_make 20) p
    \<and> workers p = replicate 20 (InTask (sample_env, [Received [1, 2, 0, 0, 0, 0, 7]]))"
proof -
  have "\<forall>(e, cs)\<in>set (replicate 20 (sample_env, [[1, 2, 0, 0, 0, 0, 7]])). control_stream cs"
    using sample_control by simp
  from hanging_clients_stop_service [OF this] show ?thesis by (auto simp: map_replicate)
qed

section \<open>The end of the pool\<close>

text \<open>
  \<open>GearServer::thread_main\<close> has the pool as a local variable: when its loop ends, the destructor
  of the pool runs while the workers go on, but for those in a handler that hangs.
\<close>

definition hung_threads :: "connection thread_pool \<Rightarrow> nat set" where
  "hung_threads p = {i. i < length (workers p)
     \<and> (case workers p ! i of InTask cn \<Rightarrow> hangs cn | _ \<Rightarrow> False)}"

definition client_destroy ::
  "destroy \<times> connection thread_pool \<Rightarrow> destroy \<times> connection thread_pool \<Rightarrow> bool" where
  "client_destroy x x' \<longleftrightarrow> destroy_step (hung_threads (snd x)) x x'"

text \<open>No handler that hangs is ever counted as done.\<close>

definition hung_stay :: "connection thread_pool \<Rightarrow> bool" where
  "hung_stay p \<longleftrightarrow> \<not> paused p \<and> (\<forall>cn\<in>#completed p. \<not> hangs cn)
     \<and> (\<forall>cn. AtDecrement cn \<in> set (workers p) \<longrightarrow> \<not> hangs cn)"

lemma hung_stay_worker:
  assumes "hung_stay p" and "i < length (workers p)" and "i \<notin> hung_threads p"
  shows "hung_stay (worker_step i p)"
proof (cases "workers p ! i")
  case (AtDecrement cn)
  then have "\<not> hangs cn" using assms(1,2) unfolding hung_stay_def by (metis nth_mem)
  with AtDecrement assms show ?thesis
    by (auto simp: hung_stay_def pool_op dest!: set_update_subset_insert [THEN subsetD])
next
  case (InTask cn)
  then have "\<not> hangs cn" using assms(2,3) by (simp add: hung_threads_def)
  with InTask assms show ?thesis
    by (auto simp: hung_stay_def pool_op dest!: set_update_subset_insert [THEN subsetD])
qed (use assms in \<open>auto simp: hung_stay_def pool_op split: list.split
      dest!: set_update_subset_insert [THEN subsetD]\<close>)

lemma client_pool_hung_stay: "client_pool_step p p' \<Longrightarrow> hung_stay p \<Longrightarrow> hung_stay p'"
proof (induction rule: client_pool_step.induct)
  case (Serve i p)
  then show ?case
    by (intro hung_stay_worker) (auto simp: hung_threads_def split: worker.splits)
qed (auto simp: hung_stay_def push_begin_def push_end_def)

interpretation serving: kept client_pool_step hung_stay
  by unfold_locales (rule client_pool_hung_stay)

definition unfinished :: "connection multiset \<Rightarrow> destroy \<times> connection thread_pool \<Rightarrow> bool" where
  "unfinished sub x \<longleftrightarrow> hung_stay (snd x) \<and> destroys False sub x"

lemma destroy_hung_stay:
  "destroy_step hung x x' \<Longrightarrow> hung = hung_threads (snd x) \<Longrightarrow> hung_stay (snd x) \<Longrightarrow> hung_stay (snd x')"
proof (induction rule: destroy_step.induct)
  case (D_Worker i p d)
  then show ?case by (simp add: hung_stay_worker)
qed (simp_all add: hung_stay_def)

lemma client_destroy_unfinished: "client_destroy x x' \<Longrightarrow> unfinished sub x \<Longrightarrow> unfinished sub x'"
  using destroy_hung_stay destroyer.keeps unfolding client_destroy_def unfinished_def by blast

interpretation ending: kept client_destroy "unfinished sub" for sub
  by unfold_locales (rule client_destroy_unfinished)

text \<open>
  C21: one client whose handler never returns keeps the server's pool from being destroyed. Take any state
  the pool of client handlers can come to, in which such a connection has been
  handed to it, whether a thread serves it already or not; then the destructor
  is never done, whatever the threads do.
\<close>

theorem hanging_client_blocks_destructor:
  assumes "client_pool_step\<^sup>*\<^sup>* (pool_make n) p" and "pushing p = []" and "size (submitted p) < 2 ^ 64"
    and "(e, rs) \<in># submitted p" and "handler_main e rs = None"
  shows "\<not> client_destroy\<^sup>*\<^sup>* (D_wait At_paused, p) (D_done, p')"
proof
  assume run: "client_destroy\<^sup>*\<^sup>* (D_wait At_paused, p) (D_done, p')"
  have "hung_stay (pool_make n)" by (auto simp: hung_stay_def pool_make_def)
  then have stay: "hung_stay p" using serving.always [OF assms(1)] by blast
  have "pool_reachable n p"
    unfolding pool_reachable_def using assms(1)
    by (rule rtranclp_mono [THEN predicate2D, rotated]) (auto intro: client_pool_is_pool)
  from destroys_start [OF this assms(2,3)] stay
  have "unfinished (submitted p) (D_wait At_paused, p)" by (simp add: unfinished_def hung_stay_def)
  from ending.always [OF run this]
  have "hung_stay p'" and "destroy_inv False (submitted p) (D_done, p')"
    by (simp_all add: unfinished_def destroys_def)
  then have "submitted p = completed p'"
    by (auto simp: destroy_inv_def pool_inv_def)
  with assms(4) \<open>hung_stay p'\<close> have "\<not> hangs (e, rs)" by (auto simp: hung_stay_def)
  with assms(5) show False by (simp add: hangs_def)
qed

theorem hanging_client_blocks_destructor_witness:
  "\<not> (\<exists>p'. client_destroy\<^sup>*\<^sup>*
     (D_wait At_paused, waiting_pool 20 [] [(sample_env, [Received [1, 2, 0, 0, 0, 0, 7]])])
     (D_done, p'))"
proof -
  let ?cn = "(sample_env, [Received [1, 2, 0, 0, 0, 0, 7]])"
  have "client_pool_step\<^sup>*\<^sup>* (pool_make 20) (waiting_pool 20 [] [?cn])"
    using accept_all [of 20 "[]" "[?cn]"] by (simp add: waiting_pool_def pool_make_def)
  moreover have "handler_main sample_env [Received [1, 2, 0, 0, 0, 0, 7]] = None"
    using control_stream_hangs [OF sample_control, of sample_env] by (simp add: hangs_def)
  ultimately show ?thesis
    using hanging_client_blocks_destructor [of 20 "waiting_pool 20 [] [?cn]"]
    by (simp add: waiting_pool_def)
qed

end
