(* ===== verification/MainProgram.thy ===== *)
theory MainProgram
  imports Daemon Starvation
begin

text \<open>
  \<open>main\<close> (\<^verbatim>\<open>src/src/main.cpp\<close>) as the composition of the components: it creates the queue, the
  handlers and the pool, runs the input and the output side, waits for the end, and shuts down in
  an order that leaves no message without a trace.
\<close>

section \<open>Creating the components\<close>

record 'n application =
  ap_messages :: "queue_entry locked_queue"
  ap_dbh :: libzdb_handler
  ap_db_pool :: "queue_entry thread_pool option"
  ap_input :: "'n gear_server option"

definition main_create :: "nat \<Rightarrow> 'n sockets \<Rightarrow> config \<Rightarrow> 'n net \<Rightarrow> 'n application" where
  "main_create hw k c n =
     \<lparr>ap_messages = lq_new, ap_dbh = lh_new (Some c),
      ap_db_pool = th_initialize_n hw (mysql_maxconnections c + 1),
      ap_input = ih_initialize k c n\<rparr>"

text \<open>The state in which the output thread starts on these components.\<close>

definition output_start :: "'n application \<Rightarrow> 'z world \<Rightarrow> 'z output_state" where
  "output_start a w =
     \<lparr>os_dbh = Some (ap_dbh a), os_queue = ap_messages a, os_tasks = [], os_world = w\<rparr>"

section \<open>Shutting down\<close>

text \<open>
  The end of \<open>main\<close>, when the threads have been joined: the messages that are still queued go to
  the system log, the lock file of a daemon is removed. Result: the exit status and the log lines.
\<close>

definition main_finish ::
  "queue_entry locked_queue \<Rightarrow> process \<Rightarrow> ub + (int \<times> byte list list \<times> process)" where
  "main_finish messages p =
     (case drain messages [] of
        Inl u \<Rightarrow> Inl u
      | Inr (_, lines) \<Rightarrow>
          Inr (0, lines,
            if rundaemonized (conf (globs p))
            then p\<lparr>pid_files := removeAll (PID_FILE (globs p)) (pid_files p)\<rparr> else p))"

text \<open>
  \<open>InputHandler::deinitialize\<close> asks the server to stop and joins its thread. That thread ends when its loop
  sees the request (\<open>gturns\<close> are its turns, with the request in one of them) and the destructor
  of its client pool is done, which waits for the handler of every accepted connection
  (\<open>destructor_completes_tasks\<close>, \<open>hanging_client_blocks_destructor\<close>). \<open>conns i\<close> is what happens on the
  \<open>i\<close>-th of them.
\<close>

definition handler_returns :: "connection \<Rightarrow> bool" where
  "handler_returns cn = (case handler_main (fst cn) (snd cn) of Some (Inr _) \<Rightarrow> True | _ \<Rightarrow> False)"

definition input_ends ::
  "'n sockets \<Rightarrow> config \<Rightarrow> (bool \<times> bool \<times> config) list \<Rightarrow> (nat \<Rightarrow> connection) \<Rightarrow>
   'n gear_server option \<Rightarrow> bool" where
  "input_ends k c gturns conns input =
     (case input of
        None \<Rightarrow> True
      | Some g \<Rightarrow>
          (case gs_loop k c gturns g of
             (ended, g) \<Rightarrow>
               ended \<and> list_all (\<lambda>i. handler_returns (conns i)) [0..<length (gs_clients g)]))"

text \<open>
  From the start of the output thread on. The main thread leaves its waiting loop (\<open>signals\<close> are
  those of each wait), stops both sides and joins their threads: \<open>turns\<close> is what the output thread
  lives through until it sees its \<open>stop_\<close>; \<open>late\<close> are the messages that come into the queue between
  its last look at it and the last look of \<open>main\<close>, from tasks that put theirs back. \<open>None\<close>: \<open>main\<close>
  does not get to its end, because it is still running, because a client handler
  does not return, or because a signal or the exception of a thread has ended the program.
\<close>

definition main_run ::
  "'z outside \<Rightarrow> (string \<Rightarrow> string option) \<Rightarrow> 'n sockets \<Rightarrow> config \<Rightarrow> ('z world \<Rightarrow> 'z world) \<Rightarrow>
   'z turn list \<Rightarrow> ('z world \<Rightarrow> 'z world) \<Rightarrow> (bool \<times> bool \<times> config) list \<Rightarrow> (nat \<Rightarrow> connection) \<Rightarrow>
   sig list list \<Rightarrow> queue_entry list \<Rightarrow> process \<Rightarrow> 'n application \<Rightarrow> 'z world \<Rightarrow>
   (ub + (queue_entry list \<times> int \<times> byte list list \<times> process)) option" where
  "main_run z fs k c waited1 turns waited2 gturns conns signals late p a w =
     (case main_wait fs signals p of
        None \<Rightarrow> None
      | Some (False, _) \<Rightarrow> None
      | Some (True, p) \<Rightarrow>
          (case thread_main z c True (0 < th_get_thread_count (ap_db_pool a)) waited1 turns waited2
                  (output_start a w) of
             Inl u \<Rightarrow> Some (Inl u)
           | Inr (Ended, s) \<Rightarrow>
               if \<not> input_ends k c gturns conns (ap_input a) then None
               else (case main_finish (fold lq_push late (os_queue s)) p of
                       Inl u \<Rightarrow> Some (Inl u)
                     | Inr (code, lines, p) \<Rightarrow> Some (Inr (os_tasks s, code, lines, p)))
           | Inr (_, s) \<Rightarrow> None))"

text \<open>A client whose handler hangs keeps \<open>main\<close> from its end.\<close>

lemma hanging_client_keeps_main:
  assumes "ap_input a = Some g" and "gs_loop k c gturns g = (b, g')" and "i < length (gs_clients g')"
    and "hangs (conns i)"
  shows "main_run z fs k c waited1 turns waited2 gturns conns signals late p a w \<noteq> Some (Inr r)"
proof -
  have "\<not> handler_returns (conns i)" using assms(4) by (simp add: hangs_def handler_returns_def)
  then have "\<not> input_ends k c gturns conns (ap_input a)"
    using assms(1-3) by (auto simp: input_ends_def list_all_iff)
  then show ?thesis
    by (auto simp: main_run_def split: option.split prod.split bool.split sum.split thread_end.split)
qed

section \<open>What the output thread takes\<close>

text \<open>
  The messages that come in while the thread lives: in each turn those before it, and those that
  arrive in the passes its inner loop makes. How many passes there are follows from the
  length of the queue and the readings (\<open>passes\<close>), and whether the inner loop runs at all from the state.
\<close>

definition pass_arrivals :: "bool \<Rightarrow> bool \<Rightarrow> reading list \<Rightarrow> 'z output_state \<Rightarrow> queue_entry list" where
  "pass_arrivals has_pool has_threads rs s =
     (if (case os_dbh s of None \<Rightarrow> False | Some h \<Rightarrow> hasConnectionPool h) \<and> has_pool \<and> has_threads
      then concat (map arrivals (take (passes rs (length (queue (os_queue s)))) rs)) else [])"

fun came_in ::
  "'z outside \<Rightarrow> config \<Rightarrow> bool \<Rightarrow> bool \<Rightarrow> 'z turn list \<Rightarrow> 'z output_state \<Rightarrow> queue_entry list" where
  "came_in z c has_pool has_threads [] s = []"
| "came_in z c has_pool has_threads (t # ts) s =
     (let s = s\<lparr>os_queue := fold lq_push (tn_arrivals t) (os_queue s)\<rparr> in
      tn_arrivals t @
      (if tn_stop t then []
       else pass_arrivals has_pool has_threads (tn_readings t) s @
         (case main_body z c (tn_waited t) has_pool has_threads (tn_readings t) s of
            Inr (True, s) \<Rightarrow> came_in z c has_pool has_threads ts s
          | _ \<Rightarrow> [])))"

text \<open>The thread starts its loop in the state in which its first \<open>setupPool\<close> leaves the handler.\<close>

definition arrived ::
  "'z outside \<Rightarrow> config \<Rightarrow> bool \<Rightarrow> bool \<Rightarrow> ('z world \<Rightarrow> 'z world) \<Rightarrow> 'z turn list \<Rightarrow> 'z output_state \<Rightarrow>
   queue_entry list" where
  "arrived z c has_pool has_threads waited1 turns s =
     (case setupPool z waited1 has_pool (os_dbh s) (os_world s) of
        Inr (None, dbh, w) \<Rightarrow>
          came_in z c has_pool has_threads turns (s\<lparr>os_dbh := dbh, os_world := w\<rparr>)
      | _ \<Rightarrow> [])"

definition taken :: "config \<Rightarrow> queue_entry list \<Rightarrow> 'z output_state \<Rightarrow> queue_entry list \<Rightarrow>
  'z output_state \<Rightarrow> bool" where
  "taken c came s popped s' \<longleftrightarrow> os_tasks s' = os_tasks s @ filter (retry_allowed c) popped
     \<and> popped @ queue (os_queue s') = queue (os_queue s) @ came"

lemma taken_nothing: "os_tasks s' = os_tasks s \<Longrightarrow> os_queue s' = os_queue s \<Longrightarrow> taken c [] s [] s'"
  by (simp add: taken_def)

lemma taken_trans:
  "taken c came s popped s1 \<Longrightarrow> taken c came' s1 popped' s2 \<Longrightarrow>
   taken c (came @ came') s (popped @ popped') s2"
  unfolding taken_def by (metis append.assoc filter_append)

lemma main_body_taken:
  assumes "main_body z c waited has_pool has_threads rs s = Inr (b, s')"
  shows "\<exists>popped. taken c (pass_arrivals has_pool has_threads rs s) s popped s'"
proof (cases "case os_dbh s of None \<Rightarrow> True | Some h \<Rightarrow> \<not> hasConnectionPool h")
  case True
  with assms have "os_tasks s' = os_tasks s" "os_queue s' = os_queue s"
    by (auto simp: main_body_def split: sum.splits)
  moreover have "pass_arrivals has_pool has_threads rs s = []"
    using True by (auto simp: pass_arrivals_def split: option.splits)
  ultimately show ?thesis using taken_nothing by metis
next
  case False
  then have some: "case os_dbh s of None \<Rightarrow> False | Some h \<Rightarrow> hasConnectionPool h"
    by (simp split: option.splits)
  show ?thesis
  proof (cases "\<not> lq_empty (os_queue s) \<and> has_pool \<and> has_threads")
    case True
    obtain b1 q' popped where d: "dispatch_messages c rs (os_queue s) (os_tasks s)
        = Inr (b1, q', os_tasks s @ filter (retry_allowed c) popped)"
      "popped @ queue q' = queue (os_queue s)
        @ concat (map arrivals (take (passes rs (length (queue (os_queue s)))) rs))"
      using dispatch_passes [of c rs "os_queue s" "os_tasks s"] by blast
    from assms False True d(1) have "s' = s\<lparr>os_queue := q',
        os_tasks := os_tasks s @ filter (retry_allowed c) popped\<rparr>" by (simp add: main_body_def)
    with d(2) some True show ?thesis
      by (intro exI [of _ popped]) (simp add: taken_def pass_arrivals_def)
  next
    case no: False
    with assms False have "s' = s" by (auto simp: main_body_def)
    moreover have "pass_arrivals has_pool has_threads rs s = []"
      using no by (cases rs) (auto simp: pass_arrivals_def lq.empty_iff)
    ultimately show ?thesis using taken_nothing by metis
  qed
qed

lemma thread_loop_taken:
  "thread_loop z c has_pool has_threads turns s = Inr (b, s') \<Longrightarrow>
   \<exists>popped. taken c (came_in z c has_pool has_threads turns s) s popped s'"
proof (induction turns arbitrary: s)
  case Nil
  then show ?case by (intro exI [of _ "[]"]) (auto intro: taken_nothing)
next
  case (Cons t turns)
  let ?s = "s\<lparr>os_queue := fold lq_push (tn_arrivals t) (os_queue s)\<rparr>"
  have arrive: "taken c (tn_arrivals t) s [] ?s"
    by (simp add: taken_def lq.content_fold_push)
  show ?case
  proof (cases "tn_stop t")
    case True
    with Cons.prems have "s' = ?s" by (simp add: Let_def)
    with arrive True show ?thesis by (intro exI [of _ "[]"]) (simp add: Let_def)
  next
    case False
    let ?here = "pass_arrivals has_pool has_threads (tn_readings t) ?s"
    obtain b1 s1 where body: "main_body z c (tn_waited t) has_pool has_threads (tn_readings t) ?s
        = Inr (b1, s1)"
      and rest: "if b1 then thread_loop z c has_pool has_threads turns s1 = Inr (b, s') else s' = s1"
      using Cons.prems False by (auto simp: Let_def split: sum.splits bool.splits)
    have came: "came_in z c has_pool has_threads (t # turns) s = tn_arrivals t @ ?here
        @ (if b1 then came_in z c has_pool has_threads turns s1 else [])"
      using False body by (simp add: Let_def)
    obtain popped where 1: "taken c ?here ?s popped s1" using main_body_taken [OF body] by blast
    show ?thesis
    proof (cases b1)
      case True
      with rest have "thread_loop z c has_pool has_threads turns s1 = Inr (b, s')" by simp
      from Cons.IH [OF this] obtain popped' where
        "taken c (came_in z c has_pool has_threads turns s1) s1 popped' s'" by blast
      from taken_trans [OF arrive taken_trans [OF 1 this]] True show ?thesis
        unfolding came by auto
    next
      case False
      with rest taken_trans [OF arrive 1] show ?thesis unfolding came by auto
    qed
  qed
qed

lemma thread_main_taken:
  assumes "thread_main z c has_pool has_threads waited1 turns waited2 s = Inr (Ended, s')"
  shows "\<exists>popped. taken c (arrived z c has_pool has_threads waited1 turns s) s popped s'"
proof -
  obtain dbh w s1 dbh' w' where
    pool: "setupPool z waited1 has_pool (os_dbh s) (os_world s) = Inr (None, dbh, w)"
    and loop: "thread_loop z c has_pool has_threads turns (s\<lparr>os_dbh := dbh, os_world := w\<rparr>) = Inr (True, s1)"
    and s': "s' = s1\<lparr>os_dbh := dbh', os_world := w'\<rparr>"
    using assms
    by (auto simp: thread_main_def split: sum.splits prod.splits option.splits bool.splits)
  from thread_loop_taken [OF loop] s' pool show ?thesis by (simp add: taken_def arrived_def)
qed

section \<open>Nothing disappears at shutdown\<close>

text \<open>
  The messages the output thread of \<open>main\<close> has taken and those it has left, of all that came in: the first
  \<open>j\<close> were taken, and handed to the database pool unless the retry limit forbade it; the queries of
  all others are in the system log.
\<close>

definition accounted ::
  "config \<Rightarrow> queue_entry list \<Rightarrow> queue_entry list \<Rightarrow> queue_entry list \<Rightarrow> byte list list \<Rightarrow> bool" where
  "accounted c came late handed lines \<longleftrightarrow> (\<exists>j. j \<le> length came
     \<and> handed = filter (retry_allowed c) (take j came)
     \<and> lines = map (c_str \<circ> query) (drop j came @ late))"

abbreviation main_arrived where
  "main_arrived z c waited1 turns a w \<equiv>
     arrived z c True (0 < th_get_thread_count (ap_db_pool a)) waited1 turns (output_start a w)"

lemma main_run_accounts:
  assumes "main_run z fs k c waited1 turns waited2 gturns conns signals late p (main_create hw k c n) w
    = Some (Inr (handed, code, lines, p'))"
  shows "accounted c (main_arrived z c waited1 turns (main_create hw k c n) w) late handed lines
    \<and> code = 0"
proof -
  let ?a = "main_create hw k c n"
  let ?s0 = "output_start ?a w" and ?threads = "0 < th_get_thread_count (ap_db_pool ?a)"
  obtain s where run: "thread_main z c True ?threads waited1 turns waited2 ?s0 = Inr (Ended, s)"
    and fin: "code = 0" "lines = map (c_str \<circ> query) (queue (os_queue s) @ late)" "handed = os_tasks s"
    using assms
    by (auto simp: main_run_def main_finish_def drain_result lq.content_fold_push
        split: option.splits prod.splits bool.splits sum.splits thread_end.splits if_splits)
  obtain popped where "taken c (arrived z c True ?threads waited1 turns ?s0) ?s0 popped s"
    using thread_main_taken [OF run] by blast
  then have "os_tasks s = filter (retry_allowed c) popped"
    "popped @ queue (os_queue s) = arrived z c True ?threads waited1 turns ?s0"
    by (simp_all add: taken_def output_start_def main_create_def lq_new_def)
  from this(1) this(2) [symmetric] fin show ?thesis
    unfolding accounted_def by (intro conjI exI [of _ "length popped"]) simp_all
qed

text \<open>
  C10: a stop of the program leaves every message with a trace. When \<open>main\<close> has returned, the
  messages that came into the queue, all those before each turn and in each pass of the output
  thread, are accounted for in order: a first part was taken by the output thread and handed to the
  database pool (unless the retry limit forbade it), and of all others, with those that came late,
  \<open>main\<close> wrote the queries to the system log; and the status is success.
\<close>

theorem shutdown_accounts_for_all:
  assumes "main_run z fs k c waited1 turns waited2 gturns conns signals late p (main_create hw k c n) w
    = Some (Inr (handed, code, lines, p'))"
  shows "accounted c (main_arrived z c waited1 turns (main_create hw k c n) w) late handed lines
    \<and> code = 0"
  by (rule main_run_accounts [OF assms])

definition stop_turn :: "lab turn" where
  "stop_turn = \<lparr>tn_stop = True, tn_arrivals = [one_message], tn_readings = [], tn_waited = id\<rparr>"

lemma sample_connect:
  "\<exists>h w. connect (lab_outside (\<lambda>_. None)) (lh_new (Some default_config)) (lab_world 100 [] [])
     = Inr (None, h, w)"
  by (simp add: connect_def lh_new_def ping_def disconnect_def connect_new_def
      setViableConnectionConfigIndex_def lab_simps)

lemma sample_thread:
  "\<exists>s. thread_main (lab_outside (\<lambda>_. None)) default_config True b id [stop_turn] id
      (output_start (main_create 8 k default_config n) (lab_world 100 [] [])) = Inr (Ended, s)
     \<and> queue (os_queue s) = [one_message] \<and> os_tasks s = []"
proof -
  obtain h w where con: "connect (lab_outside (\<lambda>_. None)) (lh_new (Some default_config))
      (lab_world 100 [] []) = Inr (None, h, w)"
    using sample_connect by blast
  show ?thesis
    by (simp add: thread_main_def setupPool_def output_start_def main_create_def con stop_turn_def
        deinitialize_def lq_new_def split: prod.split)
qed

text \<open>The server's loop ends in the turn in which the request to stop comes.\<close>

lemma gs_loop_stops: "\<exists>t\<in>set ts. fst t \<or> fst (snd t) \<Longrightarrow> fst (gs_loop k c0 ts g)"
proof (induction ts arbitrary: g)
  case (Cons t ts)
  obtain before meanwhile c where t: "t = (before, meanwhile, c)" by (cases t)
  define g1 where "g1 = (if before then gs_request_stop g else g)"
  obtain b tw where w: "wait_for (if meanwhile then 1 else 0) (gs_timer g1) = (b, tw)" by fastforce
  define g2 where "g2 = g1\<lparr>gs_timer := tw, gs_stop := gs_stop g1 \<or> meanwhile\<rparr>"
  have "gs_loop k c0 (t # ts) g =
      (if \<not> b \<or> gs_stop g2 then (True, g2) else gs_loop k c0 ts (gs_body k c0 c g2))"
    unfolding t gs_loop.simps g1_def [symmetric] Let_def w prod.case g2_def [symmetric] by simp
  moreover have "gs_stop g2" if "before \<or> meanwhile"
    using that by (auto simp: g2_def g1_def gs_request_stop_def)
  ultimately show ?case using Cons t by auto
qed simp

lemma input_ends_if:
  assumes "\<exists>t\<in>set gturns. fst t \<or> fst (snd t)" and "\<forall>i. handler_returns (conns i)"
  shows "input_ends k c gturns conns input"
  using gs_loop_stops [OF assms(1), of k c] assms(2)
  by (auto simp: input_ends_def list_all_iff case_prod_beta split: option.split)

definition stop_request :: "(bool \<times> bool \<times> config) list" where
  "stop_request = [(False, False, default_config), (False, True, default_config)]"

definition sample_conns :: "nat \<Rightarrow> connection" where
  "sample_conns i = (sample_env, map Received [[1, 3, 2], [0, 0, 0, 65], [66]])"

lemma sample_conns_return: "\<forall>i. handler_returns (sample_conns i)"
  using sample_session by (simp add: handler_returns_def sample_conns_def del: list.map)

lemma sample_input_ends: "input_ends k c stop_request sample_conns input"
  by (rule input_ends_if [OF _ sample_conns_return]) (simp add: stop_request_def)

lemma sample_main_run:
  "\<exists>p'. main_run (lab_outside (\<lambda>_. None)) sample_fs k default_config id [stop_turn] id stop_request
     sample_conns [[SIGINT]] [] sample_running (main_create 8 k default_config n) (lab_world 100 [] [])
     = Some (Inr ([], 0, [[65, 66]], p'))"
proof -
  obtain p' where wait: "main_wait sample_fs [[SIGINT]] sample_running = Some (True, p')"
    by (auto simp: deliver_signal_def handle_signal_def sample_start wait_for_def tw_new_def Let_def)
  obtain s where "thread_main (lab_outside (\<lambda>_. None)) default_config True
      (0 < th_get_thread_count (ap_db_pool (main_create 8 k default_config n))) id [stop_turn] id
      (output_start (main_create 8 k default_config n) (lab_world 100 [] [])) = Inr (Ended, s)"
    "queue (os_queue s) = [one_message]" "os_tasks s = []"
    using sample_thread by blast
  then show ?thesis
    by (simp add: main_run_def wait sample_input_ends main_finish_def drain_result one_message_def
        new_entry_def c_str_def del: main_wait.simps)
qed

lemma sample_arrived:
  "main_arrived (lab_outside (\<lambda>_. None)) default_config id [stop_turn]
     (main_create 8 k default_config n) (lab_world 100 [] []) = [one_message]"
proof -
  obtain h w where "connect (lab_outside (\<lambda>_. None)) (lh_new (Some default_config))
      (lab_world 100 [] []) = Inr (None, h, w)"
    using sample_connect by blast
  then show ?thesis
    by (simp add: arrived_def setupPool_def output_start_def main_create_def stop_turn_def Let_def)
qed

theorem shutdown_accounts_for_all_witness: "accounted default_config [one_message] [] [] [[65, 66]]"
proof -
  obtain n :: "unit net" and k p' where "main_run (lab_outside (\<lambda>_. None)) sample_fs k default_config id
      [stop_turn] id stop_request sample_conns [[SIGINT]] [] sample_running
      (main_create 8 k default_config n) (lab_world 100 [] []) = Some (Inr ([], 0, [[65, 66]], p'))"
    using sample_main_run by metis
  from shutdown_accounts_for_all [OF this] show ?thesis unfolding sample_arrived by simp
qed

text \<open>So \<open>main\<close> of a program in the foreground never returns, and never writes what is left in the queue.\<close>

corollary foreground_never_returns:
  assumes "main_start fs calls args p0 = Runs p" and "\<not> rundaemonized (conf (globs p))"
    and "\<not> int_handler p0" and "\<not> hup_handler p0" and "\<not> tw_stop (us_timer (main_unit p0))"
  shows "main_run z fs k c waited1 turns waited2 gturns conns signals late p a w = None"
  by (simp add: main_run_def foreground_never_stops [OF assms])

section \<open>A daemon stops in order\<close>

lemma load_config_daemonized: "rundaemonized (conf (snd (load_config f g))) = rundaemonized (conf g)"
proof -
  have set: "(\<And>x c. rundaemonized (f x c) = rundaemonized c) \<Longrightarrow>
      rundaemonized (conf (assign v f g)) = rundaemonized (conf g)"
    for v :: "'v option" and f and g :: globals
    by (simp add: assign_def split: option.split)
  have "rundaemonized (conf (load_line l g)) = rundaemonized (conf g)" for l and g :: globals
    unfolding load_line_def Let_def by (simp add: set)
  then have "rundaemonized (conf (fold load_line ls g)) = rundaemonized (conf g)" for ls g
    by (induction ls arbitrary: g) simp_all
  then show ?thesis by (simp add: load_config_def Let_def)
qed

lemma deliver_signals_daemonized:
  "deliver_signals fs ss p = Some p' \<Longrightarrow> rundaemonized (conf (globs p')) = rundaemonized (conf (globs p))"
proof (induction ss arbitrary: p)
  case (Cons s ss)
  have "rundaemonized (conf (globs q)) = rundaemonized (conf (globs p))"
    if "deliver_signal fs s p = Some q" for q
    using that by (cases s) (auto simp: deliver_signal_def handle_signal_def Let_def
        load_config_daemonized split: if_splits)
  with Cons show ?case by (auto split: option.splits)
qed simp

lemma main_wait_daemonized:
  "main_wait fs turns p = Some (b, p') \<Longrightarrow> rundaemonized (conf (globs p')) = rundaemonized (conf (globs p))"
  by (induction fs turns p rule: main_wait.induct)
    (auto simp: wait_for_def Let_def dest: deliver_signals_daemonized split: option.splits if_splits)

section \<open>The output thread ends\<close>

text \<open>All messages that come into the queue while the thread lives.\<close>

definition total_messages :: "'z turn list \<Rightarrow> nat" where
  "total_messages turns =
     sum_list (map (\<lambda>t. length (tn_arrivals t) + length (concat (map arrivals (tn_readings t)))) turns)"

text \<open>The inner loop ends when the pool has capacity in as many passes as there are messages.\<close>

lemma dispatch_ends:
  assumes "length (queue q) + length (concat (map arrivals rs)) \<le> length (filter capacity rs)"
  shows "\<exists>q' ts'. dispatch_messages c rs q ts = Inr (True, q', ts') \<and> queue q' = []"
proof -
  obtain b q' popped k where d: "dispatch_messages c rs q ts = Inr (b, q', ts @ filter (retry_allowed c) popped)"
    "popped @ queue q' = queue q @ concat (map arrivals (take k rs))"
    "length popped = length (filter capacity (take k rs))"
    "if b then queue q' = [] else queue q' \<noteq> [] \<and> rs = take k rs"
    using dispatch_result by blast
  have b
  proof (rule ccontr)
    assume "\<not> b"
    with d(4) have "0 < length (queue q')" "take k rs = rs" by simp_all
    moreover from this d(2) have "length popped + length (queue q')
        = length (queue q) + length (concat (map arrivals rs))"
      by (metis length_append)
    ultimately show False using d(3) assms by (simp del: length_greater_0_conv)
  qed
  with d show ?thesis by auto
qed

lemma setupPool_good:
  assumes "\<forall>h. dbh = Some h \<longrightarrow> lh_ok h"
  shows "\<exists>e dbh' w'. setupPool z waited has_pool dbh w = Inr (e, dbh', w')
    \<and> (\<forall>h. dbh' = Some h \<longrightarrow> lh_ok h)"
proof (cases dbh)
  case (Some h)
  define w1 where "w1 = (if has_pool then waited w else w)"
  have "setupPool z waited has_pool dbh w = (case connect z h w1 of
      Inl e \<Rightarrow> Inl e | Inr (e, h, w) \<Rightarrow> Inr (e, Some h, w))"
    unfolding setupPool_def Let_def w1_def Some by simp
  with Some assms good_connect_connect [of h z w1] show ?thesis
    by (auto simp: good_connect_def split: sum.splits prod.splits)
qed (simp add: setupPool_def)

lemma main_body_ends:
  assumes "\<forall>h. os_dbh s = Some h \<longrightarrow> lh_ok h"
    and "length (queue (os_queue s)) + length (concat (map arrivals rs)) \<le> length (filter capacity rs)"
  shows "\<exists>s'. main_body z c waited has_pool has_threads rs s = Inr (True, s')
    \<and> (\<forall>h. os_dbh s' = Some h \<longrightarrow> lh_ok h) \<and> length (queue (os_queue s')) \<le> length (queue (os_queue s))"
proof (cases "case os_dbh s of None \<Rightarrow> True | Some h \<Rightarrow> \<not> hasConnectionPool h")
  case True
  with setupPool_good [OF assms(1), of z waited has_pool "os_world s"] show ?thesis
    by (auto simp: main_body_def)
next
  case False
  with dispatch_ends [OF assms(2), of c "os_tasks s"] assms(1) show ?thesis
    by (auto simp: main_body_def)
qed

lemma thread_loop_ends:
  assumes "\<exists>t\<in>set turns. tn_stop t" and "\<forall>h. os_dbh s = Some h \<longrightarrow> lh_ok h"
    and "length (queue (os_queue s)) + total_messages turns \<le> m"
    and "\<forall>t\<in>set turns. m \<le> length (filter capacity (tn_readings t))"
  shows "\<exists>s'. thread_loop z c has_pool has_threads turns s = Inr (True, s')"
  using assms
proof (induction turns arbitrary: s)
  case (Cons t turns)
  let ?s = "s\<lparr>os_queue := fold lq_push (tn_arrivals t) (os_queue s)\<rparr>"
  have len: "length (queue (os_queue ?s)) + length (concat (map arrivals (tn_readings t)))
      + total_messages turns \<le> m"
    using Cons.prems(3) by (simp add: total_messages_def lq.content_fold_push)
  show ?case
  proof (cases "tn_stop t")
    case False
    obtain s1 where s1: "main_body z c (tn_waited t) has_pool has_threads (tn_readings t) ?s = Inr (True, s1)"
      "\<forall>h. os_dbh s1 = Some h \<longrightarrow> lh_ok h" "length (queue (os_queue s1)) \<le> length (queue (os_queue ?s))"
      using main_body_ends [of ?s "tn_readings t" z c "tn_waited t" has_pool has_threads]
        Cons.prems(2,4) len by auto
    have "\<exists>s'. thread_loop z c has_pool has_threads turns s1 = Inr (True, s')"
      using Cons.prems(1,4) False s1 len by (intro Cons.IH) auto
    with s1(1) False show ?thesis by (simp add: Let_def)
  qed (simp add: Let_def)
qed simp

lemma thread_main_ends:
  assumes "connect z (lh_new (Some c)) (waited1 w) = Inr (None, h, w1)"
    and "\<exists>t\<in>set turns. tn_stop t"
    and "\<forall>t\<in>set turns. total_messages turns \<le> length (filter capacity (tn_readings t))"
  shows "\<exists>s. thread_main z c True has_threads waited1 turns waited2 (output_start (main_create hw k c n) w)
    = Inr (Ended, s)"
proof -
  let ?s = "output_start (main_create hw k c n) w"
  have started: "setupPool z waited1 True (os_dbh ?s) (os_world ?s) = Inr (None, Some h, w1)"
    using assms(1) by (simp add: setupPool_def output_start_def main_create_def)
  have "lh_ok h"
    using good_connect_connect [of "lh_new (Some c)" z "waited1 w"] assms(1)
    by (simp add: good_connect_def lh_ok_def lh_new_def hasConnectionPool_def)
  then have "\<exists>s'. thread_loop z c True has_threads turns (?s\<lparr>os_dbh := Some h, os_world := w1\<rparr>) = Inr (True, s')"
    using assms(2,3) by (intro thread_loop_ends [where m = "total_messages turns"])
      (simp_all add: output_start_def main_create_def lq_new_def)
  with started show ?thesis by (auto simp: thread_main_def split: prod.split)
qed

text \<open>
  C11: a daemon that gets a SIGINT comes to its end. However it was started and whatever SIGHUP and SIGCHLD
  come before: if the turn of the first SIGINT brings no second one, libzdb throws nothing unknown at
  the first connection, the database pool has capacity for what is queued, the server's loop
  gets the request to stop and the handler of every client returns, then the output thread
  ends and \<open>main\<close> returns with success. The messages that came in are accounted for: in order, a
  first part was taken by the output thread, and the queries of all others are in the
  system log; and the lock file is gone.
\<close>

theorem daemon_stops_in_order:
  assumes "main_start fs calls args p0 = Runs p" and "rundaemonized (conf (globs p))"
    and "\<not> tw_stop (us_timer (main_unit p0))"
    and "dropWhile (\<lambda>ss. SIGINT \<notin> set ss) signals = ss # later" and "count_list ss SIGINT = 1"
    and "connect z (lh_new (Some c)) (waited1 w) = Inr (None, h, w1)"
    and "\<exists>t\<in>set turns. tn_stop t"
    and "\<forall>t\<in>set turns. total_messages turns \<le> length (filter capacity (tn_readings t))"
    and "\<exists>t\<in>set gturns. fst t \<or> fst (snd t)" and "\<forall>i. handler_returns (conns i)"
  shows "\<exists>handed lines p'. main_run z fs k c waited1 turns waited2 gturns conns signals late p
        (main_create hw k c n) w = Some (Inr (handed, 0, lines, p'))
    \<and> accounted c (main_arrived z c waited1 turns (main_create hw k c n) w) late handed lines
    \<and> PID_FILE (globs p') \<notin> set (pid_files p')"
proof -
  let ?a = "main_create hw k c n"
  have p: "int_handler p" "hup_handler p" "app_running p \<noteq> 0" "\<not> tw_stop (us_timer (main_unit p))"
    using assms(1-3) main_start_daemon_unit [OF assms(1)]
    by (auto simp: main_start_def dest!: parse_options_keeps daemonize_Runs
        split: option.splits if_splits outcome.splits)
  obtain p1 where p1: "main_wait fs signals p = Some (True, p1)"
    using main_wait_sigint [OF p(3,4,1,2), where fs = fs and turns = signals] assms(4,5) by auto
  obtain s where "thread_main z c True (0 < th_get_thread_count (ap_db_pool ?a)) waited1 turns waited2
      (output_start ?a w) = Inr (Ended, s)"
    using thread_main_ends [of z c waited1 w h w1 turns, OF assms(6-8)] by blast
  with p1 main_wait_daemonized [OF p1] assms(2) input_ends_if [OF assms(9,10), of k c "ap_input ?a"]
  obtain lines p' where
    run: "main_run z fs k c waited1 turns waited2 gturns conns signals late p ?a w
        = Some (Inr (os_tasks s, 0, lines, p'))"
      "PID_FILE (globs p') \<notin> set (pid_files p')"
    by (simp add: main_run_def main_finish_def drain_result)
  from main_run_accounts [OF run(1)] run show ?thesis by blast
qed

definition last_turn :: "lab turn" where
  "last_turn = stop_turn\<lparr>tn_readings := [free_reading]\<rparr>"

theorem daemon_stops_in_order_witness:
  "\<exists>k (n :: unit net) handed lines p'.
     main_run (lab_outside (\<lambda>_. None)) sample_fs k default_config id [last_turn] id stop_request sample_conns
       [[SIGHUP], [SIGINT, SIGCHLD]] [] sample_running (main_create 8 k default_config n) (lab_world 100 [] [])
       = Some (Inr (handed, 0, lines, p'))
     \<and> accounted default_config (main_arrived (lab_outside (\<lambda>_. None)) default_config id [last_turn]
         (main_create 8 k default_config n) (lab_world 100 [] [])) [] handed lines
     \<and> PID_FILE (globs p') \<notin> set (pid_files p')"
proof -
  obtain h w where con: "connect (lab_outside (\<lambda>_. None)) (lh_new (Some default_config))
      (id (lab_world 100 [] [])) = Inr (None, h, w)"
    using sample_connect by auto
  have "rundaemonized (conf (globs sample_running))" "\<not> tw_stop (us_timer (main_unit sample_process))"
    "dropWhile (\<lambda>ss. SIGINT \<notin> set ss) [[SIGHUP], [SIGINT, SIGCHLD]] = [SIGINT, SIGCHLD] # []"
    "count_list [SIGINT, SIGCHLD] SIGINT = 1" "\<exists>t\<in>set [last_turn]. tn_stop t"
    "\<forall>t\<in>set [last_turn]. total_messages [last_turn] \<le> length (filter capacity (tn_readings t))"
    "\<exists>t\<in>set stop_request. fst t \<or> fst (snd t)"
    by (simp_all add: sample_start Let_def sample_process_def statics_new_def tw_new_def
        last_turn_def stop_turn_def total_messages_def free_reading_capacity stop_request_def)
  from daemon_stops_in_order [where ?waited1.0 = id, OF conjunct1 [OF sample_start] this(1-4) con this(5-7)
      sample_conns_return]
  show ?thesis by metis
qed

end
