(* ===== verification/ParallelLoop.thy ===== *)
theory ParallelLoop
  imports ThreadPool
begin

text \<open>
  \<open>thread_pool::parallelize_loop\<close>: the calling thread pushes a task for each block of the index
  range and waits until the counter \<open>blocks_running\<close> is zero again. It runs beside the workers and
  other threads that use the pool: a task is a block (\<open>Inr\<close>) or a task of somebody else (\<open>Inl\<close>).
  The index type \<open>T\<close> is any of the integer types; the arithmetic on it is the machine's.
\<close>

section \<open>The index type\<close>

record index_type =
  it_width :: nat
  it_signed :: bool

definition it_min :: "index_type \<Rightarrow> int" where
  "it_min ty = (if it_signed ty then - (2 ^ (it_width ty - 1)) else 0)"

definition it_max :: "index_type \<Rightarrow> int" where
  "it_max ty = (if it_signed ty then 2 ^ (it_width ty - 1) - 1 else 2 ^ it_width ty - 1)"

text \<open>The conversion \<open>(T) x\<close>, which takes the low bits.\<close>

definition to_index :: "index_type \<Rightarrow> int \<Rightarrow> int" where
  "to_index ty x =
     (if it_signed ty then signed_take_bit (it_width ty - 1) x else take_bit (it_width ty) x)"

text \<open>
  Arithmetic on values of type \<open>T\<close> is done in \<open>int\<close> when \<open>T\<close> is narrower, else in \<open>T\<close>: with a
  signed type an overflow is undefined, with an unsigned one it wraps.
\<close>

definition promoted :: "index_type \<Rightarrow> index_type" where
  "promoted ty = (if it_width ty < 32 then \<lparr>it_width = 32, it_signed = True\<rparr> else ty)"

definition arith :: "index_type \<Rightarrow> int \<Rightarrow> ub + int" where
  "arith ty x =
     (if it_signed (promoted ty) then
        (if it_min (promoted ty) \<le> x \<and> x \<le> it_max (promoted ty) then Inr x else Inl SignedOverflow)
      else Inr (take_bit (it_width (promoted ty)) x))"

text \<open>\<open>i++\<close> on a variable of type \<open>T\<close>: arithmetic, then the conversion back.\<close>

definition increment :: "index_type \<Rightarrow> int \<Rightarrow> ub + int" where
  "increment ty i = map_sum id (to_index ty) (arith ty (i + 1))"

section \<open>The blocks\<close>

definition total_size :: "index_type \<Rightarrow> int \<Rightarrow> int \<Rightarrow> ub + u64" where
  "total_size ty first_index last_index =
     (case arith ty (last_index - first_index) of
        Inl u \<Rightarrow> Inl u
      | Inr d \<Rightarrow> map_sum id word_of_int (arith ty (d + 1)))"

text \<open>
  First and last index of each block. A range given backwards is swapped; \<open>threads\<close> is the number of
  threads, which replaces 0. The bounds are computed in \<open>size_t\<close> and converted to \<open>T\<close>.
\<close>

definition loop_blocks ::
  "index_type \<Rightarrow> u64 \<Rightarrow> int \<Rightarrow> int \<Rightarrow> u64 \<Rightarrow> ub + (int \<times> int) list" where
  "loop_blocks ty threads first_index last_index num_tasks =
     (let num_tasks = (if num_tasks = 0 then threads else num_tasks);
          (first_index, last_index) =
            (if last_index < first_index then (last_index, first_index)
             else (first_index, last_index))
      in case total_size ty first_index last_index of
           Inl u \<Rightarrow> Inl u
         | Inr range_size \<Rightarrow>
             if num_tasks = 0 then Inl DivisionByZero
             else
               (let (block_size, num_tasks) =
                      (if range_size div num_tasks = 0 then (1, if 1 < range_size then range_size else 1)
                       else (range_size div num_tasks, num_tasks))
                in Inr (map (\<lambda>t.
                     (to_index ty (uint (word_of_nat t * block_size + word_of_int first_index)),
                      if word_of_nat t = num_tasks - 1 then last_index
                      else to_index ty
                        (uint ((word_of_nat t + 1) * block_size + word_of_int first_index - 1))))
                   [0..<unat num_tasks])))"

text \<open>
  The loop of a block, \<open>for (T i = start; i <= end; i++)\<close>: the indices it calls \<open>loop\<close> with. \<open>None\<close>:
  it does not end.
\<close>

partial_function (option) block_loop :: "index_type \<Rightarrow> int \<Rightarrow> int \<Rightarrow> (ub + int list) option" where
  "block_loop ty i end_index =
     (if i \<le> end_index then
        (case increment ty i of
           Inl u \<Rightarrow> Some (Inl u)
         | Inr j \<Rightarrow> Option.bind (block_loop ty j end_index) (\<lambda>r. Some (map_sum id (Cons i) r)))
      else Some (Inr []))"

text \<open>The indices of a block whose loop ends as it should.\<close>

definition block_indices :: "index_type \<Rightarrow> int \<times> int \<Rightarrow> int list" where
  "block_indices ty b = (case block_loop ty (fst b) (snd b) of Some (Inr is) \<Rightarrow> is | _ \<Rightarrow> [])"

definition block_ends :: "index_type \<Rightarrow> int \<times> int \<Rightarrow> bool" where
  "block_ends ty b = (case block_loop ty (fst b) (snd b) of Some (Inr _) \<Rightarrow> True | _ \<Rightarrow> False)"

section \<open>A range below the end of the type\<close>

definition machine_type :: "index_type \<Rightarrow> bool" where
  "machine_type ty \<longleftrightarrow> it_width ty \<in> {8, 16, 32, 64}"

definition in_type :: "index_type \<Rightarrow> int \<Rightarrow> bool" where
  "in_type ty i \<longleftrightarrow> it_min ty \<le> i \<and> i \<le> it_max ty"

lemma to_index_in_type: "machine_type ty \<Longrightarrow> in_type ty i \<Longrightarrow> to_index ty i = i"
  by (auto simp: machine_type_def in_type_def it_min_def it_max_def to_index_def
      signed_take_bit_int_eq_self take_bit_int_eq_self)

text \<open>Computed in \<open>size_t\<close> a bound is right although the intermediate values may wrap.\<close>

lemma to_index_word:
  assumes "machine_type ty" and "in_type ty i"
  shows "to_index ty (uint (word_of_int i :: u64)) = i"
proof -
  have "to_index ty (take_bit 64 i) = to_index ty i"
    using assms(1)
    by (auto simp: to_index_def machine_type_def signed_take_bit_take_bit min_def)
  with to_index_in_type [OF assms] show ?thesis by (simp add: uint_word_of_int take_bit_eq_mod)
qed

lemma increment_below:
  assumes "machine_type ty" and "in_type ty i" and "i < it_max ty"
  shows "increment ty i = Inr (i + 1)"
proof -
  have "in_type ty (i + 1)" using assms(2,3) by (simp add: in_type_def)
  moreover have "arith ty (i + 1) = Inr (i + 1)"
    using assms
    by (auto simp: arith_def promoted_def machine_type_def in_type_def it_min_def it_max_def
        take_bit_int_eq_self split: if_splits)
  ultimately show ?thesis using to_index_in_type [OF assms(1)] by (simp add: increment_def)
qed

lemma block_loop_below:
  assumes "machine_type ty" and "in_type ty i" and "end_index < it_max ty"
  shows "block_loop ty i end_index = Some (Inr [i..end_index])"
  using assms(2)
proof (induction "nat (end_index + 1 - i)" arbitrary: i)
  case 0
  then show ?case by (simp add: block_loop.simps [of ty i])
next
  case (Suc n)
  show ?case
  proof (cases "i \<le> end_index")
    case True
    then have "i < it_max ty" using assms(3) by simp
    moreover have "block_loop ty (i + 1) end_index = Some (Inr [i + 1..end_index])"
      using Suc.hyps(2) Suc.prems \<open>i < it_max ty\<close> by (intro Suc.hyps(1)) (auto simp: in_type_def)
    ultimately show ?thesis
      using True increment_below [OF assms(1) Suc.prems]
      by (simp add: block_loop.simps [of ty i] upto_rec1)
  qed (simp add: block_loop.simps [of ty i])
qed

text \<open>
  A block that ends with the last value of its type never sees an index behind it: where \<open>i++\<close>
  wraps the loop does not end, and for a signed type of full width the increment is undefined.
\<close>

lemma increment_max:
  assumes "machine_type ty"
  shows "increment ty (it_max ty) =
    (if it_signed ty \<and> 32 \<le> it_width ty then Inl SignedOverflow else Inr (it_min ty))"
  using assms
  by (auto simp: increment_def arith_def promoted_def machine_type_def it_min_def it_max_def
      to_index_def signed_take_bit_eq_if_negative)

lemma increment_in_type:
  "machine_type ty \<Longrightarrow> in_type ty i \<Longrightarrow> \<not> (it_signed ty \<and> 32 \<le> it_width ty) \<Longrightarrow>
   \<exists>j. increment ty i = Inr j \<and> in_type ty j"
proof (cases "i = it_max ty")
  case True
  assume "machine_type ty" "\<not> (it_signed ty \<and> 32 \<le> it_width ty)"
  with True show ?thesis
    using increment_max [of ty]
    by (intro exI [of _ "it_min ty"]) (auto simp: in_type_def it_min_def it_max_def)
next
  case False
  assume "machine_type ty" "in_type ty i"
  with False show ?thesis
    using increment_below [of ty i] by (intro exI [of _ "i + 1"]) (simp add: in_type_def)
qed

lemma block_loop_endless:
  assumes "machine_type ty" and "\<not> (it_signed ty \<and> 32 \<le> it_width ty)" and "in_type ty i"
  shows "block_loop ty i (it_max ty) = None"
proof -
  have "\<not> (in_type ty i \<and> e = it_max ty)" if "block_loop ty i e = Some r" for i e r
    using that
  proof (rule block_loop.raw_induct
      [where P = "\<lambda>ty' i e r. ty' = ty \<longrightarrow> \<not> (in_type ty i \<and> e = it_max ty)", rule_format, rotated])
    fix f ty' i e r
    assume IH: "\<And>ty' i e r. f ty' i e = Some r \<Longrightarrow> ty' = ty \<Longrightarrow> \<not> (in_type ty i \<and> e = it_max ty)"
      and eq: "(if i \<le> e then
          (case increment ty' i of Inl u \<Rightarrow> Some (Inl u)
           | Inr j \<Rightarrow> Option.bind (f ty' j e) (\<lambda>r. Some (map_sum id (Cons i) r)))
         else Some (Inr [])) = Some r" and ty': "ty' = ty"
    show "\<not> (in_type ty i \<and> e = it_max ty)"
    proof
      assume i: "in_type ty i \<and> e = it_max ty"
      then obtain j where j: "increment ty i = Inr j" "in_type ty j"
        using increment_in_type [OF assms(1) _ assms(2)] by blast
      with eq i ty' obtain r' where "f ty j e = Some r'" by (auto simp: in_type_def bind_eq_Some_conv)
      from IH [OF this refl] i j(2) show False by blast
    qed
  qed simp
  with assms(3) show ?thesis by (metis option.exhaust)
qed

lemma block_loop_overflow:
  assumes "machine_type ty" and "it_signed ty" and "32 \<le> it_width ty" and "in_type ty i"
  shows "block_loop ty i (it_max ty) = Some (Inl SignedOverflow)"
  using assms(4)
proof (induction "nat (it_max ty - i)" arbitrary: i)
  case 0
  then have "i = it_max ty" by (simp add: in_type_def)
  then show ?case
    using increment_max [OF assms(1)] assms(2,3) by (simp add: block_loop.simps [of ty "it_max ty"])
next
  case (Suc n)
  then have "i < it_max ty" by simp
  moreover have "block_loop ty (i + 1) (it_max ty) = Some (Inl SignedOverflow)"
    using Suc.hyps(2) Suc.prems \<open>i < it_max ty\<close> by (intro Suc.hyps(1)) (auto simp: in_type_def)
  ultimately show ?case
    using increment_below [OF assms(1) Suc.prems] by (simp add: block_loop.simps [of ty i])
qed

text \<open>
  C23: a range that ends with the last value of its type is not handled. The loop of its last block tests
  \<open>i <= end\<close>, which holds for every value of the type: from wherever it starts, it never ends, or, for a
  signed type as wide as \<open>int\<close> or wider, comes to an increment that is undefined.
\<close>

theorem last_value_never_passed:
  assumes "machine_type ty" and "in_type ty i"
  shows "block_loop ty i (it_max ty) =
    (if it_signed ty \<and> 32 \<le> it_width ty then Some (Inl SignedOverflow) else None)"
  using block_loop_endless [OF assms(1) _ assms(2)] block_loop_overflow [OF assms(1) _ _ assms(2)] by simp

theorem last_value_never_passed_witness:
  "block_loop \<lparr>it_width = 8, it_signed = False\<rparr> 0 255 = None"
  using last_value_never_passed [of "\<lparr>it_width = 8, it_signed = False\<rparr>" 0]
  by (simp add: machine_type_def in_type_def it_min_def it_max_def)

lemma upto_blocks:
  "concat (map (\<lambda>t. [int (t * b) + f..int ((t + 1) * b) + f - 1]) [0..<n])
     = [f..int (n * b) + f - 1]"
proof (induction n)
  case 0
  show ?case by simp
next
  case (Suc n)
  have "[f..int ((n + 1) * b) + f - 1] =
      [f..int (n * b) + f - 1] @ [int (n * b) + f..int ((n + 1) * b) + f - 1]"
  proof (cases "b = 0")
    case False
    then have "f \<le> int (n * b) + f" "int (n * b) + f \<le> int ((n + 1) * b) + f - 1"
      by (simp_all add: algebra_simps)
    then show ?thesis by (rule upto_split1)
  qed simp
  with Suc show ?case by simp
qed

lemma arith_fits:
  assumes "0 \<le> x" and max: "x \<le> it_max (promoted ty)"
  shows "arith ty x = Inr x"
proof -
  have "it_min (promoted ty) \<le> 0" by (simp add: it_min_def)
  moreover have "take_bit (it_width (promoted ty)) x = x" if "\<not> it_signed (promoted ty)"
    using that assms by (intro take_bit_int_eq_self) (simp_all add: it_max_def)
  ultimately show ?thesis using assms by (simp add: arith_def)
qed

lemma it_max_promoted: "machine_type ty \<Longrightarrow> it_max (promoted ty) < 2 ^ 64"
  by (auto simp: machine_type_def promoted_def it_max_def)

lemma total_size_fits:
  assumes "first_index \<le> last_index" and "last_index - first_index < it_max (promoted ty)"
  shows "total_size ty first_index last_index = Inr (word_of_int (last_index - first_index + 1))"
  using assms by (simp add: total_size_def arith_fits)

text \<open>The blocks in exact arithmetic, for \<open>k\<close> blocks of size \<open>b\<close>.\<close>

definition exact_blocks :: "int \<Rightarrow> int \<Rightarrow> nat \<Rightarrow> nat \<Rightarrow> (int \<times> int) list" where
  "exact_blocks f l b k =
     map (\<lambda>t. (int (t * b) + f, if t = k - 1 then l else int ((t + 1) * b) + f - 1)) [0..<k]"

lemma exact_blocks_within:
  assumes "0 < b" and "int (k * b) \<le> l - f + 1" and "x \<in> set (exact_blocks f l b k)"
  shows "f \<le> fst x \<and> fst x \<le> l \<and> f \<le> snd x \<and> snd x \<le> l"
proof -
  obtain t where t: "t < k" "x = (int (t * b) + f, if t = k - 1 then l else int ((t + 1) * b) + f - 1)"
    using assms(3) by (auto simp: exact_blocks_def)
  have "(t + 1) * b \<le> k * b" using t(1) by (intro mult_le_mono1) simp
  then have le: "int ((t + 1) * b) \<le> l - f + 1" using assms(2) by linarith
  have "t * b + 1 \<le> (t + 1) * b" using assms(1) by simp
  then have "int (t * b + 1) \<le> int ((t + 1) * b)" by (simp only: of_nat_le_iff)
  with le have "f \<le> int (t * b) + f" "int (t * b) + f \<le> l" "f \<le> int ((t + 1) * b) + f - 1"
    "int ((t + 1) * b) + f - 1 \<le> l" by (simp_all del: of_nat_mult)
  then show ?thesis using t(2) by (auto simp del: of_nat_mult)
qed

lemma concat_exact_blocks:
  assumes "0 < b" and "0 < k" and "int (k * b) \<le> l - f + 1"
  shows "concat (map (\<lambda>x. [fst x..snd x]) (exact_blocks f l b k)) = [f..l]"
proof -
  have "exact_blocks f l b k = map (\<lambda>t. (int (t * b) + f, int ((t + 1) * b) + f - 1)) [0..<k - 1]
      @ [(int ((k - 1) * b) + f, l)]"
    using assms(2) by (cases k) (simp_all add: exact_blocks_def)
  then have "concat (map (\<lambda>x. [fst x..snd x]) (exact_blocks f l b k)) =
      [f..int ((k - 1) * b) + f - 1] @ [int ((k - 1) * b) + f..l]"
    using upto_blocks [of b f "k - 1"] by (simp add: comp_def)
  also have "\<dots> = [f..l]"
  proof (rule upto_split1 [symmetric])
    have "(k - 1) * b < k * b" using assms(1,2) by simp
    then have "int ((k - 1) * b) < int (k * b)" by (simp only: of_nat_less_iff)
    with assms(3) show "int ((k - 1) * b) + f \<le> l" by linarith
  qed simp
  finally show ?thesis .
qed

text \<open>
  In the machine's arithmetic the blocks are the same, when the range and its size fit. The number of
  tasks is replaced as in the code: by the number of threads, then by the size of the range.
\<close>

lemma loop_blocks_exact:
  assumes ty: "machine_type ty" and "in_type ty first_index" and "in_type ty last_index"
    and "f = min first_index last_index" and "l = max first_index last_index"
    and "l - f < it_max (promoted ty)" and "0 < threads"
  shows "\<exists>b k. loop_blocks ty threads first_index last_index num_tasks = Inr (exact_blocks f l b k)
    \<and> 0 < b \<and> 0 < k \<and> int (k * b) \<le> l - f + 1 \<and> k < 2 ^ 64"
proof -
  define n where "n = (if num_tasks = 0 then threads else num_tasks)"
  define size where "size = nat (l - f + 1)"
  define range_size :: u64 where "range_size = word_of_nat size"
  define bs where "bs = (if range_size div n = 0 then 1 else range_size div n)"
  define ks where "ks = (if range_size div n = 0 then range_size else n)"
  define b where "b = unat bs"
  define k where "k = unat ks"
  have fl: "f \<le> l" "in_type ty f" "in_type ty l" using assms(2-5) by (auto simp: min_def max_def)
  have "int size < 2 ^ 64"
    using assms(6) it_max_promoted [OF ty] fl(1) by (simp add: size_def)
  then have "size < 2 ^ 64" by simp
  then have "unat range_size = size"
    unfolding range_size_def by (simp add: unat_of_nat take_bit_nat_eq_self)
  moreover have "0 < size" using fl(1) by (simp add: size_def)
  ultimately have size: "unat range_size = size" "0 < size" .
  have n: "0 < unat n" using assms(7) by (simp add: n_def word_neq_0_conv unat_gt_0)
  have div: "unat (range_size div n) = size div unat n" by (simp add: unat_div size)
  then have zero: "range_size div n = 0 \<longleftrightarrow> size div unat n = 0" by (metis unat_0 unat_eq_0)
  have bk: "0 < b" "0 < k" "k * b \<le> size"
    using size n div zero by (auto simp: b_def k_def bs_def ks_def unat_gt_0)
  have k64: "k < 2 ^ 64" using unsigned_less [of ks] by (auto simp: k_def)
  have "int (k * b) \<le> int size" using bk(3) by (simp only: of_nat_le_iff)
  then have kb: "int (k * b) \<le> l - f + 1" using fl(1) by (simp add: size_def del: of_nat_mult)
  have "map (\<lambda>t. (to_index ty (uint (word_of_nat t * bs + word_of_int f)),
       if word_of_nat t = ks - 1 then l
       else to_index ty (uint ((word_of_nat t + 1) * bs + word_of_int f - 1)))) [0..<k]
    = exact_blocks f l b k"
    unfolding exact_blocks_def
  proof (rule map_cong [OF refl])
    fix t
    assume "t \<in> set [0..<k]"
    then have t: "t < k" by simp
    have "unat (word_of_nat t :: u64) = t" using t k64 by (simp add: unat_of_nat take_bit_nat_eq_self)
    moreover have "unat (ks - 1) = k - 1"
      using bk(2) by (simp add: k_def unat_gt_0 unat_minus_one)
    ultimately have last: "word_of_nat t = ks - 1 \<longleftrightarrow> t = k - 1" by (metis word_unat_eq_iff)
    have "(int (t * b) + f, if t = k - 1 then l else int ((t + 1) * b) + f - 1)
        \<in> set (exact_blocks f l b k)"
      unfolding exact_blocks_def set_map by (rule image_eqI [OF refl]) (simp add: t)
    from exact_blocks_within [OF bk(1) kb this] fl
    have x: "in_type ty (int (t * b) + f) \<and> (t \<noteq> k - 1 \<longrightarrow> in_type ty (int ((t + 1) * b) + f - 1))"
      by (auto simp: in_type_def simp del: of_nat_mult)
    have bs: "bs = word_of_int (int b)" by (simp add: b_def)
    have w: "word_of_nat t * bs + word_of_int f = (word_of_int (int (t * b) + f) :: u64)"
      "(word_of_nat t + 1) * bs + word_of_int f - 1 = (word_of_int (int ((t + 1) * b) + f - 1) :: u64)"
      unfolding bs by (simp_all add: algebra_simps)
    show "(to_index ty (uint (word_of_nat t * bs + word_of_int f)),
       if word_of_nat t = ks - 1 then l
       else to_index ty (uint ((word_of_nat t + 1) * bs + word_of_int f - 1)))
      = (int (t * b) + f, if t = k - 1 then l else int ((t + 1) * b) + f - 1)"
      unfolding w last
      using x to_index_word [OF ty, of "int (t * b) + f"] to_index_word [OF ty, of "int ((t + 1) * b) + f - 1"]
      by (auto simp only: prod.inject split: if_split)
  qed
  moreover have "loop_blocks ty threads first_index last_index num_tasks =
      Inr (map (\<lambda>t. (to_index ty (uint (word_of_nat t * bs + word_of_int f)),
       if word_of_nat t = ks - 1 then l
       else to_index ty (uint ((word_of_nat t + 1) * bs + word_of_int f - 1)))) [0..<k])"
  proof -
    have swap: "(if last_index < first_index then (last_index, first_index)
        else (first_index, last_index)) = (f, l)" using assms(4,5) by (simp add: min_def max_def)
    have "total_size ty f l = Inr range_size"
      using total_size_fits [OF fl(1) assms(6)] fl(1)
      by (simp add: range_size_def size_def)
    moreover have "(if range_size div n = 0 then (1, if 1 < range_size then range_size else 1)
        else (range_size div n, n)) = (bs, ks)"
    proof -
      have "range_size \<noteq> 0" using size by auto
      then have "1 < range_size \<or> range_size = 1"
        by (metis linorder_neqE_nat less_one size(1,2) unat_1 word_less_nat_alt word_unat_eq_iff less_numeral_extra(3))
      then show ?thesis by (auto simp: bs_def ks_def)
    qed
    moreover have "n \<noteq> 0" using n by auto
    ultimately show ?thesis
      unfolding loop_blocks_def Let_def n_def [symmetric] swap k_def by simp
  qed
  ultimately have "loop_blocks ty threads first_index last_index num_tasks = Inr (exact_blocks f l b k)"
    by (simp only:)
  with bk(1,2) kb k64 show ?thesis by blast
qed

lemma block_indices_below:
  assumes "machine_type ty" and "in_type ty (fst x)" and "snd x < it_max ty"
  shows "block_indices ty x = [fst x..snd x] \<and> block_ends ty x"
  by (simp add: block_indices_def block_ends_def block_loop_below [OF assms])

text \<open>
  \<open>parallelize_loop\<close> runs the loop body exactly once for every index of the range, whatever
  the number of tasks and of threads: the blocks, one after the other, are the range in order, and
  the loop of each ends.
\<close>

lemma loop_blocks_cover:
  assumes "machine_type ty" and "in_type ty first_index" and "in_type ty last_index"
    and "f = min first_index last_index" and "l = max first_index last_index"
    and "l < it_max ty" and "l - f < it_max (promoted ty)" and "0 < threads"
  shows "\<exists>blocks. loop_blocks ty threads first_index last_index num_tasks = Inr blocks
    \<and> concat (map (block_indices ty) blocks) = [f..l] \<and> (\<forall>x\<in>set blocks. block_ends ty x)
    \<and> length blocks < 2 ^ 64"
proof -
  obtain b k where blocks: "loop_blocks ty threads first_index last_index num_tasks = Inr (exact_blocks f l b k)"
    and bk: "0 < b" "0 < k" "int (k * b) \<le> l - f + 1" "k < 2 ^ 64"
    using loop_blocks_exact [OF assms(1-5,7,8)] by blast
  have f: "it_min ty \<le> f" using assms(2-4) by (simp add: in_type_def)
  have each: "block_indices ty x = [fst x..snd x] \<and> block_ends ty x" if "x \<in> set (exact_blocks f l b k)" for x
    using exact_blocks_within [OF bk(1,3) that] f assms(6)
    by (intro block_indices_below [OF assms(1)]) (simp_all add: in_type_def)
  then have "map (block_indices ty) (exact_blocks f l b k) = map (\<lambda>x. [fst x..snd x]) (exact_blocks f l b k)"
    by simp
  with concat_exact_blocks [OF bk(1-3)]
  have "concat (map (block_indices ty) (exact_blocks f l b k)) = [f..l]" by (simp only:)
  moreover have "length (exact_blocks f l b k) < 2 ^ 64" using bk(4) by (simp add: exact_blocks_def)
  ultimately show ?thesis using blocks each by blast
qed

section \<open>The program\<close>

text \<open>
  \<open>lp_next\<close> is \<open>t\<close>, the number of the next block; \<open>lp_counted\<close>: its counter has been incremented
  and the task not yet pushed. \<open>lp_looped\<close> records the indices \<open>loop\<close> has been called with.
\<close>

record 'a parallel_loop =
  lp_pool :: "('a + (int \<times> int)) thread_pool"
  lp_next :: nat
  lp_counted :: bool
  lp_blocks_running :: u64
  lp_looped :: "int multiset"
  lp_done :: bool

definition lp_start :: "('a + (int \<times> int)) thread_pool \<Rightarrow> 'a parallel_loop" where
  "lp_start p =
     \<lparr>lp_pool = p, lp_next = 0, lp_counted = False, lp_blocks_running = 0, lp_looped = {#},
      lp_done = False\<rparr>"

text \<open>The end of a task: a block has called \<open>loop\<close> for its indices and decrements the counter.\<close>

fun lp_run :: "index_type \<Rightarrow> 'a + (int \<times> int) \<Rightarrow> 'a parallel_loop \<Rightarrow> 'a parallel_loop" where
  "lp_run ty (Inl t) s = s"
| "lp_run ty (Inr b) s = s\<lparr>lp_looped := lp_looped s + mset (block_indices ty b),
                         lp_blocks_running := lp_blocks_running s - 1\<rparr>"

text \<open>A block whose loop does not end, or is undefined, never comes to its end.\<close>

inductive lp_step ::
  "index_type \<Rightarrow> (int \<times> int) list \<Rightarrow> 'a parallel_loop \<Rightarrow> 'a parallel_loop \<Rightarrow> bool"
  for ty blocks where
  Count: "lp_next s < length blocks \<Longrightarrow> \<not> lp_counted s \<Longrightarrow>
     lp_step ty blocks s (s\<lparr>lp_blocks_running := lp_blocks_running s + 1, lp_counted := True\<rparr>)"
| Push: "lp_next s < length blocks \<Longrightarrow> lp_counted s \<Longrightarrow>
     lp_step ty blocks s (s\<lparr>lp_pool := push_begin (Inr (blocks ! lp_next s)) (lp_pool s),
       lp_next := lp_next s + 1, lp_counted := False\<rparr>)"
| Pushed: "k < length (pushing (lp_pool s)) \<Longrightarrow>
     lp_step ty blocks s (s\<lparr>lp_pool := push_end k (lp_pool s)\<rparr>)"
| Finish: "lp_next s = length blocks \<Longrightarrow> lp_blocks_running s = 0 \<Longrightarrow>
     lp_step ty blocks s (s\<lparr>lp_done := True\<rparr>)"
| Other: "lp_step ty blocks s (s\<lparr>lp_pool := push_begin (Inl t) (lp_pool s)\<rparr>)"
| Worker: "i < length (workers (lp_pool s)) \<Longrightarrow> \<not> in_task (workers (lp_pool s) ! i) \<Longrightarrow>
     lp_step ty blocks s (s\<lparr>lp_pool := worker_step i (lp_pool s)\<rparr>)"
| Run: "i < length (workers (lp_pool s)) \<Longrightarrow> workers (lp_pool s) ! i = InTask t \<Longrightarrow>
     (case t of Inl _ \<Rightarrow> True | Inr b \<Rightarrow> block_ends ty b) \<Longrightarrow>
     lp_step ty blocks s (lp_run ty t (s\<lparr>lp_pool := worker_step i (lp_pool s)\<rparr>))"

section \<open>The blocks that have not run\<close>

fun block_of :: "'a + (int \<times> int) \<Rightarrow> (int \<times> int) multiset" where
  "block_of (Inl t) = {#}"
| "block_of (Inr b) = {#b#}"

definition blocks_in :: "('a + (int \<times> int)) thread_pool \<Rightarrow> (int \<times> int) multiset" where
  "blocks_in p = (\<Sum>t\<in>#pending_tasks p. block_of t)"

text \<open>
  The blocks pushed so far have run or wait in the pool; the counter counts those that wait, and
  the one about to be pushed; when the loop is done all have run.
\<close>

definition lp_inv :: "index_type \<Rightarrow> (int \<times> int) list \<Rightarrow> 'a parallel_loop \<Rightarrow> bool" where
  "lp_inv ty blocks s \<longleftrightarrow> lp_next s \<le> length blocks
     \<and> lp_blocks_running s
         = word_of_nat (size (blocks_in (lp_pool s)) + (if lp_counted s then 1 else 0))
     \<and> (\<exists>ran. mset (take (lp_next s) blocks) = blocks_in (lp_pool s) + ran
          \<and> lp_looped s = (\<Sum>b\<in>#ran. mset (block_indices ty b)))
     \<and> (lp_counted s \<longrightarrow> lp_next s < length blocks)
     \<and> (lp_done s \<longrightarrow> lp_next s = length blocks \<and> blocks_in (lp_pool s) = {#})"

lemma blocks_in_push_begin: "blocks_in (push_begin t p) = block_of t + blocks_in p"
  by (simp add: blocks_in_def pending_push_begin)

lemma blocks_in_push_end: "k < length (pushing p) \<Longrightarrow> blocks_in (push_end k p) = blocks_in p"
  by (simp add: blocks_in_def pending_push_end)

lemma blocks_in_worker:
  "i < length (workers p) \<Longrightarrow> \<not> in_task (workers p ! i) \<Longrightarrow>
   blocks_in (worker_step i p) = blocks_in p"
  by (simp add: blocks_in_def pending_worker_step)

lemma blocks_in_run:
  "i < length (workers p) \<Longrightarrow> workers p ! i = InTask t \<Longrightarrow>
   blocks_in p = block_of t + blocks_in (worker_step i p)"
  by (simp add: blocks_in_def pending_run_task)

lemma lp_run_inv:
  assumes i: "i < length (workers (lp_pool s))" and t: "workers (lp_pool s) ! i = InTask t"
    and inv: "lp_inv ty blocks s"
  shows "lp_inv ty blocks (lp_run ty t (s\<lparr>lp_pool := worker_step i (lp_pool s)\<rparr>))"
proof (cases t)
  case (Inl x)
  with blocks_in_run [OF i t] inv show ?thesis by (simp add: lp_inv_def)
next
  case (Inr b)
  let ?left = "blocks_in (worker_step i (lp_pool s))"
  have left: "blocks_in (lp_pool s) = add_mset b ?left" using blocks_in_run [OF i t] Inr by simp
  obtain ran where ran: "mset (take (lp_next s) blocks) = add_mset b ?left + ran"
    "lp_looped s = (\<Sum>b\<in>#ran. mset (block_indices ty b))"
    using inv left by (auto simp: lp_inv_def)
  have "mset (take (lp_next s) blocks) = ?left + add_mset b ran"
    "lp_looped s + mset (block_indices ty b) = (\<Sum>b\<in>#add_mset b ran. mset (block_indices ty b))"
    using ran by simp_all
  then have "\<exists>ran. mset (take (lp_next s) blocks) = ?left + ran
      \<and> lp_looped s + mset (block_indices ty b) = (\<Sum>b\<in>#ran. mset (block_indices ty b))" by blast
  moreover have "\<not> lp_done s" using inv left by (auto simp: lp_inv_def)
  ultimately show ?thesis using inv Inr left by (simp add: lp_inv_def)
qed

lemma lp_push_inv:
  assumes "lp_next s < length blocks" and "lp_counted s" and inv: "lp_inv ty blocks s"
  shows "lp_inv ty blocks (s\<lparr>lp_pool := push_begin (Inr (blocks ! lp_next s)) (lp_pool s),
    lp_next := lp_next s + 1, lp_counted := False\<rparr>)"
proof -
  obtain ran where "mset (take (lp_next s) blocks) = blocks_in (lp_pool s) + ran"
    "lp_looped s = (\<Sum>b\<in>#ran. mset (block_indices ty b))"
    using inv by (auto simp: lp_inv_def)
  then have "\<exists>ran. mset (take (Suc (lp_next s)) blocks)
      = add_mset (blocks ! lp_next s) (blocks_in (lp_pool s)) + ran
    \<and> lp_looped s = (\<Sum>b\<in>#ran. mset (block_indices ty b))"
    using assms(1) by (auto simp: take_Suc_conv_app_nth)
  with assms show ?thesis by (auto simp: lp_inv_def blocks_in_push_begin)
qed

lemma counted_zero:
  assumes "size (M :: 'b multiset) \<le> n" and "n < 2 ^ 64" and "(word_of_nat (size M) :: u64) = 0"
  shows "M = {#}"
proof -
  have "unat (word_of_nat (size M) :: u64) = size M"
    using assms(1,2) by (simp add: unat_of_nat take_bit_nat_eq_self)
  with assms(3) show ?thesis by (metis unat_0 size_eq_0_iff_empty)
qed

lemma lp_finish_inv:
  assumes "lp_next s = length blocks" and "lp_blocks_running s = 0" and inv: "lp_inv ty blocks s"
    and "length blocks < 2 ^ 64"
  shows "lp_inv ty blocks (s\<lparr>lp_done := True\<rparr>)"
proof -
  have "\<not> lp_counted s" using inv assms(1) by (auto simp: lp_inv_def)
  with inv assms(2) have "(word_of_nat (size (blocks_in (lp_pool s))) :: u64) = 0"
    by (simp add: lp_inv_def)
  moreover obtain ran where "mset (take (lp_next s) blocks) = blocks_in (lp_pool s) + ran"
    using inv by (auto simp: lp_inv_def)
  then have "size (blocks_in (lp_pool s)) + size ran = size (mset (take (lp_next s) blocks))"
    by (simp only: size_union)
  then have "size (blocks_in (lp_pool s)) \<le> length blocks" by simp
  ultimately have "blocks_in (lp_pool s) = {#}" using counted_zero [OF _ assms(4)] by blast
  with inv assms(1) show ?thesis by (simp add: lp_inv_def)
qed

lemma lp_step_inv:
  assumes "lp_step ty blocks s s'" and "lp_inv ty blocks s" and "length blocks < 2 ^ 64"
  shows "lp_inv ty blocks s'"
  using assms(1,2)
proof (induction rule: lp_step.induct)
  case (Push s)
  then show ?case by (rule lp_push_inv)
next
  case (Finish s)
  then show ?case by (rule lp_finish_inv [OF _ _ _ assms(3)])
next
  case (Run i s t)
  show ?case by (rule lp_run_inv [OF Run.hyps(1,2) Run.prems])
qed (simp_all add: lp_inv_def blocks_in_push_begin blocks_in_push_end blocks_in_worker)

section \<open>The loop is the sequential one\<close>

definition loops :: "index_type \<Rightarrow> (int \<times> int) list \<Rightarrow> 'a parallel_loop \<Rightarrow> bool" where
  "loops ty blocks s \<longleftrightarrow> length blocks < 2 ^ 64 \<and> lp_inv ty blocks s"

interpretation loop: kept "lp_step ty blocks" "loops ty blocks" for ty blocks
  by unfold_locales (auto simp: loops_def intro: lp_step_inv)

lemma loops_start: "blocks_in p = {#} \<Longrightarrow> length blocks < 2 ^ 64 \<Longrightarrow> loops ty blocks (lp_start p)"
  by (simp add: loops_def lp_inv_def lp_start_def)

lemma sum_blocks: "(\<Sum>b\<in>#mset bs. mset (f b)) = mset (concat (map f bs))"
  by (induction bs) simp_all

lemma looped_all:
  assumes "(lp_step ty blocks)\<^sup>*\<^sup>* (lp_start p) s" and "blocks_in p = {#}" and "length blocks < 2 ^ 64"
    and "lp_done s"
  shows "lp_looped s = mset (concat (map (block_indices ty) blocks)) \<and> blocks_in (lp_pool s) = {#}"
proof -
  have inv: "lp_inv ty blocks s"
    using loop.always [OF assms(1) loops_start [OF assms(2,3)]] by (simp add: loops_def)
  then obtain ran where "mset (take (lp_next s) blocks) = blocks_in (lp_pool s) + ran"
    "lp_looped s = (\<Sum>b\<in>#ran. mset (block_indices ty b))"
    by (auto simp: lp_inv_def)
  moreover have "lp_next s = length blocks" "blocks_in (lp_pool s) = {#}"
    using inv assms(4) by (simp_all add: lp_inv_def)
  ultimately show ?thesis using sum_blocks [of "block_indices ty" blocks] by simp
qed

text \<open>
  C22: \<open>parallelize_loop\<close> is equivalent to the sequential loop, as its comment says, for every integer type
  in its own arithmetic, as long as the range ends before the last value of the type and its size
  fits into the type the size is computed in. The bounds of the blocks are then computed without undefined
  behaviour, and whatever the number of tasks and whatever the workers and other threads
  do, when the function returns \<open>loop\<close> has been called exactly once for every index of the range
  (given in either direction), and none of its blocks, which hold references into its frame, is left
  in the pool.
\<close>

theorem parallel_loop_is_loop:
  assumes "machine_type ty" and "in_type ty first_index" and "in_type ty last_index"
    and "max first_index last_index < it_max ty"
    and "max first_index last_index - min first_index last_index < it_max (promoted ty)"
    and "0 < get_thread_count p" and "get_thread_count p < 2 ^ 64" and "blocks_in p = {#}"
  shows "\<exists>blocks. loop_blocks ty (word_of_nat (get_thread_count p)) first_index last_index num_tasks = Inr blocks
    \<and> (\<forall>s. (lp_step ty blocks)\<^sup>*\<^sup>* (lp_start p) s \<and> lp_done s \<longrightarrow>
         lp_looped s = mset [min first_index last_index..max first_index last_index]
         \<and> blocks_in (lp_pool s) = {#})"
proof -
  have "unat (word_of_nat (get_thread_count p) :: u64) = get_thread_count p"
    using assms(7) by (simp add: unat_of_nat take_bit_nat_eq_self)
  then have "0 < (word_of_nat (get_thread_count p) :: u64)" using assms(6) by (simp add: word_less_nat_alt)
  from loop_blocks_cover [OF assms(1-3) refl refl assms(4,5) this, of num_tasks] obtain blocks where
    blocks: "loop_blocks ty (word_of_nat (get_thread_count p)) first_index last_index num_tasks = Inr blocks"
      "length blocks < 2 ^ 64"
    and cover: "concat (map (block_indices ty) blocks)
      = [min first_index last_index..max first_index last_index]" by blast
  have "lp_looped s = mset (concat (map (block_indices ty) blocks)) \<and> blocks_in (lp_pool s) = {#}"
    if "(lp_step ty blocks)\<^sup>*\<^sup>* (lp_start p) s" "lp_done s" for s
    by (rule looped_all [OF that(1) assms(8) blocks(2) that(2)])
  with blocks(1) cover show ?thesis by auto
qed

definition looping ::
  "nat \<Rightarrow> bool \<Rightarrow> u64 \<Rightarrow> int multiset \<Rightarrow> (unit + (int \<times> int)) thread_pool \<Rightarrow> unit parallel_loop" where
  "looping t c r l p =
     \<lparr>lp_pool = p, lp_next = t, lp_counted = c, lp_blocks_running = r, lp_looped = l,
      lp_done = False\<rparr>"

text \<open>A run of a loop over \<open>int\<close> from 2 to 1, in one block.\<close>

abbreviation c_int :: index_type where
  "c_int \<equiv> \<lparr>it_width = 32, it_signed = True\<rparr>"

lemma sample_blocks: "loop_blocks c_int 1 2 1 0 = Inr [(1, 2)]"
  by (simp add: loop_blocks_def total_size_def arith_def promoted_def it_min_def it_max_def to_index_def
      signed_take_bit_eq_if_positive)

lemma sample_block: "block_indices c_int (1, 2) = [1, 2]" "block_ends c_int (1, 2)"
  using block_indices_below [of c_int "(1, 2)"]
  by (simp_all add: machine_type_def in_type_def it_min_def it_max_def upto.simps)

lemma sample_looping:
  "(lp_step c_int [(1, 2)])\<^sup>*\<^sup>* (lp_start (pool_make 1 :: (unit + (int \<times> int)) thread_pool))
     (looping 1 False 1 {#} ((worker_step 0 ^^ 3) (push_end 0 (push_begin (Inr (1, 2)) (pool_make 1)))))"
proof -
  let ?p = "push_begin (Inr (1, 2)) (pool_make 1) :: (unit + (int \<times> int)) thread_pool"
  let ?q = "push_end 0 ?p"
  note run = converse_rtranclp_into_rtranclp [where r = "lp_step c_int [(1, 2)]"]
  have q: "workers ?q = [AtTest]" "workers (worker_step 0 ?q) = [AtPaused]"
    "workers (worker_step 0 (worker_step 0 ?q)) = [AtPop]"
    by (simp_all add: push_end_def push_begin_def pool_make_def worker_step_def set_worker_def)
  have 1: "lp_step c_int [(1, 2)] (lp_start (pool_make 1)) (looping 0 True 1 {#} (pool_make 1))"
    using Count [of "lp_start (pool_make 1)" "[(1, 2)]" c_int] by (simp add: lp_start_def looping_def)
  have 2: "lp_step c_int [(1, 2)] (looping 0 True 1 {#} (pool_make 1)) (looping 1 False 1 {#} ?p)"
    using Push [of "looping 0 True 1 {#} (pool_make 1)" "[(1, 2)]" c_int] by (simp add: looping_def)
  have 3: "lp_step c_int [(1, 2)] (looping 1 False 1 {#} ?p) (looping 1 False 1 {#} ?q)"
    using Pushed [of 0 "looping 1 False 1 {#} ?p" c_int "[(1, 2)]"]
    by (simp add: looping_def push_begin_def)
  have w: "lp_step c_int [(1, 2)] (looping 1 False 1 {#} p) (looping 1 False 1 {#} (worker_step 0 p))"
    if "workers p = [v]" "\<not> in_task v" for p v
    using Worker [of 0 "looping 1 False 1 {#} p" c_int "[(1, 2)]"] that by (simp add: looping_def)
  show ?thesis
    unfolding numeral_3_eq_3 funpow.simps comp_def id_apply
    by (rule run [OF 1 run [OF 2 run [OF 3 run [OF w [OF q(1)] run [OF w [OF q(2)]
      r_into_rtranclp [of "lp_step c_int [(1, 2)]", OF w [OF q(3)]]]]]]]) simp_all
qed

definition sample_looped :: "unit parallel_loop" where
  "sample_looped = (looping 1 False 0 {#1, 2#}
     ((worker_step 0 ^^ 4) (push_end 0 (push_begin (Inr (1, 2)) (pool_make 1)))))\<lparr>lp_done := True\<rparr>"

lemma sample_looped_steps: "(lp_step c_int [(1, 2)])\<^sup>*\<^sup>* (lp_start (pool_make 1)) sample_looped"
proof -
  let ?q = "(worker_step 0 ^^ 3) (push_end 0 (push_begin (Inr (1, 2)) (pool_make 1)))
    :: (unit + (int \<times> int)) thread_pool"
  have "workers ?q = [InTask (Inr (1, 2))]"
    by (simp add: numeral_3_eq_3 push_end_def push_begin_def pool_make_def worker_step_def
        set_worker_def pop_task_def)
  then have "lp_step c_int [(1, 2)] (looping 1 False 1 {#} ?q)
      (looping 1 False 0 {#1, 2#} (worker_step 0 ?q))"
    using Run [of 0 "looping 1 False 1 {#} ?q" "Inr (1, 2)" c_int "[(1, 2)]"]
    by (simp add: looping_def sample_block)
  moreover have "worker_step 0 ?q = (worker_step 0 ^^ 4) (push_end 0 (push_begin (Inr (1, 2)) (pool_make 1)))"
    by (simp add: numeral_eq_Suc)
  ultimately have "lp_step c_int [(1, 2)] (looping 1 False 1 {#} ?q) (looping 1 False 0 {#1, 2#}
      ((worker_step 0 ^^ 4) (push_end 0 (push_begin (Inr (1, 2)) (pool_make 1)))))"
    by simp
  moreover have "lp_step c_int [(1, 2)] (looping 1 False 0 {#1, 2#} p)
      ((looping 1 False 0 {#1, 2#} p)\<lparr>lp_done := True\<rparr>)" for p
    by (rule Finish) (simp_all add: looping_def)
  ultimately show ?thesis
    unfolding sample_looped_def
    using sample_looping by (meson rtranclp.rtrancl_into_rtrancl)
qed

theorem parallel_loop_is_loop_witness: "lp_looped sample_looped = mset [1..2]"
proof -
  let ?p = "pool_make 1 :: (unit + (int \<times> int)) thread_pool"
  have n: "get_thread_count ?p = 1" by (simp add: get_thread_count_def pool_make_def)
  have "blocks_in ?p = {#}" by (simp add: blocks_in_def pending_tasks_def pool_make_def)
  then obtain blocks where "loop_blocks c_int (word_of_nat (get_thread_count ?p)) 2 1 0 = Inr blocks"
    and all: "\<forall>s. (lp_step c_int blocks)\<^sup>*\<^sup>* (lp_start ?p) s \<and> lp_done s \<longrightarrow>
      lp_looped s = mset [min 2 1..max 2 1] \<and> blocks_in (lp_pool s) = {#}"
    using parallel_loop_is_loop [of c_int 2 1 ?p 0] n
    by (auto simp: machine_type_def in_type_def promoted_def it_min_def it_max_def)
  then have "blocks = [(1, 2)]" using sample_blocks n by simp
  with all sample_looped_steps show ?thesis by (auto simp: sample_looped_def)
qed

end
