(* ===== verification/Demos.thy ===== *)
theory Demos
  imports LockedQueue TimedWaiter TcpClient
begin

text \<open>
  The programs that show how the utilities are used, except for that of the daemon:
  \<^verbatim>\<open>src/src/utils/lockedqueue/main.cpp\<close>, \<^verbatim>\<open>src/src/utils/timedwaiter/main.cpp\<close> and
  \<^verbatim>\<open>src/src/utils/tcpclientserver/main.cpp\<close>, as programs over the models of the utilities. What they
  print is a list of lines, each a list of the items that are put on the stream.
\<close>

datatype item = Text string | Num int

section \<open>The queue\<close>

definition queue_demo_add :: "int \<Rightarrow> int locked_queue \<times> item list list \<Rightarrow> int locked_queue \<times> item list list"
  where
  "queue_demo_add i = (\<lambda>(q, out).
     let q = lq_push i q
     in (q, out @ [[Num (int (lq_size q)),
                    Text '' integers sitting in my bar, add one integer '']]))"

definition queue_demo :: "ub + (item list list \<times> int locked_queue)" where
  "queue_demo =
     (let q = lq_new;
          out = [[Text ''Hello, World!'']];
          out = (if lq_empty q then out @ [[Text ''my bag is empty, lets fill'']] else out);
          (q, out) = fold queue_demo_add [0..9] (q, out);
          out = out @ [[Num (int (lq_size q)), Text '' integers sitting in my bar''],
                       [Text ''take one integer'']]
      in case lq_pop q of
           Inl e \<Rightarrow> Inl e
         | Inr (taken, q) \<Rightarrow>
             Inr (out @ [[Num (int (lq_size q)),
                          Text '' integers sitting in my bar, last one gone was '', Num taken]],
                  lq_clear q))"

text \<open>The demo never pops an empty queue, takes the number it put in first and ends with an empty queue.\<close>

lemma queue_demo_adds:
  "fold queue_demo_add is (q, out) =
     (\<lparr>queue = queue q @ is\<rparr>,
      out @ map (\<lambda>n. [Num (int (length (queue q) + n + 1)),
                      Text '' integers sitting in my bar, add one integer '']) [0..<length is])"
proof (induction "is" arbitrary: q out)
  case (Cons i "is")
  have "map f [0..<Suc n] = f 0 # map (\<lambda>i. f (Suc i)) [0..<n]" for f :: "nat \<Rightarrow> item list" and n
    by (simp add: map_upt_Suc del: upt_Suc)
  moreover have "queue_demo_add i (q, out) = (\<lparr>queue = queue q @ [i]\<rparr>,
      out @ [[Num (int (length (queue q) + 1)), Text '' integers sitting in my bar, add one integer '']])"
    for i
    by (simp add: queue_demo_add_def Let_def lq_push_def lq_size_def)
  ultimately show ?case by (simp add: Cons del: upt_Suc)
qed simp

lemma queue_demo_ends:
  "\<exists>out. queue_demo =
     Inr (out @ [[Num 9, Text '' integers sitting in my bar, last one gone was '', Num 0]], lq_new)"
proof -
  have upto: "[0..9] = 0 # [1..9::int]" by (simp add: upto_rec1)
  have run: "\<exists>out'. fold queue_demo_add [0..9] (lq_new, out) = (\<lparr>queue = 0 # [1..9]\<rparr>, out')" for out
    unfolding queue_demo_adds by (simp add: upto lq_new_def)
  obtain out where "fold queue_demo_add [0..9]
      (lq_new, [[Text ''Hello, World!''], [Text ''my bag is empty, lets fill'']])
    = (\<lparr>queue = 0 # [1..9]\<rparr>, out)" using run by blast
  moreover have "lq_clear q = lq_new" for q :: "int locked_queue"
    by (simp add: lq_clear_empty lq_new_def locked_queue.equality)
  ultimately show ?thesis
    by (simp add: queue_demo_def Let_def lq_pop_def lq_size_def)
      (simp add: lq_empty_def lq_new_def)
qed

section \<open>The timer\<close>

record timer_demo =
  td_timer :: timed_waiter
  td_cancel :: bool

definition td_new :: timer_demo where
  "td_new = \<lparr>td_timer = tw_new, td_cancel = False\<rparr>"

text \<open>\<open>stop\<close> is two steps, between which the thread may run.\<close>

datatype stop_step = Set_cancel | Interrupt_timer

fun td_stop_step :: "stop_step \<Rightarrow> timer_demo \<Rightarrow> timer_demo" where
  "td_stop_step Set_cancel d = d\<lparr>td_cancel := True\<rparr>"
| "td_stop_step Interrupt_timer d = d\<lparr>td_timer := interrupt (td_timer d)\<rparr>"

definition td_stop :: "stop_step list" where
  "td_stop = [Set_cancel, Interrupt_timer]"

text \<open>
  \<open>main_loop\<close>: a turn says which steps of other threads fall into the wait and which between the wait
  and the look at \<open>cancel\<close>. The result says whether the loop has ended.
\<close>

fun td_main_loop ::
  "(stop_step list \<times> stop_step list) list \<Rightarrow> timer_demo \<Rightarrow> string list \<Rightarrow> bool \<times> string list" where
  "td_main_loop [] d out = (False, out)"
| "td_main_loop ((during, after) # turns) d out =
     (let d = fold td_stop_step during d in
      case wait_for 0 (td_timer d) of
        (go_on, t) \<Rightarrow>
          if \<not> go_on then (True, out @ [''thread main_loop end''])
          else
            (let d = fold td_stop_step after (d\<lparr>td_timer := t\<rparr>)
             in if td_cancel d then (True, out @ [''thread main_loop end''])
                else td_main_loop turns d (out @ [''thread main_loop loop''])))"

text \<open>\<open>main\<close>: its own timer is interrupted by nobody; the steps it causes in the thread.\<close>

definition timer_demo_main :: "string list \<times> stop_step list" where
  "timer_demo_main =
     (let out = [''Timed_Waiter example starts!'']
      in if fst (wait_for 0 tw_new) then (out @ [''30 Seconds later main says hello again!''], td_stop)
         else (out, []))"

lemma td_cancel_fold: "td_cancel (fold td_stop_step ss d) \<longleftrightarrow> td_cancel d \<or> Set_cancel \<in> set ss"
proof (induction ss arbitrary: d)
  case (Cons s ss)
  then show ?case by (cases s) auto
qed simp

lemma td_timer_fold:
  "tw_stop (td_timer (fold td_stop_step ss d)) \<longleftrightarrow> tw_stop (td_timer d) \<or> Interrupt_timer \<in> set ss"
proof (induction ss arbitrary: d)
  case (Cons s ss)
  then show ?case by (cases s) (auto simp: interrupt_def)
qed simp

text \<open>
  \<open>main\<close> does stop the thread, and the thread's loop ends in the turn in which the first step of
  \<open>stop\<close> arrives or, when only the interrupt falls behind the wait of a turn, in the next.
\<close>

lemma timer_demo_stops: "snd timer_demo_main = td_stop"
  by (simp add: timer_demo_main_def wait_for_def tw_new_def)

lemma td_main_loop_ends:
  assumes "Set_cancel \<in> set during \<or> Set_cancel \<in> set after \<or> Interrupt_timer \<in> set during"
  shows "fst (td_main_loop ((during, after) # turns) d out)"
  using assms
  by (auto simp: Let_def wait_for_def td_timer_fold td_cancel_fold)

lemma td_main_loop_goes_on:
  assumes "\<not> td_cancel d" and "\<not> tw_stop (td_timer d)"
    and "\<forall>(during, after)\<in>set turns. during = [] \<and> after = []"
  shows "td_main_loop turns d out = (False, out @ replicate (length turns) ''thread main_loop loop'')"
  using assms
  by (induction turns arbitrary: d out) (auto simp: Let_def wait_for_def replicate_app_Cons_same)

section \<open>The sockets\<close>

text \<open>
  \<open>server_loop\<close> with the \<open>send\<close> it calls on the new connection. The destructor of \<open>Server\<close> does
  nothing.
\<close>

definition server_loop ::
  "'n sockets \<Rightarrow> (int \<Rightarrow> string \<Rightarrow> 'n \<Rightarrow> int \<times> 'n) \<Rightarrow> 'n net \<Rightarrow> server \<times> 'n net" where
  "server_loop k send n =
     (case server_setup k ''enp5s0'' ''127.0.0.1'' 12345 False 50 server_new n of
        (r, server, n) \<Rightarrow>
          if r = 0 then
            (case server_accept k server n of
               (client, n) \<Rightarrow>
                 if client \<noteq> 0 \<and> 0 < client then
                   (case sys (send client ''hi and bye'') n of
                      (_, n) \<Rightarrow> (server, note_fd (ClosedFd client) (n\<lparr>os := sk_close k client (os n)\<rparr>)))
                 else (server, n))
          else (server, n))"

text \<open>
  The part of \<open>main\<close> beside the server's thread: the address of the device, what was received and
  whether the client still thought it was connected. It ends with the destructor of \<open>_client\<close>.
\<close>

definition client_demo ::
  "'n client_calls \<Rightarrow> byte list \<Rightarrow> byte list \<Rightarrow> 'n net \<Rightarrow>
   (byte list option \<times> int \<times> byte list \<times> bool) \<times> 'n net" where
  "client_demo k enp5s0 mac_addr n =
     (let client = client_new ''127.0.0.1'' 12345 in
      case getMacAddress k enp5s0 mac_addr n of
        (mac, n) \<Rightarrow>
          (case client_connect k client n of
             (_, client, n) \<Rightarrow>
               (case client_recv k 14 client n of
                  ((numbytes, message), client, n) \<Rightarrow>
                    (let connected = is_connected client;
                         (client, n) = (if connected then client_shutdown k client n else (client, n));
                         (client, n) = client_shutdown k client n
                     in ((mac, numbytes, message, connected), n)))))"

text \<open>The client half closes what it opens.\<close>

lemma client_demo_closes:
  assumes "sane_socket k" and "live (fds n) = []"
  shows "live (fds (snd (client_demo k dev mac_addr n))) = []"
proof -
  obtain mac n1 where 1: "getMacAddress k dev mac_addr n = (mac, n1)" by fastforce
  obtain r c2 n2 where 2: "client_connect k (client_new ''127.0.0.1'' 12345) n1 = (r, c2, n2)"
    by (metis prod_cases3)
  obtain m bs c3 n3 where 3: "client_recv k 14 c2 n2 = ((m, bs), c3, n3)" by (metis prod.exhaust)
  have "client_ok (client_new ''127.0.0.1'' 12345) n"
    using assms(2) by (simp add: client_ok_def client_new_def)
  from getMacAddress_ok [OF this 1] have "client_ok c2 n2"
    using client_connect_ok [OF _ assms(1) 2] by blast
  then have ok3: "client_ok c3 n3" by (rule client_recv_ok [OF _ 3])
  obtain c4 n4 where 4: "(if is_connected c3 then client_shutdown k c3 n3 else (c3, n3)) = (c4, n4)"
    by fastforce
  with ok3 have ok4: "client_ok c4 n4"
    by (auto simp: client_ok_def split: if_splits dest!: client_shutdown_ok)
  obtain c5 n5 where 5: "client_shutdown k c4 n4 = (c5, n5)" by fastforce
  have "snd (client_demo k dev mac_addr n) = n5"
    unfolding client_demo_def Let_def 1 prod.case 2 3 4 5 by simp
  with client_shutdown_ok [OF 5 ok4] show ?thesis by simp
qed

text \<open>
  The server half does not: its listening socket is still open when \<open>server_loop\<close> has returned,
  whatever \<open>accept\<close> gave, because the destructor of \<open>Server\<close> does not call \<open>shutdown\<close>.
\<close>

lemma server_loop_keeps_socket:
  assumes "no_fd_zero k" and "live (fds n) = []"
    and "server_setup k ''enp5s0'' ''127.0.0.1'' 12345 False 50 server_new n = (0, server, n1)"
    and "fst (server_accept k server n1) \<noteq> serverSocket server"
  shows "live (fds (snd (server_loop k send n))) = live (fds n1)"
proof -
  have "server_ok server_new n" using assms(2) by (simp add: server_ok_def server_new_def)
  from setup_result [OF assms(1) this, of "''enp5s0''" "''127.0.0.1''" 12345 False 50] assms(3)
  have ok: "server_ok server n1" by (simp add: setup_good_def)
  obtain client n2 where 2: "server_accept k server n1 = (client, n2)" by fastforce
  have same: "live (fds n2) = live (fds n1)"
    using 2 by (auto simp: server_accept_def dest!: fds_sys split: option.splits prod.splits if_splits)
  have "remove1 client (live (fds n1)) = live (fds n1)"
    using ok assms(4) 2 by (auto simp: server_ok_def)
  with same show ?thesis
    unfolding server_loop_def assms(3) prod.case 2
    by (auto simp: 2 dest!: fds_sys split: prod.split)
qed

end
