(* ===== verification/DaemonDemo.thy ===== *)
theory DaemonDemo
  imports Daemon Demos
begin

text \<open>
  The demo of the daemon (\<^verbatim>\<open>src/src/utils/daemonize/main.cpp\<close>): \<open>daemonize\<close> and the signal handler
  linked with a \<open>load_config\<close> that only writes a line, and a loop that writes one every ten
  seconds. \<open>out\<close> holds the lines the demo itself prints and logs.
\<close>

type_synonym demo_state = "process \<times> item list list"

text \<open>A signal: as in the program, but what SIGHUP runs is the \<open>load_config\<close> of the demo.\<close>

definition demo_load_config :: "item list list \<Rightarrow> int \<times> item list list" where
  "demo_load_config out = (0, out @ [[Text ''reload the krakens behaviour'']])"

definition demo_deliver :: "sig \<Rightarrow> demo_state \<Rightarrow> demo_state option" where
  "demo_deliver s = (\<lambda>(p, out).
     if s = SIGHUP \<and> hup_handler p then Some (p, snd (demo_load_config out))
     else (case deliver_signal (\<lambda>_. None) s p of None \<Rightarrow> None | Some p \<Rightarrow> Some (p, out)))"

fun demo_delivers :: "sig list \<Rightarrow> demo_state \<Rightarrow> demo_state option" where
  "demo_delivers [] d = Some d"
| "demo_delivers (s # ss) d = (case demo_deliver s d of None \<Rightarrow> None | Some d \<Rightarrow> demo_delivers ss d)"

text \<open>The loop; as in \<open>main_wait\<close> each turn has the signals that arrive during its wait.\<close>

fun kraken_loop :: "sig list list \<Rightarrow> int \<Rightarrow> demo_state \<Rightarrow> (bool \<times> demo_state) option" where
  "kraken_loop [] i d = Some (False, d)"
| "kraken_loop (ss # turns) i d =
     (case demo_delivers ss d of
        None \<Rightarrow> None
      | Some (p, out) \<Rightarrow>
          (case wait_for 0 (us_timer (main_unit p)) of
             (go_on, t) \<Rightarrow>
               (let p = p\<lparr>main_unit := (main_unit p)\<lparr>us_timer := t\<rparr>\<rparr> in
                if \<not> go_on then Some (True, (p, out))
                else if app_running p = 0 then Some (True, (p, out))
                else kraken_loop turns (i + 1)
                       (p, out @ [[Text ''release the kraken '', Num (i + 1)]]))))"

text \<open>
  \<open>main\<close>: the exit status and the lines. \<open>None\<close>: the daemon is still running, or a signal has
  ended it.
\<close>

definition kraken_main :: "daemon_calls \<Rightarrow> sig list list \<Rightarrow> process \<Rightarrow> (int \<times> process \<times> item list list) option"
  where
  "kraken_main k turns p =
     (let out = [[Text ''Hello, World, prepare for the daemon spamming your syslog!'']] in
      case daemonize k p of
        ExitFailure \<Rightarrow> Some (1, p, out)
      | ExitSuccess \<Rightarrow> Some (0, p, out)
      | Runs p \<Rightarrow>
          (let p = p\<lparr>int_handler := True, hup_handler := True\<rparr> in
           case kraken_loop turns 0 (p, out) of
             Some (True, (p, out)) \<Rightarrow>
               Some (0, p\<lparr>pid_files := removeAll (PID_FILE (globs p)) (pid_files p)\<rparr>, out)
           | _ \<Rightarrow> None))"

section \<open>What the daemon writes\<close>

definition krakens :: "int \<Rightarrow> nat \<Rightarrow> item list list" where
  "krakens i n = map (\<lambda>j. [Text ''release the kraken '', Num (i + int j)]) [1..<Suc n]"

lemma krakens_Suc: "krakens i (Suc n) = [Text ''release the kraken '', Num (i + 1)] # krakens (i + 1) n"
proof -
  have "[1..<Suc (Suc n)] = 1 # map Suc [1..<Suc n]"
    by (simp add: map_Suc_upt upt_conv_Cons del: upt_Suc)
  then show ?thesis by (simp add: krakens_def ac_simps del: upt_Suc)
qed

lemma kraken_quiet:
  assumes "app_running p \<noteq> 0" and "\<not> tw_stop (us_timer (main_unit p))"
  shows "kraken_loop (replicate n [] @ turns) i (p, out) = kraken_loop turns (i + int n) (p, out @ krakens i n)"
  using assms
proof (induction n arbitrary: i out)
  case 0
  then show ?case by (simp add: krakens_def)
next
  case (Suc n)
  have "p\<lparr>main_unit := (main_unit p)\<lparr>us_timer := us_timer (main_unit p)\<rparr>\<rparr> = p" by simp
  with Suc show ?case by (simp add: wait_for_def krakens_Suc ac_simps)
qed

text \<open>
  The daemon counts its lines from 1, one for each wait, until a SIGINT arrives; then it ends with
  success, and its lock file is gone.
\<close>

lemma kraken_main_lines:
  assumes "daemonize k p = Runs p'" and "\<not> tw_stop (us_timer (main_unit p))"
  shows "\<exists>q. kraken_main k (replicate n [] @ [SIGINT] # turns) p =
      Some (0, q, [Text ''Hello, World, prepare for the daemon spamming your syslog!''] # krakens 0 n)
    \<and> PID_FILE (globs p) \<notin> set (pid_files q)"
proof -
  let ?p = "p'\<lparr>int_handler := True, hup_handler := True\<rparr>"
  have "app_running ?p \<noteq> 0" "\<not> tw_stop (us_timer (main_unit ?p))"
    using daemonize_Runs [OF assms(1)] assms(2) by simp_all
  note loop = kraken_quiet [OF this, of n "[SIGINT] # turns" 0
      "[[Text ''Hello, World, prepare for the daemon spamming your syslog!'']]"]
  show ?thesis
    unfolding kraken_main_def Let_def assms(1) outcome.case loop
    using daemonize_Runs [OF assms(1)] assms(2)
    by (simp add: demo_deliver_def deliver_signal_def handle_signal_def wait_for_def Let_def)
qed

end
