(* ===== verification/System.thy ===== *)
theory System
  imports OutputHandler ThreadPool ClientHandler
begin

text \<open>
  The threads of the program on their shared state: client handlers push on the queue
  (\<open>addMessage\<close>), the output thread moves messages from the queue to the thread pool, the pool's
  workers run \<open>task\<close> on them, which may put a message back. \<open>system_step\<close> is the relation of all
  their interleavings, with the pool's own steps from \<open>ThreadPool\<close>; running a task is
  one step here, because its effect on the shared queue is at most one push; \<open>TaskSteps\<close> takes it apart
  into its calls, so that the tasks compete for the connections.
\<close>

section \<open>The state and its steps\<close>

text \<open>
  \<open>handed_in\<close>, \<open>ran\<close> and \<open>refused\<close> record the history: the messages of the clients, every run of
  a task with the answer it got from the database side, and the messages the retry limit discarded.
  A task that ends with an exception ends the program (\<open>std::terminate\<close>), so only runs without
  one are steps.
\<close>

record 'z system =
  sy_queue :: "queue_entry locked_queue"
  sy_pool :: "queue_entry thread_pool"
  sy_world :: "'z world"
  handed_in :: "queue_entry multiset"
  ran :: "(answer \<times> queue_entry) multiset"
  refused :: "queue_entry multiset"

definition system_start :: "nat \<Rightarrow> 'z world \<Rightarrow> 'z system" where
  "system_start n w =
     \<lparr>sy_queue = lq_new, sy_pool = pool_make n, sy_world = w, handed_in = {#}, ran = {#},
      refused = {#}\<rparr>"

inductive system_step ::
  "'z outside \<Rightarrow> libzdb_handler \<Rightarrow> config \<Rightarrow> 'z system \<Rightarrow> 'z system \<Rightarrow> bool"
  for z :: "'z outside" and h :: libzdb_handler and c :: config where
  Client: "system_step z h c s
     (s\<lparr>sy_queue := addMessage now payload (sy_queue s),
        handed_in := add_mset (entry_of now payload) (handed_in s)\<rparr>)"
| Dispatch: "lq_pop (sy_queue s) = Inr (m, q) \<Longrightarrow> retry_allowed c m \<Longrightarrow>
     system_step z h c s (s\<lparr>sy_queue := q, sy_pool := push_begin m (sy_pool s)\<rparr>)"
| Refuse: "lq_pop (sy_queue s) = Inr (m, q) \<Longrightarrow> \<not> retry_allowed c m \<Longrightarrow>
     system_step z h c s (s\<lparr>sy_queue := q, refused := add_mset m (refused s)\<rparr>)"
| Dispatched: "k < length (pushing (sy_pool s)) \<Longrightarrow>
     system_step z h c s (s\<lparr>sy_pool := push_end k (sy_pool s)\<rparr>)"
| Worker_thread: "i < length (workers (sy_pool s)) \<Longrightarrow> \<not> in_task (workers (sy_pool s) ! i) \<Longrightarrow>
     system_step z h c s (s\<lparr>sy_pool := worker_step i (sy_pool s)\<rparr>)"
| Run_task: "i < length (workers (sy_pool s)) \<Longrightarrow> workers (sy_pool s) ! i = InTask m \<Longrightarrow>
     task z (Some h) m (sy_queue s) (sy_world s) = (None, q, w) \<Longrightarrow>
     system_step z h c s
       (s\<lparr>sy_queue := q, sy_world := w, sy_pool := worker_step i (sy_pool s),
          ran := add_mset (answer_of z h m (sy_world s), m) (ran s)\<rparr>)"

definition system_reachable ::
  "'z outside \<Rightarrow> libzdb_handler \<Rightarrow> config \<Rightarrow> nat \<Rightarrow> 'z world \<Rightarrow> 'z system \<Rightarrow> bool" where
  "system_reachable z h c n w s \<longleftrightarrow> (system_step z h c)\<^sup>*\<^sup>* (system_start n w) s"

lemma system_reachable_start: "system_reachable z h c n w (system_start n w)"
  by (simp add: system_reachable_def)

lemma system_reachable_step:
  "system_reachable z h c n w s \<Longrightarrow> system_step z h c s s' \<Longrightarrow> system_reachable z h c n w s'"
  unfolding system_reachable_def by (rule rtranclp.rtrancl_into_rtrancl)

section \<open>No message disappears\<close>

text \<open>The messages whose task has ended without putting them back.\<close>

definition finished :: "('z, 'r) system_scheme \<Rightarrow> queue_entry multiset" where
  "finished s = image_mset snd (filter_mset (\<lambda>(a, m). put_back a m = []) (ran s))"

definition system_inv :: "'z system \<Rightarrow> bool" where
  "system_inv s \<longleftrightarrow> pool_inv (sy_pool s) \<and>
     handed_in s = mset (queue (sy_queue s)) + pending_tasks (sy_pool s) + finished s + refused s"

lemma system_inv_start: "system_inv (system_start n w)"
proof -
  have "sum_list (map ahead (replicate n AtTest)) = ({#} :: queue_entry multiset)"
    by (induction n) simp_all
  then show ?thesis
    by (simp add: system_inv_def system_start_def pool_inv_make lq_new_def pending_tasks_def
        finished_def) (simp add: pool_make_def)
qed

lemma put_back_cases: "put_back a m = [] \<or> put_back a m = [m]"
  by (cases a) simp_all

lemma system_step_inv:
  assumes "system_step z h c s s'" and "system_inv s"
  shows "system_inv s'"
  using assms
proof (induction rule: system_step.induct)
  case (Client s now payload)
  then show ?case by (simp add: system_inv_def addMessage_def finished_def)
next
  case (Dispatch s m q)
  then have "queue (sy_queue s) = m # queue q" by (simp add: lq.pop_Inr)
  with Dispatch show ?case
    by (simp add: system_inv_def pending_push_begin pool_step_inv [OF Push_begin] finished_def)
next
  case (Refuse s m q)
  then have "queue (sy_queue s) = m # queue q" by (simp add: lq.pop_Inr)
  with Refuse show ?case by (simp add: system_inv_def finished_def)
next
  case (Dispatched k s)
  then show ?case
    by (simp add: system_inv_def pending_push_end pool_step_inv [OF Push_end] finished_def)
next
  case (Worker_thread i s)
  then show ?case
    by (simp add: system_inv_def pending_worker_step worker_step_inv finished_def)
next
  case (Run_task i s m q w)
  note q = conjunct1 [OF task_answer [OF Run_task.hyps(3)]]
  show ?case
    using Run_task pending_run_task [OF Run_task.hyps(1,2)]
      put_back_cases [of "answer_of z h m (sy_world s)" m]
    by (auto simp: system_inv_def worker_step_inv q finished_def)
qed

interpretation conserved: kept "system_step z h c" system_inv for z h c
  by unfold_locales (rule system_step_inv)

lemma system_reachable_inv: "system_reachable z h c n w s \<Longrightarrow> system_inv s"
  unfolding system_reachable_def by (rule conserved.always [OF _ system_inv_start])

text \<open>
  C8: in every state the threads can reach together, each message a client handed in is in
  exactly one place: in the queue, in the pool with its task still to run, among those whose
  task has ended for good, or among those the retry limit refused. No interleaving loses or
  duplicates one.
\<close>

theorem messages_conserved:
  assumes "system_reachable z h c n w s"
  shows "handed_in s = mset (queue (sy_queue s)) + pending_tasks (sy_pool s) + finished s + refused s"
  using system_reachable_inv [OF assms] by (simp add: system_inv_def)

section \<open>What the database has executed\<close>

text \<open>Every run of a task brings to the database what its answer says, whatever the order.\<close>

definition executed_inv ::
  "('z \<times> byte list list) world \<Rightarrow> ('z \<times> byte list list, 'r) system_scheme \<Rightarrow> bool" where
  "executed_inv w s \<longleftrightarrow>
     mset (executed (sy_world s)) = mset (executed w) + (\<Sum>(a, m)\<in>#ran s. mset (sent a m))"

lemma system_step_executed:
  assumes "system_step (recorded z) h c s s'" and "executed_inv w s"
  shows "executed_inv w s'"
  using assms
proof (induction rule: system_step.induct)
  case (Run_task i s m q w')
  from task_sent [OF Run_task.hyps(3)] Run_task.prems show ?case
    by (simp add: executed_inv_def ac_simps)
qed (simp_all add: executed_inv_def)

interpretation history: kept "system_step (recorded z) h c" "executed_inv w" for z h c w
  by unfold_locales (rule system_step_executed)

lemma executed_inv_start: "executed_inv w (system_start n w)"
  by (simp add: executed_inv_def system_start_def)

lemma executed_inv_reachable: "system_reachable (recorded z) h c n w s \<Longrightarrow> executed_inv w s"
  unfolding system_reachable_def by (rule history.always [OF _ executed_inv_start])

definition only_refuses :: "config \<Rightarrow> ('z, 'r) system_scheme \<Rightarrow> bool" where
  "only_refuses c s \<longleftrightarrow> (\<forall>m\<in>#refused s. \<not> retry_allowed c m)"

lemma only_refuses_start: "only_refuses c (system_start n w)"
  by (simp add: only_refuses_def system_start_def)

lemma system_step_refuses: "system_step z h c s s' \<Longrightarrow> only_refuses c s \<Longrightarrow> only_refuses c s'"
  by (induction rule: system_step.induct) (auto simp: only_refuses_def)

interpretation limit: kept "system_step z h c" "only_refuses c" for z h c
  by unfold_locales (rule system_step_refuses)

lemma refused_not_allowed: "system_reachable z h c n w s \<Longrightarrow> only_refuses c s"
  unfolding system_reachable_def by (rule limit.always [OF _ only_refuses_start])

text \<open>With nothing in the queue and nothing in the pool, all that was handed in has been executed.\<close>

definition all_executed :: "('z, 'r) system_scheme \<Rightarrow> bool" where
  "all_executed s \<longleftrightarrow> (\<forall>(a, m)\<in>#ran s. a = Executed)"

lemma all_executed_finished: "all_executed s \<Longrightarrow> finished s = image_mset snd (ran s)"
proof -
  assume "all_executed s"
  then have "filter_mset (\<lambda>(a, m). put_back a m = []) (ran s) = ran s"
    by (auto simp: all_executed_def filter_mset_eq_conv)
  then show ?thesis by (simp add: finished_def)
qed

lemma all_executed_sent:
  "all_executed s \<Longrightarrow>
     (\<Sum>(a, m)\<in>#ran s. mset (sent a m)) = image_mset (c_str \<circ> query) (image_mset snd (ran s))"
proof -
  have "(\<Sum>(a, m)\<in>#M. mset (sent a m)) = image_mset (c_str \<circ> query) (image_mset snd M)"
    if "\<forall>(a, m)\<in>#M. a = Executed" for M
    using that by (induction M) auto
  then show "all_executed s \<Longrightarrow> ?thesis" by (simp add: all_executed_def)
qed

lemma executed_if_all_finished:
  assumes "handed_in s = finished s + refused s" and "executed_inv w s" and "only_refuses c s"
    and "\<not> obey_work_retry_count c" and "all_executed s"
  shows "mset (executed (sy_world s))
    = mset (executed w) + image_mset (c_str \<circ> query) (handed_in s)"
proof -
  have "refused s = {#}" using assms(3,4) by (auto simp: retry_allowed_def only_refuses_def)
  then have "handed_in s = image_mset snd (ran s)"
    using assms(1) all_executed_finished [OF assms(5)] by simp
  with assms(2) all_executed_sent [OF assms(5)] show ?thesis by (simp add: executed_inv_def)
qed

lemma executed_when_empty:
  assumes "system_reachable (recorded z) h c n w s" and "\<not> obey_work_retry_count c"
    and "all_executed s" and "queue (sy_queue s) = []" and "pending_tasks (sy_pool s) = {#}"
  shows "mset (executed (sy_world s))
    = mset (executed w) + image_mset (c_str \<circ> query) (handed_in s)"
proof (rule executed_if_all_finished)
  show "handed_in s = finished s + refused s"
    using system_reachable_inv [OF assms(1)] assms(4,5) by (simp add: system_inv_def)
qed (rule assms executed_inv_reachable [OF assms(1)] refused_not_allowed [OF assms(1)])+

definition at_rest :: "('z, 'r) system_scheme \<Rightarrow> bool" where
  "at_rest s \<longleftrightarrow> queue (sy_queue s) = [] \<and> in_pool (sy_pool s) = {#}"

text \<open>
  When the threads have come to rest, the work is done. Take any interleaving of clients,
  output thread and pool threads in which the database executed the query of every task that
  was run; in a state with an empty queue, in which \<open>wait_for_tasks\<close> would return, the database has
  executed exactly the queries (up to their first NUL byte) of the messages the clients handed in,
  each once.
\<close>

theorem resting_system_has_executed_all:
  assumes "system_reachable (recorded z) h c n w s" and "\<not> obey_work_retry_count c"
    and "all_executed s" and "queue (sy_queue s) = []"
    and "\<not> paused (sy_pool s)" and "wait_done (sy_pool s) p" and "size (in_pool (sy_pool s)) < 2 ^ 64"
  shows "mset (executed (sy_world s))
    = mset (executed w) + image_mset (c_str \<circ> query) (handed_in s)"
proof (rule executed_when_empty [OF assms(1-4)])
  show "pending_tasks (sy_pool s) = {#}"
    using no_pending_tasks [OF _ assms(5-7)] system_reachable_inv [OF assms(1)]
    by (simp add: system_inv_def)
qed

section \<open>A run of one message\<close>

definition working :: "lab outside" where
  "working = (lab_outside (\<lambda>_. None))\<lparr>pool_get_connection := (\<lambda>p s. (Inr p, s))\<rparr>"

definition working_world :: "(lab \<times> byte list list) world" where
  "working_world = \<lparr>ext = (ext (lab_world 0 [] []), []), syslog = []\<rparr>"

definition one_thread ::
  "queue_entry list \<Rightarrow> queue_entry thread_pool \<Rightarrow> (lab \<times> byte list list) world \<Rightarrow>
   (answer \<times> queue_entry) multiset \<Rightarrow> (lab \<times> byte list list) system" where
  "one_thread q p w r =
     \<lparr>sy_queue = \<lparr>queue = q\<rparr>, sy_pool = p, sy_world = w, handed_in = {#entry_of 5 [65, 66]#},
      ran = r, refused = {#}\<rparr>"

definition one_worker :: "u64 \<Rightarrow> 'a list \<Rightarrow> 'a list \<Rightarrow> 'a worker \<Rightarrow> 'a multiset \<Rightarrow> 'a multiset \<Rightarrow>
  'a thread_pool" where
  "one_worker k ps ts v subm compl =
     \<lparr>tasks_total = k, tasks = ts, paused = False, running = True, workers = [v], pushing = ps,
      submitted = subm, completed = compl\<rparr>"

lemmas sample_run_simps = system_start_def one_thread_def one_worker_def pool_make_def
  push_begin_def push_end_def pool_op addMessage_def
  queue_op lq_new_def

abbreviation sample_message :: queue_entry where
  "sample_message \<equiv> entry_of 5 [65, 66]"

abbreviation sample_reaches :: "(lab \<times> byte list list) system \<Rightarrow> bool" where
  "sample_reaches \<equiv>
     system_reachable (recorded working) dead_handler default_config 1 working_world"

lemma sample_dispatched:
  "sample_reaches (one_thread [] (one_worker 1 [] [sample_message] AtTest {#sample_message#} {#})
     working_world {#})"
proof -
  let ?q = "\<lparr>queue = []\<rparr> :: queue_entry locked_queue"
  have 1: "sample_reaches (one_thread [sample_message] (pool_make 1) working_world {#})"
    using system_reachable_step [OF system_reachable_start [where n = 1]
        Client [where now = 5 and payload = "[65, 66]"]]
    by (simp add: sample_run_simps)
  have 2: "sample_reaches (one_thread [] (push_begin sample_message (pool_make 1)) working_world {#})"
    using system_reachable_step [OF 1 Dispatch [where m = sample_message and q = ?q]]
    by (simp add: lq_pop_def one_thread_def retry_allowed_def default_config_def)
  show ?thesis
    using system_reachable_step [OF 2 Dispatched [where k = 0]] by (simp add: sample_run_simps)
qed

lemma sample_running:
  "sample_reaches (one_thread [] (one_worker 1 [] [] (InTask sample_message) {#sample_message#} {#})
     working_world {#})"
proof -
  have 1: "sample_reaches (one_thread [] (one_worker 1 [] [sample_message] AtPaused
      {#sample_message#} {#}) working_world {#})"
    using system_reachable_step [OF sample_dispatched Worker_thread [where i = 0]]
    by (simp add: sample_run_simps)
  have 2: "sample_reaches (one_thread [] (one_worker 1 [] [sample_message] AtPop
      {#sample_message#} {#}) working_world {#})"
    using system_reachable_step [OF 1 Worker_thread [where i = 0]] by (simp add: sample_run_simps)
  show ?thesis
    using system_reachable_step [OF 2 Worker_thread [where i = 0]] by (simp add: sample_run_simps)
qed

definition sample_end :: "(lab \<times> byte list list) world" where
  "sample_end = snd (snd (task (recorded working) (Some dead_handler) sample_message
     \<lparr>queue = []\<rparr> working_world))"

lemma sample_task:
  "task (recorded working) (Some dead_handler) sample_message \<lparr>queue = []\<rparr> working_world
     = (None, \<lparr>queue = []\<rparr>, sample_end)"
  "answer_of (recorded working) dead_handler sample_message working_world = Executed"
  by (simp_all add: sample_end_def task_def task_body_def execute_message_def answer_of_def
      dead_handler_def hasConnectionPool_def getConnection_def recorded_def working_def
      working_world_def lift_call_def lab_simps)

lemma sample_rest:
  "sample_reaches (one_thread [] (one_worker 0 [] [] AtTest {#sample_message#} {#sample_message#})
     sample_end {#(Executed, sample_message)#})"
proof -
  have 1: "sample_reaches (one_thread [] (one_worker 1 [] [] (AtDecrement sample_message)
      {#sample_message#} {#}) sample_end {#(Executed, sample_message)#})"
    using system_reachable_step [OF sample_running
        Run_task [where i = 0 and m = sample_message and q = "\<lparr>queue = []\<rparr>" and w = sample_end]]
    by (simp add: sample_run_simps sample_task)
  show ?thesis
    using system_reachable_step [OF 1 Worker_thread [where i = 0]] by (simp add: sample_run_simps)
qed

theorem messages_conserved_witness:
  "handed_in (one_thread [] (one_worker 1 [] [] (InTask sample_message) {#sample_message#} {#})
     working_world {#}) = {#sample_message#}
   \<and> pending_tasks (one_worker 1 [] [] (InTask sample_message) {#sample_message#} {#})
     = {#sample_message#}"
  using messages_conserved [OF sample_running] by (simp add: one_thread_def finished_def)

theorem resting_system_has_executed_all_witness: "mset (executed sample_end) = {#[65, 66]#}"
  using resting_system_has_executed_all [OF sample_rest, of "pool_make 1"]
  by (simp add: one_thread_def one_worker_def default_config_def wait_done_def pool_make_def
      all_executed_def in_pool_def in_workers_def executed_def working_world_def c_str_def entry_of_def new_entry_def)

end
