(* ===== verification/TaskSteps.thy ===== *)
theory TaskSteps
  imports System
begin

text \<open>
  \<open>OutputHandler::task\<close> (\<^verbatim>\<open>src/src/output/OutputHandler.cpp\<close>) step by step: one step for each call
  into libzdb and each push on the queue, with the log line before it. Run alone the steps are
  \<open>task\<close>; in \<open>fine_step\<close> the steps of all workers interleave with each other and with the other
  threads, so that several tasks hold connections at once.
\<close>

section \<open>The steps of one task\<close>

text \<open>
  Where a task is. From \<open>T_return\<close> on, the phase says which answer the task got.
  \<open>T_no_handler\<close> is the end of a task without a database handler.
\<close>

datatype phase =
    T_start
  | T_get
  | T_execute nat
  | T_caught nat "byte list"
  | T_return nat answer
  | T_close nat answer
  | T_end answer
  | T_no_handler

fun ended :: "phase \<Rightarrow> bool" where
  "ended (T_end a) = True"
| "ended T_no_handler = True"
| "ended _ = False"

fun task_step ::
  "'z outside \<Rightarrow> libzdb_handler option \<Rightarrow> queue_entry \<Rightarrow>
   phase \<times> queue_entry locked_queue \<times> 'z world \<Rightarrow> phase \<times> queue_entry locked_queue \<times> 'z world"
  where
  "task_step z dbh m (T_start, q, w) =
     (case call (clock_seconds z) w of
        (now, w) \<Rightarrow>
          (case dbh of
             None \<Rightarrow>
               (T_no_handler, lq_push m q,
                write_log ''connection pool is not initialized, rescheduling %s (%i)''
                  (message_args m) w)
           | Some h \<Rightarrow>
               if hasConnectionPool h then (T_get, q, w)
               else (T_end NoPool, q,
                     write_log ''error: no connection pool ,query: %s ,rescheduling (%i)''
                       (message_args m) w)))"
| "task_step z dbh m (T_get, q, w) =
     (case getConnection z (the dbh) w of
        (None, w) \<Rightarrow> (T_end NoConnection, q, w)
      | (Some con, w) \<Rightarrow>
          if con_null z con
          then (T_close con NullConnection, lq_push m q,
                write_log ''could not get connection from pool, rescheduling %s (%i)''
                  (message_args m) w)
          else (T_execute con, q, w))"
| "task_step z dbh m (T_execute con, q, w) =
     (case call (con_execute z con (c_str (query m))) w of
        (None, w) \<Rightarrow> (T_return con Executed, q, w)
      | (Some OtherException, w) \<Rightarrow> (T_close con Crash, q, w)
      | (Some (SqlException what), w) \<Rightarrow> (T_caught con what, q, w))"
| "task_step z dbh m (T_caught con what, q, w) =
     (let w = write_log ''error: %s ,query: %s''
                [BytesArg (c_str what), BytesArg (c_str (query m))] w
      in if contains deadlock_text (c_str what)
         then (T_return con (SqlError (c_str what)), lq_push m q,
               write_log ''rescheduling %s (%i)'' (message_args m) w)
         else (T_return con (SqlError (c_str what)), q, w))"
| "task_step z dbh m (T_return con a, q, w) = (T_close con a, q, returnConnection z con (the dbh) w)"
| "task_step z dbh m (T_close con a, q, w) = (T_end a, q, run_ext (con_close z con) w)"
| "task_step z dbh m (T_end a, q, w) = (T_end a, q, w)"
| "task_step z dbh m (T_no_handler, q, w) = (T_no_handler, q, w)"

text \<open>The exception with which a task leaves.\<close>

fun thrown :: "phase \<Rightarrow> exn option" where
  "thrown (T_end Crash) = Some OtherException"
| "thrown _ = None"

text \<open>
  The two models of \<open>OutputHandler::task\<close> agree: whatever the database answers, a task that runs undisturbed comes to its
  end in at most six of them, with the queue, the world (the log and the calls into libzdb
  in their order) and the exception of \<open>task\<close>.
\<close>

lemma task_in_steps:
  "case (task_step z dbh m ^^ 6) (T_start, q, w) of (ph, q', w') \<Rightarrow>
     ended ph \<and> task z dbh m q w = (thrown ph, q', w')"
proof (cases dbh)
  case None
  then show ?thesis
    by (simp add: numeral_eq_Suc task_def split: prod.split)
next
  case (Some h)
  show ?thesis
  proof (cases "hasConnectionPool h")
    case False
    with Some show ?thesis by (simp add: numeral_eq_Suc task_def split: prod.split)
  next
    case True
    obtain now w1 where clock: "call (clock_seconds z) w = (now, w1)" by fastforce
    obtain r w2 where get: "getConnection z h w1 = (r, w2)" by fastforce
    note run = Some True clock get
    show ?thesis
    proof (cases r)
      case None
      with run show ?thesis by (simp add: numeral_eq_Suc task_def task_body_def)
    next
      case con: (Some con)
      obtain x w3 where ex: "call (con_execute z con (c_str (query m))) w2 = (x, w3)" by fastforce
      show ?thesis
      proof (cases "con_null z con")
        case True
        with run con show ?thesis by (simp add: numeral_eq_Suc task_def task_body_def)
      next
        case False
        consider "x = None" | what where "x = Some (SqlException what)" | "x = Some OtherException"
          by (metis option.exhaust exn.exhaust)
        then show ?thesis
          using False run con ex
          by cases (simp_all add: numeral_eq_Suc task_def task_body_def execute_message_def Let_def)
      qed
    qed
  qed
qed

section \<open>The steps of all threads\<close>

text \<open>
  \<open>phases s i\<close> is the phase of the task worker \<open>i\<close> is in. \<open>ready\<close> is the test of the output
  thread before it takes a message off the queue.
\<close>

record 'z fine_system = "'z system" +
  phases :: "nat \<Rightarrow> phase"

definition fine_start :: "nat \<Rightarrow> 'z world \<Rightarrow> 'z fine_system" where
  "fine_start n w =
     \<lparr>sy_queue = lq_new, sy_pool = pool_make n, sy_world = w, handed_in = {#}, ran = {#},
      refused = {#}, phases = (\<lambda>_. T_start)\<rparr>"

inductive fine_step ::
  "'z outside \<Rightarrow> libzdb_handler \<Rightarrow> config \<Rightarrow> (queue_entry thread_pool \<Rightarrow> bool) \<Rightarrow>
   'z fine_system \<Rightarrow> 'z fine_system \<Rightarrow> bool"
  for z :: "'z outside" and h :: libzdb_handler and c :: config
    and ready :: "queue_entry thread_pool \<Rightarrow> bool" where
  F_client: "fine_step z h c ready s
     (s\<lparr>sy_queue := addMessage now payload (sy_queue s),
        handed_in := add_mset (entry_of now payload) (handed_in s)\<rparr>)"
| F_dispatch: "ready (sy_pool s) \<Longrightarrow> lq_pop (sy_queue s) = Inr (m, q) \<Longrightarrow> retry_allowed c m \<Longrightarrow>
     fine_step z h c ready s (s\<lparr>sy_queue := q, sy_pool := push_begin m (sy_pool s)\<rparr>)"
| F_refuse: "ready (sy_pool s) \<Longrightarrow> lq_pop (sy_queue s) = Inr (m, q) \<Longrightarrow> \<not> retry_allowed c m \<Longrightarrow>
     fine_step z h c ready s (s\<lparr>sy_queue := q, refused := add_mset m (refused s)\<rparr>)"
| F_dispatched: "k < length (pushing (sy_pool s)) \<Longrightarrow>
     fine_step z h c ready s (s\<lparr>sy_pool := push_end k (sy_pool s)\<rparr>)"
| F_worker: "i < length (workers (sy_pool s)) \<Longrightarrow> \<not> in_task (workers (sy_pool s) ! i) \<Longrightarrow>
     fine_step z h c ready s (s\<lparr>sy_pool := worker_step i (sy_pool s)\<rparr>)"
| F_task: "i < length (workers (sy_pool s)) \<Longrightarrow> workers (sy_pool s) ! i = InTask m \<Longrightarrow>
     \<not> ended (phases s i) \<Longrightarrow>
     task_step z (Some h) m (phases s i, sy_queue s, sy_world s) = (ph, q, w) \<Longrightarrow>
     fine_step z h c ready s
       (s\<lparr>sy_queue := q, sy_world := w, phases := (phases s)(i := ph)\<rparr>)"
| F_end: "i < length (workers (sy_pool s)) \<Longrightarrow> workers (sy_pool s) ! i = InTask m \<Longrightarrow>
     phases s i = T_end a \<Longrightarrow> a \<noteq> Crash \<Longrightarrow>
     fine_step z h c ready s
       (s\<lparr>sy_pool := worker_step i (sy_pool s), ran := add_mset (a, m) (ran s),
          phases := (phases s)(i := T_start)\<rparr>)"

definition fine_reachable ::
  "'z outside \<Rightarrow> libzdb_handler \<Rightarrow> config \<Rightarrow> (queue_entry thread_pool \<Rightarrow> bool) \<Rightarrow> nat \<Rightarrow>
   'z world \<Rightarrow> 'z fine_system \<Rightarrow> bool" where
  "fine_reachable z h c ready n w s \<longleftrightarrow> (fine_step z h c ready)\<^sup>*\<^sup>* (fine_start n w) s"

section \<open>What is under way in the workers\<close>

text \<open>\<open>flying g s\<close> adds up \<open>g\<close> over the workers and the phases of their tasks.\<close>

definition flying :: "(queue_entry worker \<Rightarrow> phase \<Rightarrow> 'b multiset) \<Rightarrow> 'z fine_system \<Rightarrow> 'b multiset" where
  "flying g s = (\<Sum>i<length (workers (sy_pool s)). g (workers (sy_pool s) ! i) (phases s i))"

lemma mset_moved:
  fixes H :: "'b multiset"
  assumes "F' + a = F + b" and "Q' + a = Q + b" and "H + F = Q + R"
  shows "H + F' = Q' + R"
proof (rule multiset_eqI)
  fix x
  show "count (H + F') x = count (Q' + R) x"
    using arg_cong [OF assms(1), of "\<lambda>M. count M x"] arg_cong [OF assms(2), of "\<lambda>M. count M x"]
      arg_cong [OF assms(3), of "\<lambda>M. count M x"] by simp
qed

lemma flying_update:
  assumes "i < length (workers (sy_pool s))" and "workers (sy_pool s') = (workers (sy_pool s))[i := v]"
    and "phases s' = (phases s)(i := ph)"
  shows "flying g s' + g (workers (sy_pool s) ! i) (phases s i) = flying g s + g v ph"
proof -
  let ?ws = "workers (sy_pool s)"
  have "(\<Sum>j\<in>{..<length ?ws} - {i}. g (?ws[i := v] ! j) (((phases s)(i := ph)) j))
      = (\<Sum>j\<in>{..<length ?ws} - {i}. g (?ws ! j) (phases s j))"
    by (rule sum.cong) auto
  then show ?thesis
    using assms by (simp add: flying_def sum.remove [of "{..<length ?ws}" i] ac_simps)
qed

lemma flying_same:
  "workers (sy_pool s') = workers (sy_pool s) \<Longrightarrow> phases s' = phases s \<Longrightarrow> flying g s' = flying g s"
  by (simp add: flying_def)

text \<open>What a task under way has put back on the queue, and what it has sent to the database.\<close>

fun phase_answer :: "phase \<Rightarrow> answer option" where
  "phase_answer (T_return con a) = Some a"
| "phase_answer (T_close con a) = Some a"
| "phase_answer (T_end a) = Some a"
| "phase_answer _ = None"

fun put_ahead :: "queue_entry worker \<Rightarrow> phase \<Rightarrow> queue_entry multiset" where
  "put_ahead (InTask m) ph = (case phase_answer ph of Some a \<Rightarrow> mset (put_back a m) | None \<Rightarrow> {#})"
| "put_ahead _ ph = {#}"

fun sent_ahead :: "queue_entry worker \<Rightarrow> phase \<Rightarrow> byte list multiset" where
  "sent_ahead (InTask m) ph =
     (case ph of T_caught con what \<Rightarrow> {#c_str (query m)#}
      | _ \<Rightarrow> (case phase_answer ph of Some a \<Rightarrow> mset (sent a m) | None \<Rightarrow> {#}))"
| "sent_ahead _ ph = {#}"

lemma nothing_ahead [simp]: "put_ahead v T_start = {#}" "sent_ahead v T_start = {#}"
  by (cases v; simp)+

lemma workers_worker_step: "\<exists>v. workers (worker_step i p) = (workers p)[i := v]"
proof (cases "workers p ! i")
  case Exited
  then have "workers (worker_step i p) = (workers p)[i := workers p ! i]"
    unfolding list_update_id by (simp add: worker_step_def)
  then show ?thesis by blast
qed (auto simp: pool_op split: list.split)

lemma flying_worker:
  assumes "i < length (workers (sy_pool s))" and "phases s i = T_start" and "\<And>v. g v T_start = {#}"
  shows "flying g (s\<lparr>sy_pool := worker_step i (sy_pool s)\<rparr>) = flying g s"
proof -
  obtain v where v: "workers (worker_step i (sy_pool s)) = (workers (sy_pool s))[i := v]"
    using workers_worker_step by blast
  have "phases s = (phases s)(i := T_start)" using assms(2) by auto
  with v flying_update [OF assms(1), of "s\<lparr>sy_pool := worker_step i (sy_pool s)\<rparr>" v T_start g]
  show ?thesis using assms(2,3) by simp
qed

lemma flying_task:
  assumes "i < length (workers (sy_pool s))" and "workers (sy_pool s) ! i = v"
  shows "flying g (s\<lparr>sy_queue := q, sy_world := w, phases := (phases s)(i := ph)\<rparr>) + g v (phases s i)
    = flying g s + g v ph"
proof -
  have "workers (sy_pool s) = (workers (sy_pool s))[i := v]"
    using assms(2) by (metis list_update_id)
  then show ?thesis
    using flying_update [OF assms(1), of "s\<lparr>sy_queue := q, sy_world := w,
        phases := (phases s)(i := ph)\<rparr>" v ph g] assms(2) by simp
qed

text \<open>A step of a task moves its message to the queue at most, and a query to the database.\<close>

lemma task_step_queue:
  assumes "task_step z (Some h) m (ph, q, w) = (ph', q', w')" and "\<not> ended ph"
  shows "mset (queue q') + put_ahead (InTask m) ph = mset (queue q) + put_ahead (InTask m) ph'"
  using assms by (cases ph) (auto simp: Let_def split: prod.splits option.splits exn.splits if_splits)

lemma task_step_sent:
  assumes "task_step (recorded z) (Some h) m (ph, q, w) = (ph', q', w')" and "\<not> ended ph"
  shows "mset (executed w') + sent_ahead (InTask m) ph = mset (executed w) + sent_ahead (InTask m) ph'"
  using assms
  by (cases ph) (auto simp: Let_def split: prod.splits option.splits exn.splits if_splits
      dest!: executed_clock executed_getConnection executed_execute)

section \<open>No message disappears\<close>

definition idle_phases :: "'z fine_system \<Rightarrow> bool" where
  "idle_phases s \<longleftrightarrow> (\<forall>i<length (workers (sy_pool s)).
     \<not> in_task (workers (sy_pool s) ! i) \<longrightarrow> phases s i = T_start)"

definition fine_inv :: "'z fine_system \<Rightarrow> bool" where
  "fine_inv s \<longleftrightarrow> pool_inv (sy_pool s) \<and> idle_phases s \<and>
     handed_in s + flying put_ahead s
       = mset (queue (sy_queue s)) + pending_tasks (sy_pool s) + finished s + refused s"

lemma fine_inv_start: "fine_inv (fine_start n w)"
proof -
  have "flying put_ahead (fine_start n w) = {#}" by (simp add: flying_def fine_start_def)
  moreover have "system_inv (system_start n w)" by (rule system_inv_start)
  ultimately show ?thesis
    by (simp add: fine_inv_def system_inv_def fine_start_def system_start_def idle_phases_def
        finished_def)
qed

lemma idle_step: "fine_step z h c ready s s' \<Longrightarrow> idle_phases s \<Longrightarrow> idle_phases s'"
proof (induction rule: fine_step.induct)
  case (F_worker i s)
  obtain v where "workers (worker_step i (sy_pool s)) = (workers (sy_pool s))[i := v]"
    using workers_worker_step by blast
  with F_worker show ?case by (auto simp: idle_phases_def nth_list_update)
next
  case (F_end i s m a)
  obtain v where "workers (worker_step i (sy_pool s)) = (workers (sy_pool s))[i := v]"
    using workers_worker_step by blast
  with F_end show ?case by (auto simp: idle_phases_def nth_list_update)
qed (auto simp: idle_phases_def push_begin_def push_end_def)

lemma fine_step_inv:
  assumes "fine_step z h c ready s s'" and "fine_inv s"
  shows "fine_inv s'"
proof -
  note idle = idle_step [OF assms(1)]
  show ?thesis
    using assms idle
  proof (induction rule: fine_step.induct)
    case (F_client s now payload)
    then show ?case
      by (simp add: fine_inv_def addMessage_def finished_def flying_def)
  next
    case (F_dispatch s m q)
    then have "queue (sy_queue s) = m # queue q" by (simp add: lq.pop_Inr)
    moreover have "flying put_ahead (s\<lparr>sy_queue := q, sy_pool := push_begin m (sy_pool s)\<rparr>)
        = flying put_ahead s"
      by (rule flying_same) (simp_all add: push_begin_def)
    ultimately show ?case
      using F_dispatch
      by (simp add: fine_inv_def pending_push_begin pool_step_inv [OF Push_begin] finished_def)
  next
    case (F_refuse s m q)
    then have "queue (sy_queue s) = m # queue q" by (simp add: lq.pop_Inr)
    with F_refuse show ?case by (simp add: fine_inv_def finished_def flying_def)
  next
    case (F_dispatched k s)
    moreover have "flying put_ahead (s\<lparr>sy_pool := push_end k (sy_pool s)\<rparr>) = flying put_ahead s"
      by (rule flying_same) (simp_all add: push_end_def)
    ultimately show ?case
      by (simp add: fine_inv_def pending_push_end pool_step_inv [OF Push_end] finished_def)
  next
    case (F_worker i s)
    then have "phases s i = T_start" by (simp add: fine_inv_def idle_phases_def)
    with F_worker show ?case
      by (simp add: fine_inv_def pending_worker_step worker_step_inv finished_def flying_worker)
  next
    case (F_task i s m ph q w)
    let ?s = "s\<lparr>sy_queue := q, sy_world := w, phases := (phases s)(i := ph)\<rparr>"
    have "flying put_ahead ?s + put_ahead (InTask m) (phases s i)
        = flying put_ahead s + put_ahead (InTask m) ph"
      by (rule flying_task [OF F_task.hyps(1,2)])
    then have "handed_in s + flying put_ahead ?s = mset (queue q)
        + (pending_tasks (sy_pool s) + finished s + refused s)"
      by (rule mset_moved [OF _ task_step_queue [OF F_task.hyps(4,3)]])
        (use F_task.prems(1) in \<open>simp add: fine_inv_def add.assoc\<close>)
    with F_task.prems show ?case by (simp add: fine_inv_def finished_def add.assoc)
  next
    case (F_end i s m a)
    let ?s = "s\<lparr>sy_pool := worker_step i (sy_pool s), ran := add_mset (a, m) (ran s),
      phases := (phases s)(i := T_start)\<rparr>"
    have "workers (worker_step i (sy_pool s)) = (workers (sy_pool s))[i := AtDecrement m]"
      using F_end.hyps(2) by (simp add: pool_op)
    then have "flying put_ahead s = flying put_ahead ?s + mset (put_back a m)"
      using flying_update [OF F_end.hyps(1), of ?s "AtDecrement m" T_start put_ahead] F_end.hyps(2,3)
      by simp
    with F_end pending_run_task [OF F_end.hyps(1,2)] put_back_cases [of a m] show ?case
      by (auto simp: fine_inv_def finished_def worker_step_inv)
  qed
qed

interpretation fine: kept "fine_step z h c ready" fine_inv for z h c ready
  by unfold_locales (rule fine_step_inv)

lemma fine_reachable_inv: "fine_reachable z h c ready n w s \<Longrightarrow> fine_inv s"
  unfolding fine_reachable_def by (rule fine.always [OF _ fine_inv_start])

lemma fine_reachable_step:
  "fine_reachable z h c ready n w s \<Longrightarrow> fine_step z h c ready s s' \<Longrightarrow> fine_reachable z h c ready n w s'"
  unfolding fine_reachable_def by (rule rtranclp.rtrancl_into_rtrancl)

section \<open>What the database has executed\<close>

definition fine_sent ::
  "('z \<times> byte list list) world \<Rightarrow> ('z \<times> byte list list) fine_system \<Rightarrow> bool" where
  "fine_sent w s \<longleftrightarrow> idle_phases s \<and>
     mset (executed (sy_world s))
       = mset (executed w) + (\<Sum>(a, m)\<in>#ran s. mset (sent a m)) + flying sent_ahead s"

lemma fine_step_sent:
  assumes "fine_step (recorded z) h c ready s s'" and "fine_sent w s"
  shows "fine_sent w s'"
proof -
  note idle = idle_step [OF assms(1)]
  show ?thesis
    using assms idle
  proof (induction rule: fine_step.induct)
    case (F_dispatch s m q)
    moreover have "flying sent_ahead (s\<lparr>sy_queue := q, sy_pool := push_begin m (sy_pool s)\<rparr>)
        = flying sent_ahead s"
      by (rule flying_same) (simp_all add: push_begin_def)
    ultimately show ?case by (simp add: fine_sent_def)
  next
    case (F_dispatched k s)
    moreover have "flying sent_ahead (s\<lparr>sy_pool := push_end k (sy_pool s)\<rparr>) = flying sent_ahead s"
      by (rule flying_same) (simp_all add: push_end_def)
    ultimately show ?case by (simp add: fine_sent_def)
  next
    case (F_worker i s)
    then have "phases s i = T_start" by (simp add: fine_sent_def idle_phases_def)
    with F_worker show ?case by (simp add: fine_sent_def flying_worker)
  next
    case (F_task i s m ph q w')
    let ?s = "s\<lparr>sy_queue := q, sy_world := w', phases := (phases s)(i := ph)\<rparr>"
    let ?a = "sent_ahead (InTask m)"
    have "flying sent_ahead ?s + ?a (phases s i) = flying sent_ahead s + ?a ph"
      by (rule flying_task [OF F_task.hyps(1,2)])
    then have "(mset (executed w) + (\<Sum>(a, m)\<in>#ran s. mset (sent a m))) + flying sent_ahead ?s
        = mset (executed w') + {#}"
      by (rule mset_moved [OF _ task_step_sent [OF F_task.hyps(4,3)]])
        (use F_task.prems(1) in \<open>simp add: fine_sent_def\<close>)
    with F_task.prems show ?case by (simp add: fine_sent_def)
  next
    case (F_end i s m a)
    let ?s = "s\<lparr>sy_pool := worker_step i (sy_pool s), ran := add_mset (a, m) (ran s),
      phases := (phases s)(i := T_start)\<rparr>"
    have "workers (worker_step i (sy_pool s)) = (workers (sy_pool s))[i := AtDecrement m]"
      using F_end.hyps(2) by (simp add: pool_op)
    then have "flying sent_ahead s = flying sent_ahead ?s + mset (sent a m)"
      using flying_update [OF F_end.hyps(1), of ?s "AtDecrement m" T_start sent_ahead] F_end.hyps(2,3)
      by simp
    with F_end.prems show ?case by (simp add: fine_sent_def ac_simps)
  qed (simp_all add: fine_sent_def flying_def)
qed

interpretation fine_history: kept "fine_step (recorded z) h c ready" "fine_sent w" for z h c ready w
  by unfold_locales (rule fine_step_sent)

lemma fine_sent_start: "fine_sent w (fine_start n w)"
  by (simp add: fine_sent_def fine_start_def flying_def idle_phases_def)

lemma fine_step_refuses: "fine_step z h c ready s s' \<Longrightarrow> only_refuses c s \<Longrightarrow> only_refuses c s'"
  by (induction rule: fine_step.induct) (auto simp: only_refuses_def)

interpretation fine_limit: kept "fine_step z h c ready" "only_refuses c" for z h c ready
  by unfold_locales (rule fine_step_refuses)

lemma only_refuses_fine_start: "only_refuses c (fine_start n w)"
  by (simp add: only_refuses_def fine_start_def)

lemma fine_reachable_refuses: "fine_reachable z h c ready n w s \<Longrightarrow> only_refuses c s"
  unfolding fine_reachable_def by (rule fine_limit.always [OF _ only_refuses_fine_start])

section \<open>At rest\<close>

lemma flying_at_rest:
  assumes "in_pool (sy_pool s) = {#}" and "\<And>v ph. \<not> in_task v \<Longrightarrow> g v ph = {#}"
  shows "flying g s = {#}"
proof -
  have none: "\<forall>v\<in>set ws. held v = {#}" if "sum_list (map held ws) = {#}" for ws :: "queue_entry worker list"
    using that by (induction ws) auto
  have "\<not> in_task v" if "v \<in> set (workers (sy_pool s))" for v
    using none [of "workers (sy_pool s)"] that assms(1)
    by (cases v) (auto simp: in_pool_def in_workers_def)
  then show ?thesis using assms(2) by (simp add: flying_def)
qed

text \<open>The single-step model of \<open>System\<close> and this one agree on what is left when nothing is under way.\<close>

lemma fine_at_rest:
  assumes "fine_reachable (recorded z) h c ready n w s" and "at_rest s"
  shows "handed_in s = finished s + refused s \<and> executed_inv w s \<and> only_refuses c s"
proof -
  have "\<not> in_task v \<Longrightarrow> put_ahead v ph = {#}" "\<not> in_task v \<Longrightarrow> sent_ahead v ph = {#}" for v ph
    by (cases v; simp)+
  then have "flying put_ahead s = {#}" "flying sent_ahead s = {#}"
    using assms(2) by (simp_all add: flying_at_rest at_rest_def)
  moreover have "fine_sent w s"
    using assms(1) unfolding fine_reachable_def by (rule fine_history.always [OF _ fine_sent_start])
  ultimately show ?thesis
    using fine_reachable_inv [OF assms(1)] fine_reachable_refuses [OF assms(1)] assms(2)
    by (simp add: fine_inv_def fine_sent_def executed_inv_def at_rest_def nothing_pending)
qed

end
