(* ===== verification/ConnectionLimit.thy ===== *)
theory ConnectionLimit
  imports TaskSteps
begin

text \<open>
  The connections of the database pool as a resource the running tasks share. libzdb hands out at most
  \<open>m\<close> at once; \<open>main\<close> gives the thread pool \<open>m + 1\<close> threads. With at most \<open>m\<close> threads every
  message is executed; with \<open>m + 1\<close> one can be lost.
\<close>

section \<open>A pool of connections\<close>

text \<open>
  What libzdb promises, and the program relies on: while fewer than \<open>m\<close> connections are out, \<open>getConnection\<close>
  gives a new one; when all are, it throws; \<open>returnConnection\<close> and the destructor of a connection
  give it back; nothing else touches them. \<open>out s\<close> is the set of the connections that are out.
\<close>

definition limited_pool :: "'z outside \<Rightarrow> nat \<Rightarrow> nat \<Rightarrow> ('z \<Rightarrow> nat set) \<Rightarrow> bool" where
  "limited_pool z p m out \<longleftrightarrow>
     (\<forall>s. finite (out s))
     \<and> (\<forall>s. card (out s) < m \<longrightarrow>
          (\<exists>con s'. pool_get_connection z p s = (Inr con, s') \<and> \<not> con_null z con
             \<and> con \<notin> out s \<and> out s' = insert con (out s)))
     \<and> (\<forall>s. m \<le> card (out s) \<longrightarrow>
          (\<exists>e s'. pool_get_connection z p s = (Inl e, s') \<and> out s' = out s))
     \<and> (\<forall>con s. out (snd (pool_return_connection z p con s)) = out s - {con})
     \<and> (\<forall>con s. out (con_close z con s) = out s - {con})
     \<and> (\<forall>con q s. out (snd (con_execute z con q s)) = out s)
     \<and> (\<forall>s. out (snd (clock_seconds z s)) = out s)"

text \<open>A database that executes every query it gets.\<close>

definition serves :: "'z outside \<Rightarrow> bool" where
  "serves z \<longleftrightarrow> (\<forall>con q s. fst (con_execute z con q s) = None)"

lemma limited_get:
  "limited_pool z p m out \<Longrightarrow> card (out s) < m \<Longrightarrow>
   \<exists>con s'. pool_get_connection z p s = (Inr con, s') \<and> \<not> con_null z con \<and> con \<notin> out s
     \<and> out s' = insert con (out s)"
  unfolding limited_pool_def by (elim conjE) (erule allE, erule (1) mp)

lemma limited_full:
  "limited_pool z p m out \<Longrightarrow> m \<le> card (out s) \<Longrightarrow>
   \<exists>e s'. pool_get_connection z p s = (Inl e, s') \<and> out s' = out s"
  unfolding limited_pool_def by (elim conjE) (erule allE, erule (1) mp)

lemma limited_finite: "limited_pool z p m out \<Longrightarrow> finite (out s)"
  unfolding limited_pool_def by (elim conjE) (simp only:)

lemma limited_return:
  "limited_pool z p m out \<Longrightarrow> out (snd (pool_return_connection z p con s)) = out s - {con}"
  unfolding limited_pool_def by (elim conjE) (simp only:)

lemma limited_close: "limited_pool z p m out \<Longrightarrow> out (con_close z con s) = out s - {con}"
  unfolding limited_pool_def by (elim conjE) (simp only:)

lemma limited_execute: "limited_pool z p m out \<Longrightarrow> out (snd (con_execute z con q s)) = out s"
  unfolding limited_pool_def by (elim conjE) (simp only:)

lemma limited_clock: "limited_pool z p m out \<Longrightarrow> out (snd (clock_seconds z s)) = out s"
  unfolding limited_pool_def by (elim conjE) (simp only:)

lemma fst_snd_lift [simp]: "fst (snd (lift_call f s)) = snd (f (fst s))"
  "fst (lift_call f s) = fst (f (fst s))" "fst (lift_run g s) = g (fst s)"
  by (simp_all add: lift_call_def lift_run_def split: prod.split)

lemma limited_recorded:
  assumes "limited_pool z p m out"
  shows "limited_pool (recorded z) p m (\<lambda>s. out (fst s))"
  unfolding limited_pool_def
proof (intro conjI allI impI)
  fix s :: "'a \<times> byte list list"
  assume "card (out (fst s)) < m"
  from limited_get [OF assms this] show "\<exists>con s'. pool_get_connection (recorded z) p s = (Inr con, s')
      \<and> \<not> con_null (recorded z) con \<and> con \<notin> out (fst s) \<and> out (fst s') = insert con (out (fst s))"
    by (auto simp: recorded_def lift_call_def)
next
  fix s :: "'a \<times> byte list list"
  assume "m \<le> card (out (fst s))"
  from limited_full [OF assms this] show "\<exists>e s'. pool_get_connection (recorded z) p s = (Inl e, s')
      \<and> out (fst s') = out (fst s)"
    by (auto simp: recorded_def lift_call_def)
qed (simp_all add: recorded_def limited_finite [OF assms] limited_return [OF assms]
      limited_close [OF assms] limited_execute [OF assms] limited_clock [OF assms])

lemma serves_recorded: "serves z \<Longrightarrow> serves (recorded z)"
  by (simp add: serves_def recorded_def)

lemma out_call: "call f w = (r, w') \<Longrightarrow> out (ext w') = out (snd (f (ext w)))"
  by (auto simp: call_def split: prod.splits)

section \<open>The connections the tasks hold\<close>

fun holding :: "phase \<Rightarrow> nat set" where
  "holding (T_execute con) = {con}"
| "holding (T_caught con what) = {con}"
| "holding (T_return con a) = {con}"
| "holding _ = {}"

lemma card_holding: "finite (holding ph)" "card (holding ph) \<le> 1"
  by (cases ph; simp)+

text \<open>
  What a task can come to on a database that executes what it gets: its query is executed, or
  it gets no connection.
\<close>

fun mild :: "phase \<Rightarrow> bool" where
  "mild (T_caught con what) = False"
| "mild (T_return con a) = (a = Executed)"
| "mild (T_close con a) = (a = Executed)"
| "mild (T_end a) = (a = Executed \<or> a = NoConnection)"
| "mild T_no_handler = False"
| "mild _ = True"

text \<open>
  A step of a task changes the connections out by its own; it ends without a connection only
  where it asks while all of them are out.
\<close>

lemma task_step_mild:
  assumes step: "task_step z (Some h) m (ph, q, w) = (ph', q', w')" and "\<not> ended ph" and "mild ph"
    and p: "conpool h = Some p" and z: "limited_pool z p k out" "serves z"
  shows "mild ph' \<and> out (ext w') \<subseteq> out (ext w) - holding ph \<union> holding ph'
    \<and> (ph' = T_end NoConnection \<longrightarrow> ph = T_get \<and> k \<le> card (out (ext w)))"
proof (cases ph)
  case T_start
  obtain now w1 where clock: "call (clock_seconds z) w = (now, w1)" by fastforce
  with out_call [OF clock, of out] step T_start p show ?thesis
    by (simp add: hasConnectionPool_def limited_clock [OF z(1)])
next
  case T_get
  show ?thesis
  proof (cases "card (out (ext w)) < k")
    case True
    obtain con s' where "pool_get_connection z p (ext w) = (Inr con, s')" "\<not> con_null z con"
        "out s' = insert con (out (ext w))"
      using limited_get [OF z(1) True] by blast
    with step T_get p show ?thesis by (auto simp: getConnection_def call_def)
  next
    case False
    then obtain e s' where "pool_get_connection z p (ext w) = (Inl e, s')" "out s' = out (ext w)"
      using limited_full [OF z(1)] by (meson not_le)
    then have "getConnection z h w = (None, w\<lparr>ext := s'\<rparr>)"
      using p by (simp add: getConnection_def call_def)
    with step T_get have "ph' = T_end NoConnection" "w' = w\<lparr>ext := s'\<rparr>" by simp_all
    with \<open>out s' = out (ext w)\<close> T_get False show ?thesis by simp
  qed
next
  case (T_execute con)
  obtain x w1 where ex: "call (con_execute z con (c_str (query m))) w = (x, w1)" by fastforce
  have "fst (con_execute z con (c_str (query m)) (ext w)) = None" using z(2) by (simp add: serves_def)
  with ex have "x = None" by (simp add: call_def split: prod.splits)
  with ex out_call [OF ex, of out] step T_execute show ?thesis
    by (auto simp: limited_execute [OF z(1)])
next
  case (T_return con a)
  obtain x w1 where ret: "call (pool_return_connection z p con) w = (x, w1)" by fastforce
  then have "out (ext w1) = out (ext w) - {con}"
    using out_call [OF ret, of out] by (simp add: limited_return [OF z(1)])
  moreover have "ph' = T_close con a" "w' = w1"
    using step T_return p ret by (simp_all add: returnConnection_def)
  ultimately show ?thesis using assms(3) T_return by simp
next
  case (T_close con a)
  with step assms(3) show ?thesis by (auto simp: limited_close [OF z(1)] run_ext_def)
qed (use assms(2,3) in simp_all)

section \<open>The messages that are lost\<close>

text \<open>
  The messages whose task has asked for a connection in vain. It neither executes them nor puts
  them back.
\<close>

fun gave_up :: "queue_entry worker \<Rightarrow> phase \<Rightarrow> queue_entry multiset" where
  "gave_up (InTask m) ph = (if ph = T_end NoConnection then {#m#} else {#})"
| "gave_up _ ph = {#}"

definition lost :: "'z fine_system \<Rightarrow> queue_entry multiset" where
  "lost s = image_mset snd (filter_mset (\<lambda>(a, m). a = NoConnection) (ran s)) + flying gave_up s"

lemma gave_up_start [simp]: "gave_up v T_start = {#}"
  by (cases v) simp_all

lemma lost_same:
  "workers (sy_pool s') = workers (sy_pool s) \<Longrightarrow> phases s' = phases s \<Longrightarrow> ran s' = ran s \<Longrightarrow>
   lost s' = lost s"
  using flying_same [of s' s gave_up] by (simp add: lost_def)

lemma lost_worker:
  assumes "i < length (workers (sy_pool s))" and "phases s i = T_start"
  shows "lost (s\<lparr>sy_pool := worker_step i (sy_pool s)\<rparr>) = lost s"
  using flying_worker [OF assms, of gave_up] by (simp add: lost_def)

lemma lost_task:
  assumes "i < length (workers (sy_pool s))" and "workers (sy_pool s) ! i = InTask m"
    and "\<not> ended (phases s i)" and "ph \<noteq> T_end NoConnection"
  shows "lost (s\<lparr>sy_queue := q, sy_world := w, phases := (phases s)(i := ph)\<rparr>) = lost s"
proof -
  have "gave_up (InTask m) (phases s i) = {#}" using assms(3) by auto
  with flying_task [OF assms(1,2), where g = gave_up and q = q and w = w and ph = ph] assms(4)
  show ?thesis by (simp add: lost_def)
qed

lemma lost_end:
  assumes "i < length (workers (sy_pool s))" and "workers (sy_pool s) ! i = InTask m"
    and "phases s i = T_end a"
  shows "lost (s\<lparr>sy_pool := worker_step i (sy_pool s), ran := add_mset (a, m) (ran s),
      phases := (phases s)(i := T_start)\<rparr>) = lost s"
proof -
  let ?s = "s\<lparr>sy_pool := worker_step i (sy_pool s), ran := add_mset (a, m) (ran s),
      phases := (phases s)(i := T_start)\<rparr>"
  have "workers (worker_step i (sy_pool s)) = (workers (sy_pool s))[i := AtDecrement m]"
    using assms(2) by (simp add: pool_op)
  then have "flying gave_up s = flying gave_up ?s + gave_up (InTask m) (T_end a)"
    using flying_update [OF assms(1), of ?s "AtDecrement m" T_start gave_up] assms(2,3) by simp
  then show ?thesis by (simp add: lost_def)
qed

section \<open>What the tasks hold, in every state\<close>

text \<open>
  The connections out are held by tasks, and each task has been executed or got no connection.
\<close>

definition mild_inv :: "('z \<Rightarrow> nat set) \<Rightarrow> nat \<Rightarrow> 'z fine_system \<Rightarrow> bool" where
  "mild_inv out n s \<longleftrightarrow> length (workers (sy_pool s)) = n
     \<and> out (ext (sy_world s)) \<subseteq> (\<Union>i<n. holding (phases s i))
     \<and> (\<forall>i. mild (phases s i)) \<and> (\<forall>(a, m)\<in>#ran s. a = Executed \<or> a = NoConnection)"

lemma moved_subset: "X \<subseteq> A - H \<union> K \<Longrightarrow> B - H \<union> K \<subseteq> C \<Longrightarrow> A \<subseteq> B \<Longrightarrow> X \<subseteq> C"
  by blast

lemma mild_step:
  assumes "fine_step z h c ready s s'" and "mild_inv out n s"
    and p: "conpool h = Some p" and z: "limited_pool z p k out" "serves z"
  shows "mild_inv out n s'"
  using assms(1,2)
proof (induction rule: fine_step.induct)
  case (F_task i s m ph q w)
  have "mild (phases s i)" using F_task.prems by (simp add: mild_inv_def)
  with task_step_mild [OF F_task.hyps(4,3) _ p z]
  have "mild ph" and step: "out (ext w) \<subseteq> out (ext (sy_world s)) - holding (phases s i) \<union> holding ph"
    by simp_all
  have "(\<Union>j<n. holding (phases s j)) - holding (phases s i) \<union> holding ph
      \<subseteq> (\<Union>j<n. holding (((phases s)(i := ph)) j))"
    using F_task.hyps(1) F_task.prems by (auto simp: mild_inv_def)
  moreover have "out (ext (sy_world s)) \<subseteq> (\<Union>j<n. holding (phases s j))"
    using F_task.prems by (simp add: mild_inv_def)
  ultimately have "out (ext w) \<subseteq> (\<Union>j<n. holding (((phases s)(i := ph)) j))"
    by (rule moved_subset [OF step])
  with \<open>mild ph\<close> show ?case using F_task.prems by (simp add: mild_inv_def)
next
  case (F_end i s m a)
  then have "a = Executed \<or> a = NoConnection" by (metis mild.simps(4) mild_inv_def)
  moreover have "(\<Union>j<n. holding (((phases s)(i := T_start)) j)) = (\<Union>j<n. holding (phases s j))"
    using F_end.hyps(3) by (intro SUP_cong) auto
  ultimately show ?case using F_end.prems by (auto simp: mild_inv_def)
qed (simp_all add: mild_inv_def push_begin_def push_end_def)

interpretation connected: kept "fine_step z h c ready" "\<lambda>s. conpool h = Some p \<and> limited_pool z p k out
    \<and> serves z \<and> mild_inv out n s" for z h c ready p k out n
  by unfold_locales (use mild_step in blast)

lemma mild_reachable:
  assumes "limited_pool z p k out" and "serves z" and "out (fst (ext w)) = {}"
    and "conpool h = Some p" and "fine_reachable (recorded z) h c ready n w s"
  shows "mild_inv (\<lambda>s. out (fst s)) n s"
proof -
  have "mild_inv (\<lambda>s. out (fst s)) n (fine_start n w)"
    using assms(3) by (simp add: mild_inv_def fine_start_def pool_make_def)
  with connected.always [OF assms(5) [unfolded fine_reachable_def]] limited_recorded [OF assms(1)]
    serves_recorded [OF assms(2)] assms(4) show ?thesis by blast
qed

text \<open>At rest each message that was handed in has been executed or is lost.\<close>

lemma executed_or_lost:
  assumes "fine_reachable (recorded z) h c ready n w s" and "mild_inv out n s"
    and "\<not> obey_work_retry_count c" and "at_rest s"
  shows "mset (executed (sy_world s)) + image_mset (c_str \<circ> query) (lost s)
    = mset (executed w) + image_mset (c_str \<circ> query) (handed_in s)"
proof -
  have sums: "(\<Sum>(a, m)\<in>#M. mset (sent a m))
        + image_mset (c_str \<circ> query) (image_mset snd (filter_mset (\<lambda>(a, m). a = NoConnection) M))
      = image_mset (c_str \<circ> query) (image_mset snd M)
      \<and> image_mset snd (filter_mset (\<lambda>(a, m). put_back a m = []) M) = image_mset snd M"
    if "\<forall>(a, m)\<in>#M. a = Executed \<or> a = NoConnection" for M
    using that by (induction M) auto
  have "\<not> in_task v \<Longrightarrow> gave_up v ph = {#}" for v ph by (cases v) simp_all
  then have "flying gave_up s = {#}" using assms(4) by (simp add: flying_at_rest at_rest_def)
  then have lost: "lost s = image_mset snd (filter_mset (\<lambda>(a, m). a = NoConnection) (ran s))"
    by (simp add: lost_def)
  have rest: "handed_in s = finished s + refused s" "executed_inv w s" "only_refuses c s"
    using fine_at_rest [OF assms(1,4)] by simp_all
  have "refused s = {#}" using rest(3) assms(3) by (auto simp: retry_allowed_def only_refuses_def)
  moreover have ran: "\<forall>(a, m)\<in>#ran s. a = Executed \<or> a = NoConnection"
    using assms(2) by (simp add: mild_inv_def)
  ultimately have "handed_in s = image_mset snd (ran s)"
    using rest(1) sums [OF ran] by (simp add: finished_def)
  with rest(2) sums [OF ran] lost show ?thesis by (simp add: executed_inv_def add.assoc)
qed

section \<open>Enough connections\<close>

text \<open>A worker that asks for a connection holds none, so with enough of them there is one left.\<close>

lemma free_connection:
  assumes "out (ext w) \<subseteq> (\<Union>j<n. holding (ph j))" and "i < n" and "ph i = T_get"
  shows "card (out (ext w)) < n"
proof -
  have "out (ext w) \<subseteq> (\<Union>j\<in>{..<n} - {i}. holding (ph j))"
    using assms by (force split: if_splits)
  then have "card (out (ext w)) \<le> card (\<Union>j\<in>{..<n} - {i}. holding (ph j))"
    by (intro card_mono) (simp_all add: card_holding)
  also have "\<dots> \<le> (\<Sum>j\<in>{..<n} - {i}. card (holding (ph j)))" by (rule card_UN_le) simp
  also have "\<dots> \<le> (\<Sum>j\<in>{..<n} - {i}. 1)" by (rule sum_mono) (rule card_holding)
  also have "\<dots> < n" using assms(2) by simp
  finally show ?thesis .
qed

lemma nothing_lost_step:
  assumes "fine_step z h c ready s s'" and "mild_inv out n s" and "idle_phases s"
    and p: "conpool h = Some p" and z: "limited_pool z p k out" "serves z" and "n \<le> k"
  shows "lost s' = lost s"
  using assms(1-3)
proof (induction rule: fine_step.induct)
  case (F_task i s m ph q w)
  have "mild (phases s i)" using F_task.prems(1) by (simp add: mild_inv_def)
  note task = task_step_mild [OF F_task.hyps(4,3) this p z]
  have "ph \<noteq> T_end NoConnection"
  proof
    assume "ph = T_end NoConnection"
    with task have "phases s i = T_get" "k \<le> card (out (ext (sy_world s)))" by simp_all
    then show False
      using free_connection [where out = out and w = "sy_world s" and n = n and ph = "phases s" and i = i]
        F_task.hyps(1) F_task.prems(1) assms(7) by (simp add: mild_inv_def)
  qed
  then show ?case by (rule lost_task [OF F_task.hyps(1-3)])
next
  case (F_end i s m a)
  show ?case by (rule lost_end [OF F_end.hyps(1-3)])
next
  case (F_worker i s)
  then show ?case by (intro lost_worker) (simp_all add: idle_phases_def)
qed (rule lost_same; simp add: push_begin_def push_end_def)+

lemma nothing_lost:
  assumes "limited_pool z p k out" and "serves z" and "out (fst (ext w)) = {}"
    and "conpool h = Some p" and "n \<le> k" and "fine_reachable (recorded z) h c ready n w s"
  shows "lost s = {#}"
  using assms(6) unfolding fine_reachable_def
proof (induction rule: rtranclp_induct)
  case base
  show ?case by (simp add: lost_def fine_start_def flying_def)
next
  case (step s1 s2)
  then have reach: "fine_reachable (recorded z) h c ready n w s1" by (simp add: fine_reachable_def)
  have "idle_phases s1" using fine_reachable_inv [OF reach] by (simp add: fine_inv_def)
  from nothing_lost_step [OF step.hyps(2) mild_reachable [OF assms(1-4) reach] this assms(4)
      limited_recorded [OF assms(1)] serves_recorded [OF assms(2)] assms(5)] step.IH
  show ?case by simp
qed

text \<open>
  C5: with at least as many connections as threads nothing is lost under load. Take any
  interleaving of clients, output thread and the single steps of all tasks, in a pool of \<open>n\<close>
  threads, on a database that executes what it gets and gives out up to \<open>m\<close> connections, \<open>n \<le> m\<close>:
  every task gets a connection, and when nothing is left in the queue and in the pool the database
  has executed exactly the queries (up to their first NUL byte) that were handed in, each once.
\<close>

theorem enough_connections_execute_all:
  assumes "limited_pool z p m out" and "serves z" and "out (fst (ext w)) = {}"
    and "conpool h = Some p" and "n \<le> m" and "\<not> obey_work_retry_count c"
    and "fine_reachable (recorded z) h c ready n w s" and "at_rest s"
  shows "mset (executed (sy_world s))
    = mset (executed w) + image_mset (c_str \<circ> query) (handed_in s)"
  using executed_or_lost [OF assms(7) mild_reachable [OF assms(1-4,7)] assms(6,8)]
    nothing_lost [OF assms(1-5,7)]
  by simp

section \<open>One thread too many\<close>

text \<open>The test of the output thread before it takes a message.\<close>

definition below_limit :: "nat \<Rightarrow> queue_entry thread_pool \<Rightarrow> bool" where
  "below_limit m p \<longleftrightarrow> get_tasks_running p p < word_of_nat m"

text \<open>A state in which the given phases have been reached by tasks that took all messages.\<close>

definition loaded :: "queue_entry list \<Rightarrow> 'z world \<Rightarrow> (nat \<Rightarrow> phase) \<Rightarrow> 'z fine_system" where
  "loaded ms w ph =
     \<lparr>sy_queue = lq_new, sy_pool = waiting_pool (length ms) ms [], sy_world = w,
      handed_in = mset ms, ran = {#}, refused = {#}, phases = ph\<rparr>"

definition queued :: "nat \<Rightarrow> queue_entry list \<Rightarrow> queue_entry list \<Rightarrow> queue_entry list \<Rightarrow>
  queue_entry list \<Rightarrow> 'z world \<Rightarrow> 'z fine_system" where
  "queued n qs busy ts all w =
     \<lparr>sy_queue = \<lparr>queue = qs\<rparr>, sy_pool = waiting_pool n busy ts, sy_world = w,
      handed_in = mset all, ran = {#}, refused = {#}, phases = (\<lambda>_. T_start)\<rparr>"

lemma queued_clients:
  "(fine_step z h c ready)\<^sup>*\<^sup>* (fine_start n w) (queued n (map (\<lambda>(t, b). entry_of t b) cs) [] []
     (map (\<lambda>(t, b). entry_of t b) cs) w)"
proof (induction cs rule: rev_induct)
  case Nil
  then show ?case
    by (simp add: fine_start_def queued_def lq_new_def waiting_pool_def pool_make_def)
next
  case (snoc x cs)
  obtain t b where x: "x = (t, b)" by fastforce
  have "fine_step z h c ready
      (queued n (map (\<lambda>(t, b). entry_of t b) cs) [] [] (map (\<lambda>(t, b). entry_of t b) cs) w)
      (queued n (map (\<lambda>(t, b). entry_of t b) (cs @ [x])) [] [] (map (\<lambda>(t, b). entry_of t b) (cs @ [x])) w)"
    using F_client [where s = "queued n (map (\<lambda>(t, b). entry_of t b) cs) [] []
        (map (\<lambda>(t, b). entry_of t b) cs) w" and now = t and payload = b]
    by (simp add: queued_def addMessage_def lq_push_def x)
  with snoc show ?case by (rule rtranclp.rtrancl_into_rtrancl)
qed

lemma queued_dispatch:
  assumes "0 < m" and "m < 2 ^ 64" and "\<not> obey_work_retry_count c"
  shows "(fine_step z h c (below_limit m))\<^sup>*\<^sup>* (queued n qs [] ts all w) (queued n [] [] (ts @ qs) all w)"
proof (induction qs arbitrary: ts)
  case (Cons q qs)
  let ?s = "queued n (q # qs) [] ts all w"
  let ?t = "?s\<lparr>sy_queue := \<lparr>queue = qs\<rparr>, sy_pool := push_begin q (waiting_pool n [] ts)\<rparr>"
  have "fine_step z h c (below_limit m) ?s ?t"
    using F_dispatch [where s = ?s and m = q and q = "\<lparr>queue = qs\<rparr>" and ready = "below_limit m"]
      waiting_pool_ready [OF assms(1,2), of n ts] assms(3)
    by (simp add: queued_def lq_pop_def below_limit_def retry_allowed_def)
  moreover have "fine_step z h c (below_limit m) ?t (queued n qs [] (ts @ [q]) all w)"
    using F_dispatched [where s = ?t and k = 0] waiting_pool_pushed [of q n ts]
    by (simp add: queued_def push_begin_def)
  moreover have "(fine_step z h c (below_limit m))\<^sup>*\<^sup>* (queued n qs [] (ts @ [q]) all w)
      (queued n [] [] (ts @ q # qs) all w)"
    using Cons.IH [of "ts @ [q]"] by simp
  ultimately show ?case by (meson converse_rtranclp_into_rtranclp)
qed simp

lemma fetch_fine:
  "fetch_step\<^sup>*\<^sup>* p p' \<Longrightarrow>
   (fine_step z h c ready)\<^sup>*\<^sup>* (s\<lparr>sy_pool := p\<rparr>) (s\<lparr>sy_pool := p'\<rparr>)"
proof (induction rule: rtranclp_induct)
  case (step p1 p2)
  from step.hyps(2) have "fine_step z h c ready (s\<lparr>sy_pool := p1\<rparr>) (s\<lparr>sy_pool := p2\<rparr>)"
    by (cases rule: fetch_step.cases)
      (use F_worker [where s = "s\<lparr>sy_pool := p1\<rparr>"] in simp)
  with step show ?case by (meson rtranclp.rtrancl_into_rtrancl)
qed simp

lemma load_reached:
  assumes "0 < m" and "m < 2 ^ 64" and "\<not> obey_work_retry_count c"
  shows "fine_reachable z h c (below_limit m) (length cs) w
    (loaded (map (\<lambda>(t, b). entry_of t b) cs) w (\<lambda>_. T_start))"
proof -
  let ?ms = "map (\<lambda>(t, b). entry_of t b) cs" and ?n = "length cs"
  have "(fine_step z h c (below_limit m))\<^sup>*\<^sup>* (fine_start ?n w) (queued ?n ?ms [] [] ?ms w)"
    by (rule queued_clients)
  also have "(fine_step z h c (below_limit m))\<^sup>*\<^sup>* \<dots> (queued ?n [] [] ?ms ?ms w)"
    using queued_dispatch [OF assms, of z h ?n ?ms "[]" ?ms w] by simp
  also have "(fine_step z h c (below_limit m))\<^sup>*\<^sup>* \<dots> (queued ?n [] ?ms [] ?ms w)"
    using fetch_fine [OF waiting_pool_all [of "[]" ?ms ?n], where s = "queued ?n [] [] ?ms ?ms w"]
    by (simp add: queued_def)
  finally show ?thesis
    by (simp add: fine_reachable_def loaded_def queued_def lq_new_def)
qed

lemma loaded_task:
  assumes "i < length ms" and "\<not> ended (ph i)"
    and "task_step z (Some h) (ms ! i) (ph i, lq_new, w) = (ph', lq_new, w')"
  shows "fine_step z h c ready (loaded ms w ph) (loaded ms w' (ph(i := ph')))"
  using F_task [where s = "loaded ms w ph" and i = i and m = "ms ! i" and ph = ph' and q = lq_new
      and w = w'] assms
  by (simp add: loaded_def waiting_pool_def)

text \<open>A task asks for its connection.\<close>

lemma loaded_asks:
  assumes "i < length ms" and "ph i = T_start" and p: "conpool h = Some p"
    and z: "limited_pool z p m out"
  shows "\<exists>w'. (fine_step (recorded z) h c ready)\<^sup>*\<^sup>* (loaded ms w ph) (loaded ms w' (ph(i := T_get)))
    \<and> out (fst (ext w')) = out (fst (ext w)) \<and> syslog w' = syslog w \<and> executed w' = executed w"
proof -
  obtain now w' where clock: "call (clock_seconds (recorded z)) w = (now, w')" by fastforce
  then have "task_step (recorded z) (Some h) (ms ! i) (ph i, lq_new, w) = (T_get, lq_new, w')"
    using p assms(2) by (simp add: hasConnectionPool_def)
  then have "fine_step (recorded z) h c ready (loaded ms w ph) (loaded ms w' (ph(i := T_get)))"
    using assms(1,2) by (intro loaded_task) simp_all
  moreover have "out (fst (ext w')) = out (fst (ext w))"
    using out_call [OF clock, of "\<lambda>s. out (fst s)"] limited_clock [OF limited_recorded [OF z]] by simp
  ultimately show ?thesis using syslog_call [OF clock] executed_clock [OF clock] by blast
qed

lemma loaded_connects:
  assumes p: "conpool h = Some p" and z: "limited_pool z p m out" and "out (fst (ext w)) = {}"
    and "i \<le> m" and "i \<le> length ms"
  shows "\<exists>w' ph. (fine_step (recorded z) h c ready)\<^sup>*\<^sup>* (loaded ms w (\<lambda>_. T_start)) (loaded ms w' ph)
    \<and> card (out (fst (ext w'))) = i \<and> syslog w' = syslog w \<and> executed w' = executed w
    \<and> (\<forall>j\<ge>i. ph j = T_start)"
  using assms(4,5)
proof (induction i)
  case 0
  then show ?case using assms(3) by (intro exI [of _ w] exI [of _ "\<lambda>_. T_start"]) simp
next
  case (Suc i)
  then obtain w1 ph where run: "(fine_step (recorded z) h c ready)\<^sup>*\<^sup>* (loaded ms w (\<lambda>_. T_start)) (loaded ms w1 ph)"
    and 1: "card (out (fst (ext w1))) = i" "syslog w1 = syslog w" "executed w1 = executed w"
    and ph: "\<forall>j\<ge>i. ph j = T_start" by auto
  obtain w2 where asks: "(fine_step (recorded z) h c ready)\<^sup>*\<^sup>* (loaded ms w1 ph) (loaded ms w2 (ph(i := T_get)))"
    and 2: "out (fst (ext w2)) = out (fst (ext w1))" "syslog w2 = syslog w1" "executed w2 = executed w1"
    using loaded_asks [of i ms ph, OF _ _ p z] Suc.prems ph by (meson Suc_le_lessD order_refl)
  have "card (out (fst (ext w2))) < m" using 1 2 Suc.prems by simp
  then obtain con s' where
    get: "pool_get_connection (recorded z) p (ext w2) = (Inr con, s')" "\<not> con_null (recorded z) con"
      "con \<notin> out (fst (ext w2))" "out (fst s') = insert con (out (fst (ext w2)))"
    using limited_get [OF limited_recorded [OF z]] by blast
  let ?w3 = "w2\<lparr>ext := s'\<rparr>"
  have con: "getConnection (recorded z) h w2 = (Some con, ?w3)"
    using p get(1) by (simp add: getConnection_def call_def)
  then have "task_step (recorded z) (Some h) (ms ! i) ((ph(i := T_get)) i, lq_new, w2)
      = (T_execute con, lq_new, ?w3)"
    using get(2) by simp
  then have "fine_step (recorded z) h c ready (loaded ms w2 (ph(i := T_get)))
      (loaded ms ?w3 (ph(i := T_get, i := T_execute con)))"
    using Suc.prems by (intro loaded_task) simp_all
  with run asks have "(fine_step (recorded z) h c ready)\<^sup>*\<^sup>* (loaded ms w (\<lambda>_. T_start))
      (loaded ms ?w3 (ph(i := T_execute con)))" by (simp add: rtranclp.rtrancl_into_rtrancl)
  moreover have "card (out (fst s')) = Suc i"
    using get(3,4) 1(1) 2(1) limited_finite [OF z] by simp
  moreover have "executed ?w3 = executed w" using executed_getConnection [OF con] 1 2 by simp
  ultimately show ?case
    using 1 2 ph
    by (intro exI [of _ ?w3] exI [of _ "ph(i := T_execute con)"] conjI) (assumption | simp)+
qed

text \<open>
  C6: with one thread more than connections, which is what \<open>main\<close> asks for, a message can be lost under
  load although the database is in order. For any \<open>m\<close> and any \<open>m + 1\<close> messages there is a run of the
  program, in which the output thread checks its limit before every message, that leads to
  a state in which the last message is neither in the queue nor in the pool; its task has ended
  without a connection, nothing has been executed for it, and no line is in the system log.
\<close>

theorem surplus_thread_loses_message:
  assumes "limited_pool z p m out" and "out (fst (ext w)) = {}" and "conpool h = Some p"
    and "0 < m" and "m < 2 ^ 64" and "length cs = m + 1" and "\<not> obey_work_retry_count c"
  shows "\<exists>s. fine_reachable (recorded z) h c (below_limit m) (m + 1) w s
    \<and> handed_in s = mset (map (\<lambda>(t, b). entry_of t b) cs)
    \<and> ran s = {#(NoConnection, (\<lambda>(t, b). entry_of t b) (last cs))#}
    \<and> queue (sy_queue s) = [] \<and> tasks (sy_pool s) = [] \<and> pushing (sy_pool s) = []
    \<and> executed (sy_world s) = executed w \<and> syslog (sy_world s) = syslog w"
proof -
  let ?z = "recorded z" and ?ms = "map (\<lambda>(t, b). entry_of t b) cs"
  let ?step = "fine_step ?z h c (below_limit m)"
  have "cs \<noteq> []" using assms(6) by auto
  then have len: "length ?ms = m + 1" "?ms ! m = (\<lambda>(t, b). entry_of t b) (last cs)"
    using assms(6) by (simp_all add: last_conv_nth)
  have start: "fine_reachable ?z h c (below_limit m) (m + 1) w (loaded ?ms w (\<lambda>_. T_start))"
    using load_reached [OF assms(4,5,7), of ?z h cs w] assms(6) by simp
  obtain w1 ph where run: "?step\<^sup>*\<^sup>* (loaded ?ms w (\<lambda>_. T_start)) (loaded ?ms w1 ph)"
    and 1: "card (out (fst (ext w1))) = m" "syslog w1 = syslog w" "executed w1 = executed w"
      "ph m = T_start"
    using loaded_connects [OF assms(3,1,2), of m ?ms c "below_limit m"] len by auto
  obtain w2 where asks: "?step\<^sup>*\<^sup>* (loaded ?ms w1 ph) (loaded ?ms w2 (ph(m := T_get)))"
    and 2: "out (fst (ext w2)) = out (fst (ext w1))" "syslog w2 = syslog w1" "executed w2 = executed w1"
    using loaded_asks [of m ?ms ph, OF _ 1(4) assms(3,1)] len by force
  have "m \<le> card (out (fst (ext w2)))" using 1 2 by simp
  then obtain e s' where "pool_get_connection ?z p (ext w2) = (Inl e, s')"
    using limited_full [OF limited_recorded [OF assms(1)]] by blast
  then have none: "getConnection ?z h w2 = (None, w2\<lparr>ext := s'\<rparr>)"
    using assms(3) by (simp add: getConnection_def call_def)
  let ?w3 = "w2\<lparr>ext := s'\<rparr>" and ?ph = "ph(m := T_end NoConnection)"
  have lost: "?step (loaded ?ms w2 (ph(m := T_get))) (loaded ?ms ?w3 (ph(m := T_get, m := T_end NoConnection)))"
    using none len by (intro loaded_task) simp_all
  let ?s = "(loaded ?ms ?w3 ?ph)\<lparr>sy_pool := worker_step m (waiting_pool (m + 1) ?ms []),
    ran := {#(NoConnection, ?ms ! m)#}, phases := ?ph(m := T_start)\<rparr>"
  have "?step (loaded ?ms ?w3 ?ph) ?s"
    using F_end [where s = "loaded ?ms ?w3 ?ph" and i = m and m = "?ms ! m" and a = NoConnection] len
    by (simp add: loaded_def waiting_pool_def)
  with run asks lost have "?step\<^sup>*\<^sup>* (loaded ?ms w (\<lambda>_. T_start)) ?s"
    by (simp add: rtranclp.rtrancl_into_rtrancl)
  with start have "fine_reachable ?z h c (below_limit m) (m + 1) w ?s"
    by (simp add: fine_reachable_def)
  moreover have "tasks (worker_step m (waiting_pool (m + 1) ?ms [])) = []
      \<and> pushing (worker_step m (waiting_pool (m + 1) ?ms [])) = []"
    using len by (simp add: pool_op waiting_pool_def)
  moreover have "executed ?w3 = executed w" using executed_getConnection [OF none] 1 2 by simp
  ultimately show ?thesis
    using 1 2 len(2) by (intro exI [of _ ?s]) (simp add: loaded_def lq_new_def)
qed

section \<open>A pool of connections for concrete runs\<close>

text \<open>The state is the list of the connections that are out; a new one has a number larger than all.\<close>

definition counted_outside :: "nat \<Rightarrow> nat list outside" where
  "counted_outside m =
     \<lparr>pool_new = (\<lambda>url s. (Inr 0, s)), pool_set_abort_handler = (\<lambda>p s. s),
      pool_set_initial = (\<lambda>p n s. s), pool_set_max = (\<lambda>p n s. s), pool_get_initial = (\<lambda>p s. 0),
      pool_get_max = (\<lambda>p s. int m), pool_active = (\<lambda>p s. int (length s)),
      pool_start = (\<lambda>p s. (None, s)), pool_stop = (\<lambda>p s. (None, s)), pool_delete = (\<lambda>p s. (None, s)),
      pool_get_connection = (\<lambda>p s. if card (set s) < m then (Inr (Suc (sum_list s)), Suc (sum_list s) # s)
                                  else (Inl (SqlException []), s)),
      pool_return_connection = (\<lambda>p con s. (None, removeAll con s)),
      con_null = (\<lambda>con. False), con_ping = (\<lambda>con s. (Inr True, s)),
      con_execute = (\<lambda>con q s. (None, s)), con_close = removeAll,
      clock_seconds = (\<lambda>s. (0, s)), sleep_usec = (\<lambda>n s. s)\<rparr>"

lemma counted_limited: "limited_pool (counted_outside m) p m set"
proof -
  have "Suc (sum_list s) \<notin> set s" for s :: "nat list"
    using member_le_sum_list [of _ s] by fastforce
  then show ?thesis by (simp add: limited_pool_def counted_outside_def)
qed

lemma counted_serves: "serves (counted_outside m)"
  by (simp add: serves_def counted_outside_def)

definition counted_world :: "(nat list \<times> byte list list) world" where
  "counted_world = \<lparr>ext = ([], []), syslog = []\<rparr>"

definition counted_handler :: libzdb_handler where
  "counted_handler = \<lparr>lh_config = None, dbserverindex = Some 0, conpool = Some 0\<rparr>"

lemma counted_start:
  "set (fst (ext counted_world)) = {}" "conpool counted_handler = Some 0"
  "\<not> obey_work_retry_count default_config" "executed counted_world = []" "syslog counted_world = []"
  by (simp_all add: counted_world_def counted_handler_def default_config_def executed_def)

theorem surplus_thread_loses_message_witness:
  "\<exists>s. fine_reachable (recorded (counted_outside 1)) counted_handler default_config (below_limit 1) 2
         counted_world s
    \<and> handed_in s = mset [entry_of 5 [65], entry_of 6 [66]]
    \<and> ran s = {#(NoConnection, entry_of 6 [66])#}
    \<and> executed (sy_world s) = [] \<and> syslog (sy_world s) = []"
proof -
  have "(1 :: nat) < 2 ^ 64" "length [(5 :: u64, [65 :: byte]), (6, [66])] = 1 + 1" by simp_all
  note lost = surplus_thread_loses_message
    [OF counted_limited counted_start(1,2) zero_less_one this counted_start(3)]
  show ?thesis by (rule ex_forward [OF lost]) (simp add: counted_start one_add_one del: One_nat_def)
qed

text \<open>One message from the client to the database.\<close>

definition counted_message :: queue_entry where
  "counted_message = entry_of 5 [65, 66]"

definition counted_at :: "nat list \<Rightarrow> byte list list \<Rightarrow> phase \<Rightarrow> (nat list \<times> byte list list) fine_system" where
  "counted_at cons qs ph =
     loaded [counted_message] \<lparr>ext = (cons, qs), syslog = []\<rparr> ((\<lambda>_. T_start)(0 := ph))"

abbreviation counted_step ::
  "(nat list \<times> byte list list) fine_system \<Rightarrow> (nat list \<times> byte list list) fine_system \<Rightarrow> bool" where
  "counted_step \<equiv>
     fine_step (recorded (counted_outside 1)) counted_handler default_config (below_limit 1)"

lemma constant_update: "(\<lambda>_. x)(i := x) = (\<lambda>_. x)"
  by auto

lemma counted_task:
  assumes "\<not> ended ph"
    and "task_step (recorded (counted_outside 1)) (Some counted_handler) counted_message
      (ph, lq_new, \<lparr>ext = (cons, qs), syslog = []\<rparr>) = (ph', lq_new, \<lparr>ext = (cons', qs'), syslog = []\<rparr>)"
  shows "counted_step (counted_at cons qs ph) (counted_at cons' qs' ph')"
  using loaded_task [of 0 "[counted_message]" "(\<lambda>_. T_start)(0 := ph)"
      "recorded (counted_outside 1)" counted_handler "\<lparr>ext = (cons, qs), syslog = []\<rparr>" ph'
      "\<lparr>ext = (cons', qs'), syslog = []\<rparr>"] assms
  by (simp add: counted_at_def)

lemmas counted_simps = counted_outside_def counted_handler_def recorded_def lift_call_def lift_run_def
  call_def run_ext_def hasConnectionPool_def getConnection_def returnConnection_def
  counted_message_def entry_of_def new_entry_def c_str_def

lemma counted_run: "counted_step\<^sup>*\<^sup>* (counted_at [] [] T_start) (counted_at [] [[65, 66]] (T_end Executed))"
proof -
  have "counted_step (counted_at [] [] T_start) (counted_at [] [] T_get)"
    by (rule counted_task) (simp_all add: counted_simps)
  moreover have "counted_step \<dots> (counted_at [1] [] (T_execute 1))"
    by (rule counted_task) (simp_all add: counted_simps)
  moreover have "counted_step \<dots> (counted_at [1] [[65, 66]] (T_return 1 Executed))"
    by (rule counted_task) (simp_all add: counted_simps)
  moreover have "counted_step \<dots> (counted_at [] [[65, 66]] (T_close 1 Executed))"
    by (rule counted_task) (simp_all add: counted_simps)
  moreover have "counted_step \<dots> (counted_at [] [[65, 66]] (T_end Executed))"
    by (rule counted_task) (simp_all add: counted_simps)
  ultimately show ?thesis by (meson converse_rtranclp_into_rtranclp rtranclp.rtrancl_refl)
qed

definition counted_done :: "(nat list \<times> byte list list) fine_system" where
  "counted_done =
     \<lparr>sy_queue = lq_new,
      sy_pool = (waiting_pool 1 [] [])\<lparr>submitted := {#counted_message#}, completed := {#counted_message#}\<rparr>,
      sy_world = \<lparr>ext = ([], [[65, 66]]), syslog = []\<rparr>, handed_in = {#counted_message#},
      ran = {#(Executed, counted_message)#}, refused = {#}, phases = (\<lambda>_. T_start)\<rparr>"

definition counted_ended :: "(nat list \<times> byte list list) fine_system" where
  "counted_ended =
     (counted_at [] [[65, 66]] (T_end Executed))\<lparr>sy_pool := worker_step 0 (waiting_pool 1 [counted_message] []),
       ran := {#(Executed, counted_message)#}, phases := (\<lambda>_. T_start)\<rparr>"

lemma counted_last: "counted_step (counted_at [] [[65, 66]] (T_end Executed)) counted_ended"
  using F_end [where s = "counted_at [] [[65, 66]] (T_end Executed)" and i = 0
      and m = counted_message and a = Executed]
  by (simp add: counted_ended_def counted_at_def loaded_def waiting_pool_def constant_update)

lemma counted_idle: "counted_step counted_ended counted_done"
proof -
  have "counted_step counted_ended (counted_ended\<lparr>sy_pool := worker_step 0 (sy_pool counted_ended)\<rparr>)"
    by (rule F_worker) (simp_all add: counted_ended_def waiting_pool_def pool_op)
  moreover have "counted_ended\<lparr>sy_pool := worker_step 0 (sy_pool counted_ended)\<rparr> = counted_done"
    by (simp add: counted_ended_def counted_done_def counted_at_def loaded_def waiting_pool_def pool_op)
  ultimately show ?thesis by simp
qed

lemma counted_done_reachable:
  "fine_reachable (recorded (counted_outside 1)) counted_handler default_config (below_limit 1) 1
     counted_world counted_done"
proof -
  have "fine_reachable (recorded (counted_outside 1)) counted_handler default_config (below_limit 1) 1
      counted_world (counted_at [] [] T_start)"
    using load_reached [of 1 default_config "recorded (counted_outside 1)" counted_handler
        "[(5, [65, 66])]" counted_world]
    by (simp add: counted_start counted_at_def counted_world_def counted_message_def constant_update)
  moreover have "counted_step\<^sup>*\<^sup>* (counted_at [] [] T_start) counted_done"
    using counted_run counted_last counted_idle by (meson rtranclp.rtrancl_into_rtrancl)
  ultimately show ?thesis unfolding fine_reachable_def by (rule rtranclp_trans)
qed

lemma counted_done_at_rest: "at_rest counted_done"
  by (simp add: at_rest_def counted_done_def lq_new_def in_pool_def in_workers_def waiting_pool_def)

theorem enough_connections_execute_all_witness: "mset (executed (sy_world counted_done)) = {#[65, 66]#}"
proof -
  from enough_connections_execute_all [OF counted_limited counted_serves counted_start(1,2) order_refl
      counted_start(3) counted_done_reachable counted_done_at_rest]
  show ?thesis
    unfolding counted_start(4)
    by (simp add: counted_done_def counted_message_def entry_of_def new_entry_def c_str_def)
qed

end
