(* ===== verification/Progress.thy ===== *)
theory Progress
  imports ConnectionLimit
begin

text \<open>
  The threads of the program never get stuck on their own, however their steps have interleaved and
  however the tasks have competed for connections: there is always a way on to a state in which
  all the work is done. The proof gives every state an amount of work, which some thread can
  always make smaller.
\<close>

section \<open>The workers are alive\<close>

definition alive :: "nat \<Rightarrow> 'z fine_system \<Rightarrow> bool" where
  "alive n s \<longleftrightarrow> running (sy_pool s) \<and> \<not> paused (sy_pool s)
     \<and> length (workers (sy_pool s)) = n \<and> Exited \<notin> set (workers (sy_pool s))"

lemma alive_worker_step:
  assumes "running p" "Exited \<notin> set (workers p)"
  shows "running (worker_step i p) \<and> paused (worker_step i p) = paused p
    \<and> Exited \<notin> set (workers (worker_step i p))"
  using assms
  by (auto simp: pool_op split: worker.split list.split
      dest!: set_update_subset_insert [THEN subsetD])

lemma fine_step_alive: "fine_step z h c ready s s' \<Longrightarrow> alive n s \<Longrightarrow> alive n s'"
proof (induction rule: fine_step.induct)
  case (F_worker i s)
  then show ?case using alive_worker_step [of "sy_pool s" i] by (simp add: alive_def)
next
  case (F_end i s m a)
  then show ?case using alive_worker_step [of "sy_pool s" i] by (simp add: alive_def)
qed (simp_all add: alive_def push_begin_def push_end_def)

lemma alive_start: "alive n (fine_start n w)"
  by (simp add: alive_def fine_start_def pool_make_def)

interpretation living: kept "fine_step z h c ready" "alive n" for z h c ready n
  by unfold_locales (rule fine_step_alive)

section \<open>The work that is left\<close>

text \<open>The steps a task has still to go, and those of a worker until it looks for a task.\<close>

fun steps_left :: "phase \<Rightarrow> nat" where
  "steps_left T_start = 6"
| "steps_left T_get = 5"
| "steps_left (T_execute con) = 4"
| "steps_left (T_caught con what) = 3"
| "steps_left (T_return con a) = 2"
| "steps_left (T_close con a) = 1"
| "steps_left _ = 0"

fun cost :: "'a worker \<Rightarrow> phase \<Rightarrow> nat" where
  "cost AtPop ph = 0"
| "cost AtPaused ph = 1"
| "cost AtTest ph = 2"
| "cost (AtDecrement t) ph = 3"
| "cost (InTask t) ph = 4 + steps_left ph"
| "cost Exited ph = 0"

definition costs :: "'a thread_pool \<Rightarrow> (nat \<Rightarrow> phase) \<Rightarrow> nat" where
  "costs p ph = (\<Sum>i<length (workers p). cost (workers p ! i) (ph i))"

definition work :: "'z fine_system \<Rightarrow> nat" where
  "work s = 22 * length (queue (sy_queue s)) + 21 * length (pushing (sy_pool s))
     + 20 * length (tasks (sy_pool s)) + costs (sy_pool s) (phases s)"

lemma costs_update:
  assumes "i < length (workers p)" and "workers p' = (workers p)[i := v]"
  shows "costs p' (ph(i := x)) + cost (workers p ! i) (ph i) = costs p ph + cost v x"
proof -
  have "(\<Sum>j\<in>{..<length (workers p)} - {i}. cost ((workers p)[i := v] ! j) ((ph(i := x)) j))
      = (\<Sum>j\<in>{..<length (workers p)} - {i}. cost (workers p ! j) (ph j))"
    by (rule sum.cong) auto
  then show ?thesis
    using assms by (simp add: costs_def sum.remove [of "{..<length (workers p)}" i])
qed

lemma costs_worker:
  assumes "i < length (workers p)" and "workers p' = (workers p)[i := v]" and "ph i = x"
  shows "costs p' ph + cost (workers p ! i) x = costs p ph + cost v x"
  using costs_update [OF assms(1,2), of ph x] assms(3) fun_upd_triv [of ph i] by simp

lemma pushing_worker_step: "pushing (worker_step i p) = pushing p"
  by (simp add: pool_op split: worker.split list.split)

text \<open>A worker's next step makes the work smaller, unless the worker looks for a task in vain.\<close>

lemma worker_less_work:
  assumes i: "i < length (workers p)" and "running p" "\<not> paused p" and "ph i = T_start"
    and "workers p ! i \<noteq> Exited" "\<not> in_task (workers p ! i)"
    and "workers p ! i = AtPop \<Longrightarrow> tasks p \<noteq> []"
  shows "20 * length (tasks (worker_step i p)) + costs (worker_step i p) ph
    < 20 * length (tasks p) + costs p ph"
proof (cases "workers p ! i")
  case AtTest
  then show ?thesis
    using assms(2) costs_worker [OF i, of "worker_step i p" AtPaused ph] assms(4) by (simp add: pool_op)
next
  case AtPaused
  then show ?thesis
    using assms(3) costs_worker [OF i, of "worker_step i p" AtPop ph] assms(4) by (simp add: pool_op)
next
  case AtPop
  then obtain t ts where "tasks p = t # ts" using assms(7) by (cases "tasks p") auto
  with AtPop show ?thesis
    using costs_worker [OF i, of "worker_step i p" "InTask t" ph] assms(4)
    by (simp add: worker_step_def pop_task_def set_worker_def)
next
  case (AtDecrement t)
  then show ?thesis
    using costs_worker [OF i, of "worker_step i p" AtTest ph] assms(4) by (simp add: pool_op)
qed (use assms(5,6) in simp_all)

text \<open>A task's next step brings it closer to its end, if its query is not refused.\<close>

lemma task_less_work:
  assumes "task_step z (Some h) m (ph, q, w) = (ph', q', w')" and "\<not> ended ph" and "serves z"
    and "mild ph" and "mild ph'"
  shows "steps_left ph' < steps_left ph \<and> queue q' = queue q"
  using assms(1,2,4,5)
  by (cases ph) (auto split: prod.splits option.splits exn.splits if_splits)

section \<open>Some thread can always go on\<close>

text \<open>
  What is known of a state the threads have reached: its workers are alive, the tasks hold the
  connections that are out, and the counter of the pool is right.
\<close>

definition sound :: "('z \<Rightarrow> nat set) \<Rightarrow> nat \<Rightarrow> 'z fine_system \<Rightarrow> bool" where
  "sound out n s \<longleftrightarrow> alive n s \<and> mild_inv out n s \<and> fine_inv s"

lemma sound_step:
  assumes "fine_step z h c ready s s'" and "sound out n s"
    and "conpool h = Some p" and "limited_pool z p k out" "serves z"
  shows "sound out n s'"
  using fine_step_alive [OF assms(1)] fine_step_inv [OF assms(1)] mild_step [OF assms(1) _ assms(3-5)]
    assms(2) by (simp add: sound_def)

text \<open>A step that makes the work smaller, with no help of a client, and loses nothing.\<close>

definition onward ::
  "'z outside \<Rightarrow> libzdb_handler \<Rightarrow> config \<Rightarrow> nat \<Rightarrow> 'z fine_system \<Rightarrow> 'z fine_system \<Rightarrow> bool" where
  "onward z h c m s s' \<longleftrightarrow> fine_step z h c (below_limit m) s s' \<and> work s' < work s
     \<and> handed_in s' = handed_in s \<and> lost s' = lost s"

lemma worker_onward:
  assumes "sound out n s" and "i < n" and "\<not> in_task (workers (sy_pool s) ! i)"
    and "workers (sy_pool s) ! i = AtPop \<Longrightarrow> tasks (sy_pool s) \<noteq> []"
  shows "\<exists>s'. onward z h c m s s'"
proof -
  have run: "running (sy_pool s)" "\<not> paused (sy_pool s)" and i: "i < length (workers (sy_pool s))"
    and ex: "Exited \<notin> set (workers (sy_pool s))" and ph: "phases s i = T_start"
    using assms(1-3) by (auto simp: sound_def alive_def fine_inv_def idle_phases_def)
  have ne: "workers (sy_pool s) ! i \<noteq> Exited" using ex i by (metis nth_mem)
  let ?s = "s\<lparr>sy_pool := worker_step i (sy_pool s)\<rparr>"
  have "work ?s < work s"
    using worker_less_work [where ph = "phases s", OF i run ph ne assms(3,4)] by (simp add: work_def pushing_worker_step)
  with F_worker [OF i assms(3)] lost_worker [OF i ph] show ?thesis
    by (intro exI [of _ ?s]) (simp add: onward_def)
qed

lemma running_task_onward:
  assumes "sound out n s" and "i < n" and m: "workers (sy_pool s) ! i = InTask m"
    and p: "conpool h = Some p" and z: "limited_pool z p k out" "serves z"
    and get: "phases s i = T_get \<Longrightarrow> card (out (ext (sy_world s))) < k"
  shows "\<exists>s'. onward z h c k s s'"
proof -
  have i: "i < length (workers (sy_pool s))" and mild: "mild (phases s i)"
    using assms(1,2) by (simp_all add: sound_def alive_def mild_inv_def)
  show ?thesis
  proof (cases "ended (phases s i)")
    case True
    with mild obtain a where a: "phases s i = T_end a" "a \<noteq> Crash" by (cases "phases s i") auto
    let ?s = "s\<lparr>sy_pool := worker_step i (sy_pool s), ran := add_mset (a, m) (ran s),
      phases := (phases s)(i := T_start)\<rparr>"
    have "workers (worker_step i (sy_pool s)) = (workers (sy_pool s))[i := AtDecrement m]"
      "tasks (worker_step i (sy_pool s)) = tasks (sy_pool s)" using m by (simp_all add: pool_op)
    then have "work ?s < work s"
      using costs_update [OF i, of "worker_step i (sy_pool s)" "AtDecrement m" "phases s" T_start] m a
      by (simp add: work_def pushing_worker_step)
    with F_end [OF i m a] lost_end [OF i m a(1)] show ?thesis
      by (intro exI [of _ ?s]) (simp add: onward_def)
  next
    case False
    obtain ph q w where t: "task_step z (Some h) m (phases s i, sy_queue s, sy_world s) = (ph, q, w)"
      by (metis prod_cases3)
    note good = task_step_mild [OF t False mild p z]
    then have "mild ph" "ph \<noteq> T_end NoConnection" using get by auto
    note less = task_less_work [OF t False z(2) mild this(1)]
    let ?s = "s\<lparr>sy_queue := q, sy_world := w, phases := (phases s)(i := ph)\<rparr>"
    have "workers (sy_pool s) = (workers (sy_pool s))[i := InTask m]" using m by (metis list_update_id)
    then have "work ?s < work s"
      using costs_update [OF i, of "sy_pool s" "InTask m" "phases s" ph] less m by (simp add: work_def)
    with F_task [OF i m False t] lost_task [OF i m False \<open>ph \<noteq> T_end NoConnection\<close>] show ?thesis
      by (intro exI [of _ ?s]) (simp add: onward_def)
  qed
qed

text \<open>When a task waits for a connection and all are out, a task that holds one can go on.\<close>

lemma task_onward:
  assumes "sound out n s" and "i < n" and "in_task (workers (sy_pool s) ! i)"
    and p: "conpool h = Some p" and z: "limited_pool z p k out" "serves z" and "0 < k"
  shows "\<exists>s'. onward z h c k s s'"
proof (cases "phases s i = T_get \<and> k \<le> card (out (ext (sy_world s)))")
  case True
  then obtain con where "con \<in> out (ext (sy_world s))" using assms(7) by fastforce
  moreover have "out (ext (sy_world s)) \<subseteq> (\<Union>j<n. holding (phases s j))"
    using assms(1) by (simp add: sound_def mild_inv_def)
  ultimately obtain j where j: "j < n" "holding (phases s j) \<noteq> {}" by blast
  then have "in_task (workers (sy_pool s) ! j)"
    using assms(1) by (auto simp: sound_def alive_def fine_inv_def idle_phases_def)
  then obtain m where "workers (sy_pool s) ! j = InTask m" by (cases "workers (sy_pool s) ! j") auto
  moreover have "phases s j \<noteq> T_get" using j(2) by auto
  ultimately show ?thesis using running_task_onward [OF assms(1) j(1) _ p z] by simp
next
  case False
  obtain m where "workers (sy_pool s) ! i = InTask m"
    using assms(3) by (cases "workers (sy_pool s) ! i") auto
  with running_task_onward [OF assms(1,2) _ p z] False show ?thesis by force
qed

lemma below_limit_when_empty:
  assumes "pool_inv p" and "in_pool p = {#}" and "0 < m" and "m < 2 ^ 64"
  shows "below_limit m p"
proof -
  have "tasks p = []" using assms(2) by (simp add: in_pool_def)
  then have "get_tasks_running p p = 0"
    using assms(1,2) by (simp add: get_tasks_running_def get_tasks_queued_def pool_inv_def)
  moreover have "(0 :: u64) < word_of_nat m"
    using assms(3,4) by (simp add: word_less_nat_alt unat_of_nat take_bit_nat_eq_self)
  ultimately show ?thesis by (simp add: below_limit_def)
qed

lemma some_thread_onward:
  assumes sound: "sound out n s" and "0 < n" and "\<not> obey_work_retry_count c" and "\<not> at_rest s"
    and p: "conpool h = Some p" and z: "limited_pool z p k out" "serves z" and k: "0 < k" "k < 2 ^ 64"
  shows "\<exists>s'. onward z h c k s s'"
proof -
  let ?p = "sy_pool s"
  have n: "length (workers ?p) = n" using sound by (simp add: sound_def alive_def)
  consider (entering) "pushing ?p \<noteq> []" | (busy) i where "i < n" "held (workers ?p ! i) \<noteq> {#}"
    | (waiting) "tasks ?p \<noteq> []" | (queued) m ms where "queue (sy_queue s) = m # ms" "in_pool ?p = {#}"
  proof -
    have "in_workers ?p = {#}" if "\<forall>i<n. held (workers ?p ! i) = {#}"
    proof -
      have "map held (workers ?p) = replicate (length (workers ?p)) {#}"
        using that n by (intro nth_equalityI) simp_all
      then show ?thesis by (simp add: in_workers_def sum_list_no_tasks)
    qed
    then show thesis
      using assms(4) that by (cases "queue (sy_queue s)") (auto simp: at_rest_def in_pool_def)
  qed
  then show ?thesis
  proof cases
    case entering
    let ?s = "s\<lparr>sy_pool := push_end 0 ?p\<rparr>"
    have "0 < length (pushing ?p)" using entering by simp
    moreover have "work ?s < work s"
      using entering by (cases "pushing ?p") (simp_all add: work_def push_end_def costs_def)
    moreover have "lost ?s = lost s" by (rule lost_same) (simp_all add: push_end_def)
    ultimately show ?thesis
      using F_dispatched [of 0 s] by (intro exI [of _ ?s]) (simp add: onward_def)
  next
    case busy
    show ?thesis
    proof (cases "in_task (workers ?p ! i)")
      case True
      from task_onward [OF sound busy(1) this p z k(1)] show ?thesis .
    next
      case False
      with worker_onward [OF sound busy(1) False] busy(2) show ?thesis by force
    qed
  next
    case waiting
    show ?thesis
    proof (cases "in_task (workers ?p ! 0)")
      case True
      from task_onward [OF sound assms(2) this p z k(1)] show ?thesis .
    next
      case False
      from worker_onward [OF sound assms(2) False] waiting show ?thesis by blast
    qed
  next
    case queued
    let ?q = "(sy_queue s)\<lparr>queue := ms\<rparr>"
    let ?s = "s\<lparr>sy_queue := ?q, sy_pool := push_begin m ?p\<rparr>"
    have "below_limit k ?p"
      using sound queued(2) by (intro below_limit_when_empty k) (simp_all add: sound_def fine_inv_def)
    moreover have "lq_pop (sy_queue s) = Inr (m, ?q)" using queued(1) by (simp add: lq_pop_def)
    moreover have "retry_allowed c m" using assms(3) by (simp add: retry_allowed_def)
    ultimately have "fine_step z h c (below_limit k) s ?s" by (rule F_dispatch)
    moreover have "work ?s < work s"
      using queued(1) by (simp add: work_def push_begin_def costs_def)
    moreover have "lost ?s = lost s" by (rule lost_same) (simp_all add: push_begin_def)
    ultimately show ?thesis by (intro exI [of _ ?s]) (simp add: onward_def)
  qed
qed

lemma can_rest:
  assumes "sound out n s" and "0 < n" and "\<not> obey_work_retry_count c"
    and p: "conpool h = Some p" and z: "limited_pool z p k out" "serves z" and k: "0 < k" "k < 2 ^ 64"
  shows "\<exists>s'. (fine_step z h c (below_limit k))\<^sup>*\<^sup>* s s' \<and> at_rest s' \<and> handed_in s' = handed_in s
    \<and> lost s' = lost s"
  using assms(1)
proof (induction "work s" arbitrary: s rule: less_induct)
  case less
  show ?case
  proof (cases "at_rest s")
    case False
    then obtain s1 where s1: "onward z h c k s s1"
      using some_thread_onward [OF less.prems assms(2,3) _ p z k] by blast
    then have step: "fine_step z h c (below_limit k) s s1" "work s1 < work s"
      "handed_in s1 = handed_in s" "lost s1 = lost s" by (simp_all add: onward_def)
    from less.hyps [OF step(2) sound_step [OF step(1) less.prems p z]] step show ?thesis
      by (metis converse_rtranclp_into_rtranclp)
  qed (use rtranclp.rtrancl_refl in blast)
qed

section \<open>Every message comes to its end\<close>

lemma way_to_rest:
  assumes "limited_pool z p m out" and "serves z" and "out (fst (ext w)) = {}" and "conpool h = Some p"
    and "0 < m" and "m < 2 ^ 64" and "0 < n" and "\<not> obey_work_retry_count c"
    and "fine_reachable (recorded z) h c (below_limit m) n w s"
  shows "\<exists>s'. (fine_step (recorded z) h c (below_limit m))\<^sup>*\<^sup>* s s' \<and> at_rest s'
    \<and> handed_in s' = handed_in s \<and> lost s' = lost s
    \<and> mset (executed (sy_world s')) + image_mset (c_str \<circ> query) (lost s)
      = mset (executed w) + image_mset (c_str \<circ> query) (handed_in s)"
proof -
  note run = assms(9) [unfolded fine_reachable_def]
  have "sound (\<lambda>s. out (fst s)) n s"
    using living.always [OF run alive_start] mild_reachable [OF assms(1-4,9)]
      fine_reachable_inv [OF assms(9)] by (simp add: sound_def)
  from can_rest [OF this assms(7,8,4) limited_recorded [OF assms(1)] serves_recorded [OF assms(2)]
      assms(5,6)]
  obtain s' where on: "(fine_step (recorded z) h c (below_limit m))\<^sup>*\<^sup>* s s'" and rest: "at_rest s'"
    and same: "handed_in s' = handed_in s" "lost s' = lost s" by blast
  from run on have reach: "fine_reachable (recorded z) h c (below_limit m) n w s'"
    by (simp add: fine_reachable_def)
  from executed_or_lost [OF reach mild_reachable [OF assms(1-4) reach] assms(8) rest] on rest same
  show ?thesis by auto
qed

text \<open>
  C9: the threads do not get stuck. Take a pool of \<open>n\<close> threads, at least one, on a database that executes
  what it gets and gives out up to \<open>m\<close> connections, at least one, and an output thread that
  checks its limit of \<open>m\<close> running tasks before it takes a message. From every state the single
  steps of all threads can lead to, with tasks in the middle of anything, there is a way on, with no
  help of the clients, to a state with nothing in the queue and in the pool, and on it no further
  message is lost: then the database has executed exactly the queries (up to their first NUL byte)
  that had been handed in, each once, but for those whose task had found all connections out before.
\<close>

theorem every_message_can_be_executed:
  assumes "limited_pool z p m out" and "serves z" and "out (fst (ext w)) = {}" and "conpool h = Some p"
    and "0 < m" and "m < 2 ^ 64" and "0 < n" and "\<not> obey_work_retry_count c"
    and "fine_reachable (recorded z) h c (below_limit m) n w s"
  shows "\<exists>s'. (fine_step (recorded z) h c (below_limit m))\<^sup>*\<^sup>* s s' \<and> at_rest s'
    \<and> handed_in s' = handed_in s \<and> lost s' = lost s
    \<and> mset (executed (sy_world s')) + image_mset (c_str \<circ> query) (lost s)
      = mset (executed w) + image_mset (c_str \<circ> query) (handed_in s)"
  by (rule way_to_rest [OF assms])

lemma nothing_lost_yet: "lost (loaded ms w (\<lambda>_. T_start)) = {#}"
  by (simp add: lost_def loaded_def flying_def)

text \<open>Two threads with a message each and one connection: there is a way on which both are executed.\<close>

theorem every_message_can_be_executed_witness:
  "\<exists>s'. (fine_step (recorded (counted_outside 1)) counted_handler default_config (below_limit 1))\<^sup>*\<^sup>*
      (loaded [entry_of 5 [65], entry_of 6 [66]] counted_world (\<lambda>_. T_start)) s'
    \<and> at_rest s' \<and> lost s' = {#} \<and> mset (executed (sy_world s')) = {#[65], [66]#}"
proof -
  let ?s = "loaded [entry_of 5 [65], entry_of 6 [66]] counted_world (\<lambda>_. T_start)"
  have "fine_reachable (recorded (counted_outside 1)) counted_handler default_config (below_limit 1) 2
      counted_world ?s"
    using load_reached [of 1 default_config "recorded (counted_outside 1)" counted_handler
        "[(5, [65]), (6, [66])]" counted_world] counted_start(3) one_less_power [of "2 :: nat" 64]
    by (simp add: numeral_2_eq_2 [symmetric])
  from every_message_can_be_executed [OF counted_limited counted_serves counted_start(1,2) zero_less_one _
      zero_less_numeral counted_start(3) this]
  obtain s' where "(fine_step (recorded (counted_outside 1)) counted_handler default_config (below_limit 1))\<^sup>*\<^sup>*
      ?s s'" "at_rest s'" "lost s' = {#}"
    "mset (executed (sy_world s')) = mset (executed counted_world) + image_mset (c_str \<circ> query) (handed_in ?s)"
    by (auto simp: nothing_lost_yet)
  then show ?thesis
    by (intro exI [of _ s'])
      (simp add: counted_start(4) loaded_def entry_of_def new_entry_def c_str_def add_mset_commute)
qed

end
