(* ===== verification/QueueLock.thy ===== *)
theory QueueLock
  imports LockedQueue
begin

text \<open>
  \<^verbatim>\<open>src/src/utils/lockedqueue/LockedQueue.h\<close> under its threads, one step for each statement: a call
  waits for \<open>mutex\<close>, works on the \<open>std::queue\<close> and gives the mutex back when it returns. The calls
  of all threads together do what the single steps of \<open>LockedQueue\<close> do one after the other, in the
  order in which they return; so the other theories may take each call as one step.
\<close>

section \<open>Calls and where a thread is\<close>

datatype 'a queue_call = C_push 'a | C_pop | C_clear | C_empty | C_size

datatype 'a returned = Ret_void | Ret_value 'a | Ret_bool bool | Ret_size nat

text \<open>
  \<open>Inside\<close>: the lock is held; \<open>Swapped x\<close>: in \<open>pop\<close>, after the swap that moved \<open>x\<close> out of the
  queue; \<open>Leaves\<close>: the value to return is there, the destructor of the lock is next.
\<close>

datatype 'a place =
    Away
  | Wants "'a queue_call"
  | Inside "'a queue_call"
  | Swapped 'a
  | Leaves "'a queue_call" "'a returned"

record 'a shared_queue =
  sq_mutex :: "nat option" \<comment> \<open>the thread that holds it\<close>
  sq_items :: "'a list"
  sq_at :: "nat \<Rightarrow> 'a place"
  sq_log :: "(nat \<times> 'a queue_call \<times> 'a returned) list" \<comment> \<open>the calls that have returned\<close>
  sq_broken :: bool \<comment> \<open>undefined behaviour has occurred\<close>

definition sq_start :: "'a list \<Rightarrow> 'a shared_queue" where
  "sq_start vs = \<lparr>sq_mutex = None, sq_items = vs, sq_at = (\<lambda>_. Away), sq_log = [], sq_broken = False\<rparr>"

definition go_to :: "nat \<Rightarrow> 'a place \<Rightarrow> 'a shared_queue \<Rightarrow> 'a shared_queue" where
  "go_to t p s = s\<lparr>sq_at := (sq_at s)(t := p)\<rparr>"

section \<open>The steps\<close>

text \<open>One statement inside a call; \<open>d\<close> is the default constructed \<open>value\<close> that \<open>pop\<close> swaps in.\<close>

fun body_step :: "'a \<Rightarrow> nat \<Rightarrow> 'a queue_call \<Rightarrow> 'a shared_queue \<Rightarrow> 'a shared_queue" where
  "body_step d t (C_push v) s =
     go_to t (Leaves (C_push v) Ret_void) (s\<lparr>sq_items := sq_items s @ [v]\<rparr>)"
| "body_step d t C_pop s =
     (case sq_items s of
        [] \<Rightarrow> s\<lparr>sq_broken := True\<rparr>
      | x # xs \<Rightarrow> go_to t (Swapped x) (s\<lparr>sq_items := d # xs\<rparr>))"
| "body_step d t C_clear s =
     (case sq_items s of
        [] \<Rightarrow> go_to t (Leaves C_clear Ret_void) s
      | x # xs \<Rightarrow> s\<lparr>sq_items := xs\<rparr>)"
| "body_step d t C_empty s = go_to t (Leaves C_empty (Ret_bool (sq_items s = []))) s"
| "body_step d t C_size s = go_to t (Leaves C_size (Ret_size (length (sq_items s)))) s"

text \<open>A thread calls a function, or does its next step if it can.\<close>

datatype 'a action = Calls "'a queue_call" | Goes

fun sq_step :: "'a \<Rightarrow> nat \<times> 'a action \<Rightarrow> 'a shared_queue \<Rightarrow> 'a shared_queue" where
  "sq_step d (t, Calls c) s =
     (case sq_at s t of Away \<Rightarrow> if sq_broken s then s else go_to t (Wants c) s | _ \<Rightarrow> s)"
| "sq_step d (t, Goes) s =
     (if sq_broken s then s
      else
        (case sq_at s t of
           Away \<Rightarrow> s
         | Wants c \<Rightarrow>
             if sq_mutex s = None then go_to t (Inside c) (s\<lparr>sq_mutex := Some t\<rparr>) else s
         | Inside c \<Rightarrow> body_step d t c s
         | Swapped x \<Rightarrow>
             go_to t (Leaves C_pop (Ret_value x)) (s\<lparr>sq_items := tl (sq_items s)\<rparr>)
         | Leaves c r \<Rightarrow>
             go_to t Away (s\<lparr>sq_mutex := None, sq_log := sq_log s @ [(t, c, r)]\<rparr>)))"

definition sq_run :: "'a \<Rightarrow> (nat \<times> 'a action) list \<Rightarrow> 'a list \<Rightarrow> 'a shared_queue" where
  "sq_run d sched vs = fold (sq_step d) sched (sq_start vs)"

section \<open>One call after the other\<close>

fun apply_call :: "'a queue_call \<Rightarrow> 'a locked_queue \<Rightarrow> ub + ('a returned \<times> 'a locked_queue)" where
  "apply_call (C_push v) q = Inr (Ret_void, lq_push v q)"
| "apply_call C_pop q =
     (case lq_pop q of Inl u \<Rightarrow> Inl u | Inr (x, q) \<Rightarrow> Inr (Ret_value x, q))"
| "apply_call C_clear q = Inr (Ret_void, lq_clear q)"
| "apply_call C_empty q = Inr (Ret_bool (lq_empty q), q)"
| "apply_call C_size q = Inr (Ret_size (lq_size q), q)"

text \<open>The queue after a log of calls, when each of them returns what the log says.\<close>

fun replay ::
  "(nat \<times> 'a queue_call \<times> 'a returned) list \<Rightarrow> 'a locked_queue \<Rightarrow> 'a locked_queue option" where
  "replay [] q = Some q"
| "replay ((t, c, r) # log) q =
     (case apply_call c q of
        Inl _ \<Rightarrow> None
      | Inr (r', q) \<Rightarrow> if r' = r then replay log q else None)"

lemma replay_append:
  "replay (log @ log') q = (case replay log q of None \<Rightarrow> None | Some q \<Rightarrow> replay log' q)"
  by (induction log q rule: replay.induct) (auto split: sum.split)

section \<open>The simulation\<close>

fun inside :: "'a place \<Rightarrow> bool" where
  "inside Away = False"
| "inside (Wants c) = False"
| "inside _ = True"

text \<open>
  How far the thread that holds the mutex has come: \<open>q\<close> is the queue before its call, \<open>xs\<close> what the
  \<open>std::queue\<close> holds.
\<close>

fun midway :: "'a locked_queue \<Rightarrow> 'a list \<Rightarrow> 'a place \<Rightarrow> bool" where
  "midway q xs (Inside C_clear) = (\<exists>n. xs = drop n (queue q))"
| "midway q xs (Inside c) = (xs = queue q)"
| "midway q xs (Swapped x) = (queue q = x # tl xs)"
| "midway q xs (Leaves c r) = (apply_call c q = Inr (r, \<lparr>queue = xs\<rparr>))"
| "midway q xs _ = False"

definition stands_for :: "'a locked_queue \<Rightarrow> 'a shared_queue \<Rightarrow> bool" where
  "stands_for q s \<longleftrightarrow>
     (case sq_mutex s of
        None \<Rightarrow> (\<forall>t. \<not> inside (sq_at s t)) \<and> sq_items s = queue q \<and> \<not> sq_broken s
      | Some t \<Rightarrow> (\<forall>u. inside (sq_at s u) \<longleftrightarrow> u = t)
          \<and> (if sq_broken s then queue q = [] \<and> sq_at s t = Inside C_pop
             else midway q (sq_items s) (sq_at s t)))"

definition sq_inv :: "'a locked_queue \<Rightarrow> 'a shared_queue \<Rightarrow> bool" where
  "sq_inv q0 s \<longleftrightarrow> (\<exists>q. replay (sq_log s) q0 = Some q \<and> stands_for q s)"

lemma queue_is: "\<lparr>queue = xs\<rparr> = q \<longleftrightarrow> xs = queue q"
  by (cases q) auto

lemma same_queue: "\<lparr>queue = queue q\<rparr> = (q :: 'a locked_queue)"
  by (cases q) simp

lemma lq_clear_is: "lq_clear q = \<lparr>queue = []\<rparr>"
  using lq_clear_empty [of q] by (cases "lq_clear q") simp

lemma owner_is_inside: "stands_for q s \<Longrightarrow> sq_mutex s = Some t \<Longrightarrow> inside (sq_at s t)"
  by (simp add: stands_for_def)

lemma inside_is_owner:
  assumes "stands_for q s" and "inside (sq_at s t)"
  shows "sq_mutex s = Some t \<and> (\<forall>u. inside (sq_at s u) \<longleftrightarrow> u = t)"
  using assms by (cases "sq_mutex s") (auto simp: stands_for_def)

lemma owner_midway:
  assumes "stands_for q s" and "inside (sq_at s t)" and "\<not> sq_broken s"
  shows "midway q (sq_items s) (sq_at s t)"
  using assms inside_is_owner [OF assms(1,2)] by (simp add: stands_for_def)

text \<open>What a step of the owner of the mutex has to keep.\<close>

lemma owner_steps:
  assumes "stands_for q s" and "inside (sq_at s t)" and "\<not> sq_broken s"
    and "inside p" and "midway q xs p"
  shows "stands_for q (go_to t p (s\<lparr>sq_items := xs\<rparr>))"
  using assms inside_is_owner [OF assms(1,2)] by (auto simp: stands_for_def go_to_def)

lemma body_step_stands:
  assumes q: "stands_for q s" and ok: "\<not> sq_broken s" and c: "sq_at s t = Inside c"
  shows "stands_for q (body_step d t c s)"
proof -
  have i: "inside (sq_at s t)" using c by simp
  note step = owner_steps [OF q i ok] and now = owner_midway [OF q i ok]
  show ?thesis
  proof (cases c)
    case (C_push v)
    then show ?thesis
      using step [of "Leaves c Ret_void" "sq_items s @ [v]"] now c
      by (simp add: lq_push_def queue_is)
  next
    case C_pop
    show ?thesis
    proof (cases "sq_items s")
      case Nil
      then show ?thesis
        using C_pop c now q inside_is_owner [OF q i] by (simp add: stands_for_def)
    next
      case (Cons x xs)
      then have "queue q = x # xs" using C_pop c now by simp
      then show ?thesis using step [of "Swapped x" "d # xs"] C_pop Cons by simp
    qed
  next
    case C_clear
    then obtain n where n: "sq_items s = drop n (queue q)" using now c by auto
    show ?thesis
    proof (cases "sq_items s")
      case Nil
      then have "stands_for q (go_to t (Leaves C_clear Ret_void) (s\<lparr>sq_items := sq_items s\<rparr>))"
        by (intro step) (simp_all add: lq_clear_is)
      then have "stands_for q (go_to t (Leaves C_clear Ret_void) s)" by simp
      with Nil C_clear show ?thesis by simp
    next
      case (Cons x xs)
      then have "xs = drop (Suc n) (queue q)" using n by (metis drop_Suc tl_drop list.sel(3))
      moreover have "go_to t (Inside C_clear) (s\<lparr>sq_items := xs\<rparr>) = s\<lparr>sq_items := xs\<rparr>"
        using fun_upd_idem [of "sq_at s" t "Inside C_clear"] c C_clear
        by (cases s) (simp add: go_to_def)
      ultimately show ?thesis
        using step [of "Inside C_clear" xs] C_clear Cons by auto
    qed
  next
    case C_empty
    then show ?thesis
      using step [of "Leaves c (Ret_bool (sq_items s = []))" "sq_items s"] now c
      by (simp add: queue_is same_queue lq.empty_iff)
  next
    case C_size
    then show ?thesis
      using step [of "Leaves c (Ret_size (length (sq_items s)))" "sq_items s"] now c
      by (simp add: queue_is same_queue lq_size_def)
  qed
qed

lemma body_step_log: "sq_log (body_step d t c s) = sq_log s"
  by (cases c) (simp_all add: go_to_def split: list.split)

lemma sq_step_inv:
  assumes "sq_inv q0 s"
  shows "sq_inv q0 (sq_step d ta s)"
proof -
  obtain q where q: "replay (sq_log s) q0 = Some q" "stands_for q s"
    using assms by (auto simp: sq_inv_def)
  obtain t a where ta: "ta = (t, a)" by fastforce
  show ?thesis
  proof (cases "sq_broken s")
    case True
    with assms ta show ?thesis by (cases a) (auto split: place.split)
  next
    case ok: False
    show ?thesis
    proof (cases a)
      case (Calls c)
      show ?thesis
      proof (cases "sq_at s t = Away")
        case True
        with q(2) owner_is_inside [OF q(2), of t] have "stands_for q (go_to t (Wants c) s)"
          by (cases "sq_mutex s") (auto simp: stands_for_def go_to_def)
        with True q(1) ta Calls ok show ?thesis by (auto simp: sq_inv_def go_to_def)
      next
        case False
        with assms ta Calls show ?thesis by (cases "sq_at s t") simp_all
      qed
    next
      case Goes
      show ?thesis
      proof (cases "sq_at s t")
        case Away
        with assms ta Goes show ?thesis by simp
      next
        case (Wants c)
        have "midway q (queue q) (Inside c)" by (cases c) (auto intro: exI [of _ 0])
        with q(2) ok have "stands_for q (go_to t (Inside c) (s\<lparr>sq_mutex := Some t\<rparr>))"
          if "sq_mutex s = None"
          using that by (auto simp: stands_for_def go_to_def)
        with Wants q assms ok ta Goes show ?thesis by (auto simp: sq_inv_def go_to_def)
      next
        case (Inside c)
        with body_step_stands [OF q(2) ok this, of d] q(1) ta Goes ok show ?thesis
          by (auto simp: sq_inv_def body_step_log)
      next
        case (Swapped x)
        then have "apply_call C_pop q = Inr (Ret_value x, \<lparr>queue = tl (sq_items s)\<rparr>)"
          using owner_midway [OF q(2) _ ok, of t] by (simp add: lq_pop_def queue_is)
        with owner_steps [OF q(2) _ ok, of t "Leaves C_pop (Ret_value x)" "tl (sq_items s)"] Swapped
        have "stands_for q (go_to t (Leaves C_pop (Ret_value x)) (s\<lparr>sq_items := tl (sq_items s)\<rparr>))"
          by simp
        with Swapped q(1) ok ta Goes show ?thesis by (auto simp: sq_inv_def go_to_def)
      next
        case (Leaves c r)
        then have "apply_call c q = Inr (r, \<lparr>queue = sq_items s\<rparr>)"
          using owner_midway [OF q(2) _ ok, of t] by simp
        with Leaves inside_is_owner [OF q(2), of t] q(1) ok ta Goes show ?thesis
          by (auto simp: sq_inv_def stands_for_def go_to_def replay_append)
      qed
    qed
  qed
qed

section \<open>Calls are atomic\<close>

lemma sq_inv_start: "sq_inv \<lparr>queue = vs\<rparr> (sq_start vs)"
  by (simp add: sq_inv_def sq_start_def stands_for_def)

lemma sq_run_inv: "sq_inv \<lparr>queue = vs\<rparr> (sq_run d sched vs)"
proof -
  have "sq_inv q0 s \<Longrightarrow> sq_inv q0 (fold (sq_step d) sched s)" for q0 and s :: "'a shared_queue"
    by (induction sched arbitrary: s) (simp_all add: sq_step_inv)
  then show ?thesis by (simp add: sq_run_def sq_inv_start)
qed

text \<open>
  C32: the calls of the queue are atomic. Whatever threads call whatever functions, and however the
  scheduler interleaves their statements: the calls that have returned gave what they give when they
  are made one after the other in the order of their returns; no two threads are past the lock
  at once; while no thread is, the \<open>std::queue\<close> holds what these calls leave; and
  the only undefined behaviour is a \<open>pop\<close> whose turn comes while the queue is empty.
\<close>

theorem queue_calls_atomic:
  "\<exists>q. replay (sq_log (sq_run d sched vs)) \<lparr>queue = vs\<rparr> = Some q
     \<and> (\<forall>t u. inside (sq_at (sq_run d sched vs) t) \<and> inside (sq_at (sq_run d sched vs) u) \<longrightarrow> t = u)
     \<and> ((\<forall>t. \<not> inside (sq_at (sq_run d sched vs) t)) \<longrightarrow> sq_items (sq_run d sched vs) = queue q)
     \<and> (sq_broken (sq_run d sched vs) \<longrightarrow>
          queue q = [] \<and> (\<exists>t. sq_at (sq_run d sched vs) t = Inside C_pop))"
proof -
  obtain q where q: "replay (sq_log (sq_run d sched vs)) \<lparr>queue = vs\<rparr> = Some q"
    "stands_for q (sq_run d sched vs)"
    using sq_run_inv [of vs d sched] by (auto simp: sq_inv_def)
  show ?thesis
  proof (cases "sq_mutex (sq_run d sched vs)")
    case None
    with q show ?thesis by (intro exI [of _ q]) (simp add: stands_for_def)
  next
    case (Some t)
    with q show ?thesis
      by (intro exI [of _ q]) (auto simp: stands_for_def split: if_splits)
  qed
qed

text \<open>Two threads: one pushes 7 while the other, which came first, waits for its statement in \<open>pop\<close>.\<close>

definition sample_schedule :: "(nat \<times> nat action) list" where
  "sample_schedule = [(0, Calls C_pop), (1, Calls (C_push 7)), (0, Goes), (1, Goes), (0, Goes), (1, Goes),
     (0, Goes), (0, Goes), (1, Goes), (1, Goes), (1, Goes)]"

lemma sample_sq_run:
  "sq_log (sq_run 0 sample_schedule [5]) = [(0, C_pop, Ret_value 5), (1, C_push 7, Ret_void)]"
  "sq_items (sq_run 0 sample_schedule [5]) = [7]"
  "\<not> inside (sq_at (sq_run 0 sample_schedule [5]) t)"
  by (simp_all add: sq_run_def sample_schedule_def sq_start_def go_to_def)

theorem queue_calls_atomic_witness:
  "\<exists>q. replay [(0, C_pop, Ret_value 5), (1, C_push 7, Ret_void)] \<lparr>queue = [5 :: nat]\<rparr> = Some q
     \<and> queue q = [7]"
  using queue_calls_atomic [of 0 sample_schedule "[5]"] by (auto simp: sample_sq_run)

section \<open>The mutex comes back\<close>

text \<open>How many of its own steps the owner of the mutex needs at most until it gives it back.\<close>

fun steps_left :: "'a place \<Rightarrow> 'a list \<Rightarrow> nat" where
  "steps_left (Inside C_clear) xs = length xs + 2"
| "steps_left (Inside C_pop) xs = 3"
| "steps_left (Inside c) xs = 2"
| "steps_left (Swapped x) xs = 2"
| "steps_left (Leaves c r) xs = 1"
| "steps_left _ xs = 0"

lemma owner_advances:
  assumes "sq_mutex s = Some t" and "inside (sq_at s t)" and "\<not> sq_broken s"
    and "s' = sq_step d (t, Goes) s"
  shows "sq_broken s' \<or> sq_mutex s' = None \<or> sq_mutex s' = Some t \<and> inside (sq_at s' t)
    \<and> steps_left (sq_at s' t) (sq_items s') < steps_left (sq_at s t) (sq_items s)"
proof (cases "sq_at s t")
  case (Inside c)
  with assms show ?thesis by (cases c) (simp_all add: go_to_def split: list.split)
qed (use assms in \<open>simp_all add: go_to_def\<close>)

lemma owner_comes_out:
  assumes "sq_mutex s = Some t" and "inside (sq_at s t)" and "\<not> sq_broken s"
  shows "\<exists>n \<le> steps_left (sq_at s t) (sq_items s).
    sq_broken ((sq_step d (t, Goes) ^^ n) s) \<or> sq_mutex ((sq_step d (t, Goes) ^^ n) s) = None"
  using assms
proof (induction "steps_left (sq_at s t) (sq_items s)" arbitrary: s rule: less_induct)
  case less
  let ?s = "sq_step d (t, Goes) s"
  have once: "0 < steps_left (sq_at s t) (sq_items s)"
  proof (cases "sq_at s t")
    case (Inside c)
    then show ?thesis by (cases c) simp_all
  qed (use less.prems(2) in simp_all)
  consider "sq_broken ?s \<or> sq_mutex ?s = None"
    | "\<not> sq_broken ?s" "sq_mutex ?s = Some t" "inside (sq_at ?s t)"
      "steps_left (sq_at ?s t) (sq_items ?s) < steps_left (sq_at s t) (sq_items s)"
    using owner_advances [OF less.prems refl, of d] by metis
  then show ?case
  proof cases
    case 1
    with once show ?thesis by (intro exI [of _ 1]) simp
  next
    case 2
    from less.hyps [OF 2(4,2,3,1)] obtain n where
      "n \<le> steps_left (sq_at ?s t) (sq_items ?s)"
      "sq_broken ((sq_step d (t, Goes) ^^ n) ?s) \<or> sq_mutex ((sq_step d (t, Goes) ^^ n) ?s) = None"
      by blast
    with 2(4) show ?thesis
      by (intro exI [of _ "Suc n"]) (simp add: funpow_swap1 del: sq_step.simps)
  qed
qed

end
