(* ===== verification/BenchTimer.thy ===== *)
theory BenchTimer
  imports Complex_Main Prelude
begin

text \<open>
  The class \<open>timer\<close> (\<^verbatim>\<open>src/src/utils/threadpool/thread_pool.hpp\<close>), which measures a time in
  nanoseconds, keeps it as a \<open>double\<close> of seconds and gives it in whole milliseconds. A \<open>double\<close>
  is the rational number it stands for; each operation rounds its exact result.
\<close>

section \<open>Doubles\<close>

text \<open>To the nearest integer, ties to the even one.\<close>

definition round_even :: "rat \<Rightarrow> int" where
  "round_even x =
     (let n = \<lfloor>x\<rfloor>; r = x - of_int n
      in if r < 1 / 2 then n else if 1 / 2 < r then n + 1 else if even n then n else n + 1)"

text \<open>
  The nearest number with 53 significant bits to a positive \<open>x\<close>: \<open>x\<close> is scaled by powers of two until
  its integer part has 53 bits. The first argument bounds the steps; \<open>scaled_precise\<close> shows that 200
  are enough for all numbers of the timer. These are far from overflow and underflow.
\<close>

fun scaled :: "nat \<Rightarrow> rat \<Rightarrow> rat" where
  "scaled 0 x = x"
| "scaled (Suc n) x =
     (if x < 2 ^ 52 then scaled n (x * 2) / 2
      else if 2 ^ 53 \<le> x then scaled n (x / 2) * 2
      else of_int (round_even x))"

definition to_double :: "rat \<Rightarrow> rat" where
  "to_double x = (if x = 0 then 0 else if x < 0 then - scaled 200 (- x) else scaled 200 x)"

text \<open>The conversion of a \<open>double\<close> to an integer cuts off the fraction.\<close>

definition trunc :: "rat \<Rightarrow> int" where
  "trunc x = (if x < 0 then \<lceil>x\<rceil> else \<lfloor>x\<rfloor>)"

section \<open>The timer\<close>

text \<open>Points of time are nanoseconds of the steady clock.\<close>

record bench_timer =
  start_time :: int
  elapsed_time :: rat \<comment> \<open>\<open>duration<double>\<close>: seconds\<close>

definition timer_new :: "int \<Rightarrow> bench_timer" where
  "timer_new now = \<lparr>start_time = now, elapsed_time = 0\<rparr>"

definition timer_start :: "int \<Rightarrow> bench_timer \<Rightarrow> bench_timer" where
  "timer_start now t = t\<lparr>start_time := now\<rparr>"

text \<open>The conversion of the nanoseconds to \<open>duration<double>\<close> divides in \<open>double\<close>.\<close>

definition timer_stop :: "int \<Rightarrow> bench_timer \<Rightarrow> bench_timer" where
  "timer_stop now t =
     t\<lparr>elapsed_time := to_double (to_double (of_int (now - start_time t)) / 10 ^ 9)\<rparr>"

text \<open>\<open>duration_cast<milliseconds>\<close> multiplies in \<open>double\<close> and converts.\<close>

definition timer_ms :: "bench_timer \<Rightarrow> int" where
  "timer_ms t = trunc (to_double (elapsed_time t * 1000))"

section \<open>Rounding\<close>

lemma round_even_near: "\<bar>of_int (round_even x) - x\<bar> \<le> 1 / 2"
  using of_int_floor_le [of x] floor_correct [of x]
  by (auto simp: round_even_def Let_def abs_le_iff)

lemma scaled_near: "0 \<le> x \<Longrightarrow> \<bar>scaled n x - x\<bar> \<le> x / 2 ^ 53"
proof (induction n x rule: scaled.induct)
  case (2 n x)
  consider "x < 2 ^ 52" | "2 ^ 53 \<le> x" | "2 ^ 52 \<le> x" "x < 2 ^ 53" by linarith
  then show ?case
  proof cases
    case 1
    with 2 have "\<bar>scaled n (x * 2) - x * 2\<bar> \<le> x * 2 / 2 ^ 53" by simp
    with 1 show ?thesis by (simp add: abs_le_iff field_simps)
  next
    case 2: 2
    with "2.prems" "2.IH" have "\<bar>scaled n (x / 2) - x / 2\<bar> \<le> x / 2 / 2 ^ 53" by simp
    with 2 show ?thesis by (simp add: abs_le_iff field_simps)
  next
    case 3
    with round_even_near [of x] show ?thesis by (simp add: abs_le_iff field_simps)
  qed
qed simp

lemma to_double_near: "0 \<le> x \<Longrightarrow> \<bar>to_double x - x\<bar> \<le> x / 2 ^ 53"
  using scaled_near [of x 200] by (simp add: to_double_def)

lemma to_double_bounds:
  assumes "0 \<le> x"
  shows "x - x / 2 ^ 53 \<le> to_double x" and "to_double x \<le> x + x / 2 ^ 53" and "0 \<le> to_double x"
proof -
  have "- (x / 2 ^ 53) \<le> to_double x - x" "to_double x - x \<le> x / 2 ^ 53"
    using to_double_near [OF assms] unfolding abs_le_iff by linarith+
  moreover have "x / 2 ^ 53 \<le> x" using assms by (simp add: field_simps)
  ultimately show "x - x / 2 ^ 53 \<le> to_double x" "to_double x \<le> x + x / 2 ^ 53" "0 \<le> to_double x"
    by linarith+
qed

text \<open>A number with at most 53 significant bits, or one bit more when it was rounded up to a power of two.\<close>

definition precise :: "rat \<Rightarrow> bool" where
  "precise y \<longleftrightarrow> (\<exists>m k. 2 ^ 52 \<le> m \<and> m \<le> 2 ^ 53 \<and> (y = of_int m * 2 ^ k \<or> y = of_int m / 2 ^ k))"

lemma precise_scaled: "precise y \<Longrightarrow> precise (y * 2)" "precise y \<Longrightarrow> precise (y / 2)"
proof -
  assume "precise y"
  then obtain m k where m: "2 ^ 52 \<le> m" "m \<le> 2 ^ 53" and y: "y = of_int m * 2 ^ k \<or> y = of_int m / 2 ^ k"
    by (auto simp: precise_def)
  have "y * 2 = of_int m * 2 ^ Suc k \<or> (k = 0 \<and> y * 2 = of_int m * 2 ^ 1)
      \<or> (0 < k \<and> y * 2 = of_int m / 2 ^ (k - 1))"
    using y by (cases k) auto
  with m show "precise (y * 2)" unfolding precise_def by blast
  have "y / 2 = of_int m / 2 ^ Suc k \<or> (k = 0 \<and> y / 2 = of_int m / 2 ^ 1)
      \<or> (0 < k \<and> y / 2 = of_int m * 2 ^ (k - 1))"
    using y by (cases k) auto
  with m show "precise (y / 2)" unfolding precise_def by blast
qed

lemma round_even_range: "2 ^ 52 \<le> x \<Longrightarrow> x < 2 ^ 53 \<Longrightarrow> 2 ^ 52 \<le> round_even x \<and> round_even x \<le> 2 ^ 53"
proof -
  assume x: "2 ^ 52 \<le> x" "x < 2 ^ 53"
  then have "2 ^ 52 \<le> \<lfloor>x\<rfloor>" "\<lfloor>x\<rfloor> < 2 ^ 53" by (simp_all add: le_floor_iff floor_less_iff)
  then show ?thesis by (auto simp: round_even_def Let_def)
qed

lemma precise_rounded:
  assumes "2 ^ 52 \<le> x" and "x < 2 ^ 53"
  shows "precise (of_int (round_even x))"
  unfolding precise_def using round_even_range [OF assms]
  by (intro exI [of _ "round_even x"] exI [of _ 0]) simp

lemma scaled_precise:
  "(x < 2 ^ 53 \<and> 2 ^ 52 \<le> x * 2 ^ n) \<or> (2 ^ 52 \<le> x \<and> x < 2 ^ 53 * 2 ^ n) \<Longrightarrow> n < k \<Longrightarrow> precise (scaled k x)"
proof (induction n arbitrary: x k)
  case 0
  then obtain k' where "k = Suc k'" by (cases k) auto
  with 0 precise_rounded [of x] show ?case by auto
next
  case (Suc n)
  then obtain k' where k: "k = Suc k'" "n < k'" by (cases k) auto
  consider "x < 2 ^ 52" | "2 ^ 53 \<le> x" | "2 ^ 52 \<le> x" "x < 2 ^ 53" by linarith
  then show ?case
  proof cases
    case 1
    with Suc k have "precise (scaled k' (x * 2))" by (intro Suc.IH) (auto simp: mult.assoc)
    with 1 k precise_scaled(2) show ?thesis by simp
  next
    case 2
    with Suc k have "precise (scaled k' (x / 2))" by (intro Suc.IH) auto
    with 2 k precise_scaled(1) show ?thesis by simp
  next
    case 3
    with k precise_rounded [of x] show ?thesis by simp
  qed
qed

lemma to_double_precise:
  assumes "1 / 2 ^ 100 \<le> x" and "x \<le> 2 ^ 100"
  shows "precise (to_double x)"
proof -
  have "0 < x" using assms(1) by (rule less_le_trans [rotated]) simp
  moreover have "precise (scaled 200 x)"
  proof (cases "x < 2 ^ 53")
    case True
    with assms(1) show ?thesis by (intro scaled_precise [of _ 152]) (auto simp: field_simps)
  next
    case False
    have "(2 :: rat) ^ 100 < 2 ^ 53 * 2 ^ 152" by simp
    with False assms(2) show ?thesis
      by (intro scaled_precise [of _ 152]) (auto intro: le_less_trans)
  qed
  ultimately show ?thesis by (simp add: to_double_def)
qed

section \<open>How exact the timer is\<close>

lemma floors_near:
  assumes "\<bar>x - y\<bar> < (1 :: rat)"
  shows "\<bar>\<lfloor>x\<rfloor> - \<lfloor>y\<rfloor>\<bar> \<le> 1"
proof -
  have "x < y + 1" "y < x + 1" using assms by linarith+
  then have "\<lfloor>x\<rfloor> \<le> \<lfloor>y + 1\<rfloor>" "\<lfloor>y\<rfloor> \<le> \<lfloor>x + 1\<rfloor>" by (intro floor_mono; simp)+
  then show ?thesis by simp
qed

lemma three_roundings:
  assumes "0 \<le> x" and "x < 2 ^ 63"
  shows "\<bar>to_double (to_double (to_double x / 10 ^ 9) * 1000) - x / 10 ^ 6\<bar> < 1"
proof -
  define a where "a = to_double x"
  define b where "b = to_double (a / 10 ^ 9)"
  define c where "c = to_double (b * 1000)"
  have a: "x - x / 2 ^ 53 \<le> a" "a \<le> x + x / 2 ^ 53" "0 \<le> a"
    using to_double_bounds [OF assms(1)] by (simp_all add: a_def)
  have b: "a / 10 ^ 9 - a / 10 ^ 9 / 2 ^ 53 \<le> b" "b \<le> a / 10 ^ 9 + a / 10 ^ 9 / 2 ^ 53" "0 \<le> b"
    using to_double_bounds [of "a / 10 ^ 9"] a(3) by (simp_all add: b_def)
  have c: "b * 1000 - b * 1000 / 2 ^ 53 \<le> c" "c \<le> b * 1000 + b * 1000 / 2 ^ 53"
    using to_double_bounds [of "b * 1000"] b(3) by (simp_all add: c_def)
  have "\<bar>c - x / 10 ^ 6\<bar> < 1"
    using a b c assms(2) unfolding abs_less_iff by (simp add: field_simps)
  then show ?thesis by (simp add: a_def b_def c_def)
qed

text \<open>
  C39: what the timer says is at most one millisecond away from the whole milliseconds that have
  passed between \<open>start\<close> and \<open>stop\<close>, for every time a 64 bit number of nanoseconds can hold (292 years).
  It is not always exact: three roundings can move a whole number of milliseconds just below it, and
  the conversion then cuts it off.
\<close>

theorem timer_within_one:
  assumes "begun \<le> ended" and "ended - begun < 2 ^ 63"
  shows "\<bar>timer_ms (timer_stop ended (timer_start begun t)) - (ended - begun) div 10 ^ 6\<bar> \<le> 1"
proof -
  let ?x = "of_int (ended - begun) :: rat"
  let ?y = "to_double (to_double (to_double ?x / 10 ^ 9) * 1000)"
  have "?x < of_int (2 ^ 63)" using assms(2) by (simp only: of_int_less_iff)
  then have x: "0 \<le> ?x" "?x < 2 ^ 63" using assms(1) by simp_all
  then have "0 \<le> ?y" by (simp add: to_double_bounds(3))
  then have "timer_ms (timer_stop ended (timer_start begun t)) = \<lfloor>?y\<rfloor>"
    by (simp add: timer_ms_def timer_stop_def timer_start_def trunc_def)
  moreover have "\<lfloor>?x / 10 ^ 6\<rfloor> = (ended - begun) div 10 ^ 6"
    using floor_divide_of_int_eq [where ?'a = rat, of "ended - begun" "10 ^ 6"] by simp
  ultimately show ?thesis using floors_near [OF three_roundings [OF x]] by simp
qed

lemma scaled_numeral:
  "scaled (numeral k) x =
     (if x < 2 ^ 52 then scaled (pred_numeral k) (x * 2) / 2
      else if 2 ^ 53 \<le> x then scaled (pred_numeral k) (x / 2) * 2
      else of_int (round_even x))"
  by (simp add: numeral_eq_Suc)

lemma floor_numerals: "\<lfloor>numeral a / numeral b :: rat\<rfloor> = numeral a div numeral b"
  using floor_divide_of_int_eq [where ?'a = rat, of "numeral a" "numeral b"] by simp

lemmas double_eval = to_double_def scaled_numeral round_even_def Let_def floor_numerals

text \<open>1001 milliseconds: the second is not a \<open>double\<close>, and the product with 1000 falls short.\<close>

lemma sample_doubles:
  "to_double 1001000000 = 1001000000"
  "to_double (1001 / 1000) = 2254051613498933 / 2251799813685248"
  "to_double (281756451687366625 / 281474976710656) = 8804889115230207 / 8796093022208"
  by (simp_all add: double_eval)

lemma sample_timer: "timer_ms (timer_stop 1001000005 (timer_start 5 (timer_new 0))) = 1000"
  by (simp add: timer_ms_def timer_stop_def timer_start_def timer_new_def trunc_def sample_doubles
      floor_numerals)

theorem timer_within_one_witness:
  "timer_ms (timer_stop 1001000005 (timer_start 5 (timer_new 0))) = 1000
     \<and> \<bar>1000 - (1001000005 - 5) div 10 ^ 6\<bar> \<le> (1 :: int)"
  using timer_within_one [of 5 1001000005 "timer_new 0"] by (simp add: sample_timer)

end
