(* ===== verification/Spec2Isabelle.thy ===== *)
theory Spec2Isabelle
  imports HandlerReplacement OutputHandler ThreadPool TcpClient GearServer MainProgram ParallelLoop DaemonDemo Progress Starvation QueueLock BenchTimer
begin

text \<open>
  A verification development for MysqlGear, a daemon that accepts SQL queries over TCP,
  acknowledges each as soon as it is queued, and executes them on a MySQL server through a pool of
  connections. All sources named here are under \<^verbatim>\<open>src/src\<close>.

  \<^bold>\<open>The program.\<close> \<open>main\<close> (\<^verbatim>\<open>main.cpp\<close>) loads the configuration, may turn itself into a daemon and
  creates a queue of messages, a database handler, a pool of database threads, the input side
  and the output side. On the input side \<open>GearServer\<close> accepts connections and gives each to a
  task \<open>GearStreamClientHandler::main\<close>, which parses the wire protocol, pushes queries on the
  queue and answers. On the output side the thread of \<open>OutputHandler\<close> takes messages off the
  queue and pushes a task for each on the database pool; the task gets a connection from
  \<open>LibzdbHandler\<close>, executes the query and may put the message back.

  \<^bold>\<open>The theories\<close>, each on the parts of the code its first text block names:

  \<^item> \<open>Prelude\<close>: machine types, undefined behaviour as the error type \<open>ub\<close>, \<open>memcpy\<close> with bounds,
    the collections of simplification rules, and the locale \<open>kept\<close>, the contract between a step
    relation and an invariant, which the step relations of the threads interpret.
  \<^item> \<open>LockedQueue\<close> (\<^verbatim>\<open>utils/lockedqueue/LockedQueue.h\<close>): the queue; the locale \<open>fifo\<close> is its
    interface, interpreted as \<open>lq\<close>; every interleaving of pushes and pops is first in first out.
    \<open>QueueLock\<close>: its functions statement by statement under the mutex, for any number of threads and
    any scheduler; they do what the single steps of \<open>LockedQueue\<close> do, so the other theories take each
    call as one step.
  \<^item> \<open>GearTypes\<close> (\<^verbatim>\<open>MysqlGearQueueEntry.h\<close>, \<^verbatim>\<open>input/inputs/GearInputMessageTypes.h\<close>): queue
    entries, message types and header sizes.
  \<^item> \<open>StatusReply\<close>: the text of a status answer, its round trip and its length byte.
  \<^item> \<open>ClientHandler\<close> (\<^verbatim>\<open>input/inputs/GearStreamClientHandler.cpp\<close>): the handler of one
    connection; the record \<open>conn\<close> holds the local variables of \<open>main\<close>, each branch of the loop
    body is a definition, the two loops are partial functions, so that a loop that never
    ends has the value \<open>None\<close>; its effects are a trace of events.
  \<^item> \<open>WireProtocol\<close>: the specification, an automaton fed byte by byte, and the encoding of
    well-formed requests. \<open>ChunkRefinement\<close>: the simulation between the two, one lemma for each step
    and each loop. \<open>ClientSession\<close>: the locale \<open>chunked_handler\<close>, its interpretation \<open>ch\<close> by the
    simulation, and the properties of sessions: service, safety, and the ways to hang.
  \<^item> \<open>HandlerThread\<close> (\<^verbatim>\<open>input/inputs/GearStreamClientHandlerThread.cpp\<close>): the older client handler,
    which the repository keeps beside its replacement but no build file compiles; calls of its
    \<open>stop\<close> are a schedule \<open>halt\<close>. \<open>HandlerReplacement\<close>: each of its branches is the new
    handler's, so that the two agree on every stream without a status request.
  \<^item> \<open>Config\<close> (\<^verbatim>\<open>config.h\<close>, \<^verbatim>\<open>mysqlserver.h\<close>, \<open>load_config\<close> of \<^verbatim>\<open>main.cpp\<close>): the options, the
    loader as its chain of \<open>find\<close> tests, and the round trip with a writer of files.
  \<^item> \<open>Outside\<close>: libzdb, the clock and \<open>usleep\<close> as the parameter record \<open>outside\<close> on an unknown
    state, exceptions as values, the system log as a list.
  \<^item> \<open>LibzdbHandler\<close> (\<^verbatim>\<open>utils/libzdb\<close>): the choice of a server, \<open>connect\<close> with its handlers, the
    connections; the locale \<open>connections\<close> is what the output side uses, interpreted as \<open>db\<close>.
  \<^item> \<open>OutputHandler\<close> (\<^verbatim>\<open>output/OutputHandler.cpp\<close>): \<open>task\<close> with its three nested \<open>try\<close> blocks,
    the inner loop \<open>dispatch_messages\<close> and the thread around it.
  \<^item> \<open>ThreadPool\<close> (\<^verbatim>\<open>utils/threadpool\<close>): the pool as a step relation, one step for each access
    to a shared variable, with the invariant of its counter; the handler around it.
    \<open>PoolControl\<close>: the destructor and \<open>reset\<close> as programs beside the workers, \<open>submit\<close>, the
    synchronised stream. \<open>BenchTimer\<close>: the class \<open>timer\<close> with its rounding. \<open>ParallelLoop\<close>: \<open>parallelize_loop\<close> against the
    sequential loop, for every integer type with the promotions, overflows and conversions of C++.
  \<^item> \<open>TimedWaiter\<close>, \<open>TcpServer\<close>, \<open>TcpClient\<close> (\<^verbatim>\<open>utils/timedwaiter\<close>, \<^verbatim>\<open>utils/tcpclientserver\<close>): the
    interruptible wait, down to its mutex and condition variable, and the two sockets over parameter
    records of system calls, with a record of the descriptors that are opened and closed.
    \<open>Demos\<close>: the demo programs of the utilities, but for the daemon's, which is \<open>DaemonDemo\<close>.
  \<^item> \<open>GearServer\<close> (\<^verbatim>\<open>input/inputs/GearServer.cpp\<close>, \<^verbatim>\<open>input/InputHandler.cpp\<close>): the accept loop.
  \<^item> \<open>Daemon\<close> (\<^verbatim>\<open>utils/daemonize\<close>, \<^verbatim>\<open>main.cpp\<close>): \<open>daemonize\<close>, the signal handler and how signals
    reach it, the loops of \<open>main\<close>. \<open>MainProgram\<close>: \<open>main\<close> as the composition of the components, and its
    shutdown, in which \<open>main\<close> waits for the input side and so for every client handler.
  \<^item> \<open>System\<close>: the clients, the output thread and the pool's threads on their shared state, as a
    step relation of all their interleavings, with a task as one step; no message is lost.
  \<^item> \<open>TaskSteps\<close>: \<open>OutputHandler::task\<close> again, as one step for each call into libzdb, refined to
    \<open>task\<close> when it runs alone; the steps of all tasks interleave, and nothing is lost by that.
    \<open>ConnectionLimit\<close>: the connections as a resource these tasks share (\<open>limited_pool\<close> is what libzdb
    promises of them), with as many as there are threads and with one fewer, which is what \<open>main\<close>
    sets up; \<open>lost\<close> are the messages whose task found none. \<open>Progress\<close>: the threads never get stuck, by
    a measure of the work left, in the same model: when all connections are out a task that holds
    one can go on.
  \<^item> \<open>Starvation\<close>: the client handlers as the tasks of the server's pool, of which some never return: they
    stop the service, and one is enough to keep the pool from being destroyed.
  \<^item> This theory: the properties that span the components, from the bytes of one client, or of
    many at once, to the executed queries.

  \<^bold>\<open>What is shown.\<close> The client handler refines the protocol automaton for every way the network cuts
  the stream; a well-formed client is served completely and its queries reach the queue. From
  there, under every interleaving of the single steps of the threads, on a database that executes what
  it gets and hands out up to \<open>m\<close> connections, each query is executed exactly once when the threads have
  come to rest, which they always can, but for those of the messages whose task finds all connections out;
  with a connection for every thread there are none of these, and with a thread more, which is
  what \<open>main\<close> sets up, one can be lost. The queue and the dispatch loop neither lose nor reorder
  messages, the thread pool loses no task, no interrupt of the timed waiter is lost, the server hands out
  each connection once and leaks no descriptor while it runs, a new database pool is opened on the first
  server that has not failed lately, and a daemon that gets a SIGINT ends in order if its clients'
  handlers return, with every message taken or logged. Other theorems state where the code departs
  from what it means to do: messages and streams that make the handler spin or read outside a table,
  as many such clients as the server has threads and it serves no one any more, one of them and the
  server's pool is never destroyed, a surplus thread that loses its message, messages that are lost
  although a log line says they are rescheduled, a retry limit that never counts, a
  configuration reload that empties the server list, an index range that never ends.

  \<^bold>\<open>Loops and fuel.\<close> Loops over data are recursive functions with a measure. The two loops of the client
  handler, which some inputs make infinite, are partial functions into \<open>option\<close>; the theorems
  say when the value is \<open>Some\<close> and when it is \<open>None\<close>. The loops of the threads run for as
  long as the program does: they are functions of the list of what the other threads and the system
  do in each turn, and say whether the loop has ended when the list is used up.

  \<^bold>\<open>What is not modelled.\<close> The debug output; log lines other than those of the database side and of
  unknown message types; memory exhaustion; the data races of flags and configuration that are read without a
  lock (a read gives one of the values written); the PHP clients. A \<open>memcpy\<close> between overlapping ranges,
  which C leaves undefined, copies as \<open>memmove\<close> would. libzdb and the system calls are
  parameters; a theorem that needs something of them has it as a hypothesis with a concrete instance.
\<close>

section \<open>From the socket to the database\<close>

text \<open>What a session pushes can be pushed by the clients of the threads' model.\<close>

lemma pushed_are_entries:
  assumes "\<forall>b\<in>set cs. b \<noteq> [] \<and> length b < 2048" and "handler_main e (map Received cs) = Some (Inr evs)"
  shows "pushed evs = map (\<lambda>(t, b). entry_of t b) (map (\<lambda>m. (received m, query m)) (pushed evs))"
proof -
  have "entry_of (received m) (query m) = m" if "m \<in> set (pushed evs)" for m
  proof -
    have "Pushed m \<in> set evs" using that by (induction evs rule: pushed.induct) auto
    from pushed_are_fresh [OF assms this] show ?thesis
      by (auto simp: fresh_entry_def entry_of_def new_entry_def)
  qed
  then show ?thesis by (simp add: map_idI)
qed

lemma pushes_reachable:
  assumes "ms = map (\<lambda>(t, b). entry_of t b) cs"
  shows "\<exists>s. fine_reachable z h c ready n w s \<and> handed_in s = mset ms"
  using queued_clients [of z h c ready n w cs] assms
  by (intro exI [of _ "queued n ms [] [] ms w"]) (simp add: fine_reachable_def queued_def)

text \<open>
  C1: the program's promise from end to end. A client sends well-formed requests, cut into receives in
  any way; the threads are an output thread that checks its limit of \<open>m\<close> running tasks and a pool of \<open>n\<close>
  threads, in any interleaving of their single steps, on a database that executes what it gets and
  gives out up to \<open>m\<close> connections (\<open>m\<close> and \<open>n\<close> positive, the retry limit not obeyed). The handler queues
  exactly the client's queries and returns. From every state in which its messages are those that
  have been handed in, the threads can come to rest without losing a further one, and then the
  database has executed exactly the client's queries (up to their first NUL byte), each once, but for
  those whose task had found all connections out before; with at most as many threads as connections
  there are none of these.
\<close>

theorem queries_reach_database:
  assumes "\<forall>b\<in>set cs. b \<noteq> [] \<and> length b < 2048"
    and "concat cs = client_stream rs" and "\<forall>r\<in>set rs. valid_request r"
    and "limited_pool z p m out" and "serves z" and "out (fst (ext w)) = {}" and "conpool h = Some p"
    and "0 < m" and "m < 2 ^ 64" and "0 < n" and "\<not> obey_work_retry_count c"
  shows "\<exists>evs. handler_main e (map Received cs) = Some (Inr evs) \<and> map query (pushed evs) = queries rs
    \<and> (\<exists>s. fine_reachable (recorded z) h c (below_limit m) n w s \<and> handed_in s = mset (pushed evs))
    \<and> (\<forall>s. fine_reachable (recorded z) h c (below_limit m) n w s \<and> handed_in s = mset (pushed evs) \<longrightarrow>
         (n \<le> m \<longrightarrow> lost s = {#})
         \<and> (\<exists>s'. (fine_step (recorded z) h c (below_limit m))\<^sup>*\<^sup>* s s' \<and> at_rest s' \<and> lost s' = lost s
              \<and> mset (executed (sy_world s')) + image_mset (c_str \<circ> query) (lost s)
                = mset (executed w) + mset (map c_str (queries rs))))"
proof -
  define evs where "evs = fold (serve e) rs [Reply [one_char]]
    @ (if rs = [] then [Reply [zero_char]] else []) @ [Closed]"
  have run: "handler_main e (map Received cs) = Some (Inr evs)"
    unfolding evs_def by (rule served [OF assms(1-3)])
  have content: "map query (pushed evs) = queries rs"
    by (simp add: evs_def pushed_append serve_queries)
  then have queries: "image_mset (c_str \<circ> query) (mset (pushed evs)) = mset (map c_str (queries rs))"
    by (metis map_map mset_map)
  note reach = pushes_reachable [OF pushed_are_entries [OF assms(1) run]]
  have "\<exists>s'. (fine_step (recorded z) h c (below_limit m))\<^sup>*\<^sup>* s s' \<and> at_rest s' \<and> lost s' = lost s
      \<and> mset (executed (sy_world s')) + image_mset (c_str \<circ> query) (lost s)
        = mset (executed w) + mset (map c_str (queries rs))"
    if "fine_reachable (recorded z) h c (below_limit m) n w s" "handed_in s = mset (pushed evs)" for s
    using way_to_rest [OF assms(4-11) that(1)] that(2) queries by auto
  with run content reach nothing_lost [OF assms(4-7), of n c "below_limit m"] show ?thesis by blast
qed

theorem queries_reach_database_witness:
  "\<exists>evs s'. handler_main sample_env
        (map Received [[1, 3, 2], [0, 0, 0, 65], [66, 1, 0, 0], [0, 0]]) = Some (Inr evs)
    \<and> map query (pushed evs) = [[65, 66]]
    \<and> fine_reachable (recorded (counted_outside 1)) counted_handler default_config (below_limit 1) 1
        counted_world s'
    \<and> at_rest s' \<and> lost s' = {#} \<and> mset (executed (sy_world s')) = {#[65, 66]#}"
proof -
  let ?reachable = "fine_reachable (recorded (counted_outside 1)) counted_handler default_config
    (below_limit 1) 1 counted_world"
  have "concat [[1, 3, 2], [0, 0, 0, 65], [66, 1, 0, 0], [0, 0]] = client_stream [Query [65, 66], Status]"
    by (simp add: sample_stream)
  from queries_reach_database [OF _ this _ counted_limited counted_serves counted_start(1,2) zero_less_one
      _ zero_less_one counted_start(3), where e = sample_env]
  obtain evs where evs: "handler_main sample_env
      (map Received [[1, 3, 2], [0, 0, 0, 65], [66, 1, 0, 0], [0, 0]]) = Some (Inr evs)"
      "map query (pushed evs) = queries [Query [65, 66], Status]"
    and handed: "\<exists>s. ?reachable s \<and> handed_in s = mset (pushed evs)"
    and rest: "\<forall>s. ?reachable s \<and> handed_in s = mset (pushed evs) \<longrightarrow> (1 \<le> (1 :: nat) \<longrightarrow> lost s = {#})
      \<and> (\<exists>s'. counted_step\<^sup>*\<^sup>* s s' \<and> at_rest s' \<and> lost s' = lost s
        \<and> mset (executed (sy_world s')) + image_mset (c_str \<circ> query) (lost s)
          = mset (executed counted_world) + mset (map c_str (queries [Query [65, 66], Status])))"
    by fastforce
  from handed rest obtain s where s: "?reachable s" "lost s = {#}"
    and on: "\<exists>s'. counted_step\<^sup>*\<^sup>* s s' \<and> at_rest s' \<and> lost s' = lost s
        \<and> mset (executed (sy_world s')) + image_mset (c_str \<circ> query) (lost s)
          = mset (executed counted_world) + mset (map c_str (queries [Query [65, 66], Status]))"
    by blast
  from on obtain s' where s': "counted_step\<^sup>*\<^sup>* s s'" "at_rest s'" "lost s' = {#}"
    "mset (executed (sy_world s')) = mset (map c_str (queries [Query [65, 66], Status]))"
    using s(2) by (auto simp: counted_start(4))
  have "?reachable s'"
    using s(1) s'(1) by (simp add: fine_reachable_def)
  with evs s' show ?thesis by (intro exI [of _ evs] exI [of _ s']) (simp add: c_str_def)
qed

section \<open>Many clients at once\<close>

text \<open>A client: what its handler reads outside its connection, the receives and the requests.\<close>

type_synonym client = "env \<times> byte list list \<times> request list"

definition proper_client :: "client \<Rightarrow> bool" where
  "proper_client cl \<longleftrightarrow> (case cl of (e, cs, rs) \<Rightarrow>
     (\<forall>b\<in>set cs. b \<noteq> [] \<and> length b < 2048) \<and> concat cs = client_stream rs
     \<and> (\<forall>r\<in>set rs. valid_request r))"

text \<open>What the handler of a client pushes on the shared queue.\<close>

definition session_pushes :: "client \<Rightarrow> queue_entry list" where
  "session_pushes cl = (case cl of (e, cs, rs) \<Rightarrow>
     (case handler_main e (map Received cs) of Some (Inr evs) \<Rightarrow> pushed evs | _ \<Rightarrow> []))"

lemma session_queries:
  "proper_client cl \<Longrightarrow> map query (session_pushes cl) = queries (snd (snd cl))"
  by (auto simp: proper_client_def session_pushes_def served pushed_append serve_queries split: prod.split)

lemma sessions_queries:
  assumes "\<forall>cl\<in>set clients. proper_client cl"
  shows "image_mset (c_str \<circ> query) (mset (concat (map session_pushes clients)))
    = mset (map c_str (concat (map (\<lambda>cl. queries (snd (snd cl))) clients)))"
proof -
  have "map query (concat (map session_pushes clients))
      = concat (map (\<lambda>cl. queries (snd (snd cl))) clients)"
    using assms by (induction clients) (simp_all add: session_queries)
  then have "map (c_str \<circ> query) (concat (map session_pushes clients))
      = map c_str (concat (map (\<lambda>cl. queries (snd (snd cl))) clients))"
    by (metis map_map)
  then show ?thesis by (metis mset_map)
qed

text \<open>
  C2: the promise to many clients at once. The handlers of any number of clients that send
  well-formed requests push on the queue while the output thread and the pool's threads work, in any
  interleaving of the single steps of all of them, with any number \<open>n\<close> of threads that compete for
  up to \<open>m\<close> connections; it is assumed that the database executes what it gets, hands out
  connections as libzdb promises, and that the retry limit is not obeyed. When what has been handed in
  is what these handlers push, and nothing is left in the queue and in the pool, the database
  has executed exactly the queries of all clients (up to their first NUL byte), each once, but for
  those of the messages whose task found all connections out; with at most as many threads as
  connections there are none of these.
\<close>

theorem concurrent_clients_served:
  assumes "\<forall>cl\<in>set clients. proper_client cl"
    and "limited_pool z p m out" and "serves z" and "out (fst (ext w)) = {}" and "conpool h = Some p"
    and "\<not> obey_work_retry_count c" and "fine_reachable (recorded z) h c ready n w s"
    and "handed_in s = mset (concat (map session_pushes clients))" and "at_rest s"
  shows "mset (executed (sy_world s)) + image_mset (c_str \<circ> query) (lost s)
      = mset (executed w) + mset (map c_str (concat (map (\<lambda>cl. queries (snd (snd cl))) clients)))
    \<and> (n \<le> m \<longrightarrow> lost s = {#})"
  using executed_or_lost [OF assms(7) mild_reachable [OF assms(2-5,7)] assms(6,9)]
    nothing_lost [OF assms(2-5) _ assms(7)] sessions_queries [OF assms(1)] assms(8)
  by simp

definition sample_client :: client where
  "sample_client = (sample_env\<lparr>clock := (\<lambda>_. 5)\<rparr>, [[1, 3, 2], [0, 0, 0, 65], [66, 1, 0, 0], [0, 0]],
     [Query [65, 66], Status])"

lemma sample_client_proper: "proper_client sample_client"
  by (simp add: proper_client_def sample_client_def sample_stream)

lemma sample_client_pushes: "session_pushes sample_client = [counted_message]"
proof -
  have "handler_main (sample_env\<lparr>clock := (\<lambda>_. 5)\<rparr>)
        (map Received [[1, 3, 2], [0, 0, 0, 65], [66, 1, 0, 0], [0, 0]])
      = Some (Inr (fold (serve (sample_env\<lparr>clock := (\<lambda>_. 5)\<rparr>)) [Query [65, 66], Status]
          [Reply [one_char]] @ [Closed]))"
    using served [of "[[1, 3, 2], [0, 0, 0, 65], [66, 1, 0, 0], [0, 0]]" "[Query [65, 66], Status]"
        "sample_env\<lparr>clock := (\<lambda>_. 5)\<rparr>"] by (simp add: sample_stream)
  then show ?thesis
    by (simp add: session_pushes_def sample_client_def accept_query_def answer_status_def pushed_append
        counted_message_def)
qed

theorem concurrent_clients_served_witness: "mset (executed (sy_world counted_done)) = mset [[65, 66]]"
proof -
  have "handed_in counted_done = mset (concat (map session_pushes [sample_client]))"
    by (simp add: sample_client_pushes counted_done_def)
  from concurrent_clients_served [OF _ counted_limited counted_serves counted_start(1,2,3)
      counted_done_reachable this counted_done_at_rest]
  have "mset (executed (sy_world counted_done)) = mset (executed counted_world)
      + mset (map c_str (concat (map (\<lambda>cl. queries (snd (snd cl))) [sample_client])))"
    by (auto simp: sample_client_proper)
  then show ?thesis by (simp add: sample_client_def counted_start(4) c_str_def)
qed

end
